(* ===== verification/Jk_Prelude.thy ===== *)
theory Jk_Prelude
  imports Main "HOL-Library.Word" "HOL-Library.Monad_Syntax"
begin

text \<open>
  Shared vocabulary of the development.

  \<^item> \<open>'a ub\<close> is the result of C code that can have undefined behaviour: \<open>None\<close> is the undefined
    outcome (a null dereference, an access outside an object, an invalid \<open>free\<close>, an oversized
    shift, a signed overflow), \<open>Some r\<close> a defined one. A safety theorem states that the
    result is \<open>Some\<close>.
  \<^item> C strings are \<^typ>\<open>string\<close> values without their terminator; the functions of
    \<open>string.h\<close>, \<open>ctype.h\<close> and \<open>stdlib.h\<close> that the sources call are defined here.
  \<^item> a heap with \<open>malloc\<close>, \<open>realloc\<close> and \<open>free\<close> that can run out of memory and that
    detects the release of a block that is not live.
\<close>

unbundle bit_operations_syntax

type_synonym 'a ub = "'a option"
type_synonym u8 = "8 word"
type_synonym u16 = "16 word"
type_synonym u32 = "32 word"
type_synonym u64 = "64 word"

named_theorems ub_simps \<open>unfolding of the undefined-behaviour monad\<close>
named_theorems jk_inv \<open>preservation of component invariants\<close>

section \<open>The undefined-behaviour monad\<close>

lemma bind_Some_iff [ub_simps]:
  "(Option.bind m f = Some y) = (\<exists>x. m = Some x \<and> f x = Some y)"
  by (cases m) auto

lemma bind_None_iff [ub_simps]:
  "(Option.bind m f = None) = (m = None \<or> (\<exists>x. m = Some x \<and> f x = None))"
  by (cases m) auto

definition guard :: "bool \<Rightarrow> unit ub" where
  "guard b = (if b then Some () else None)"

lemma guard_simps [simp]: "guard True = Some ()" "guard False = None"
  by (simp_all add: guard_def)

lemma guard_Some [ub_simps]: "(guard b = Some u) = b"
  by (simp add: guard_def)

definition rd :: "'a list \<Rightarrow> nat \<Rightarrow> 'a ub" where
  "rd xs i = (if i < length xs then Some (xs ! i) else None)"

definition wr :: "'a list \<Rightarrow> nat \<Rightarrow> 'a \<Rightarrow> 'a list ub" where
  "wr xs i v = (if i < length xs then Some (xs[i := v]) else None)"

lemma rd_in [simp]: "i < length xs \<Longrightarrow> rd xs i = Some (xs ! i)"
  by (simp add: rd_def)

lemma rd_out [simp]: "\<not> i < length xs \<Longrightarrow> rd xs i = None"
  by (simp add: rd_def)

lemma wr_in [simp]: "i < length xs \<Longrightarrow> wr xs i v = Some (xs[i := v])"
  by (simp add: wr_def)

lemma wr_out [simp]: "\<not> i < length xs \<Longrightarrow> wr xs i v = None"
  by (simp add: wr_def)

lemma rd_Some [ub_simps]: "(rd xs i = Some v) = (i < length xs \<and> v = xs ! i)"
  by (auto simp: rd_def)

lemma wr_Some [ub_simps]: "(wr xs i v = Some ys) = (i < length xs \<and> ys = xs[i := v])"
  by (auto simp: wr_def)

text \<open>Objects indexed by a C \<open>int\<close>, and a run of consecutive stores (\<open>memcpy\<close>, or a sequence of
  \<open>buf[i++] = x\<close>).\<close>

definition rdi :: "'a list \<Rightarrow> int \<Rightarrow> 'a ub" where
  "rdi xs i = (if i < 0 then None else rd xs (nat i))"

fun poke :: "'a list \<Rightarrow> nat \<Rightarrow> 'a list \<Rightarrow> 'a list ub" where
  "poke xs i [] = Some xs"
| "poke xs i (v # vs) = do { xs' \<leftarrow> wr xs i v; poke xs' (Suc i) vs }"

definition pokei :: "'a list \<Rightarrow> int \<Rightarrow> 'a list \<Rightarrow> 'a list ub" where
  "pokei xs i vs = (if i < 0 then None else poke xs (nat i) vs)"

definition splice :: "'a list \<Rightarrow> nat \<Rightarrow> 'a list \<Rightarrow> 'a list" where
  "splice xs i vs = take i xs @ vs @ drop (i + length vs) xs"

lemma splice_Nil [simp]: "splice xs i [] = xs"
  by (simp add: splice_def)

lemma length_splice [simp]: "i + length vs \<le> length xs \<Longrightarrow> length (splice xs i vs) = length xs"
  by (simp add: splice_def)

lemma poke_in: "i + length vs \<le> length xs \<Longrightarrow> poke xs i vs = Some (splice xs i vs)"
proof (induction vs arbitrary: xs i)
  case (Cons v vs)
  then have "poke xs i (v # vs) = Some (splice (xs[i := v]) (Suc i) vs)" by simp
  moreover have "splice (xs[i := v]) (Suc i) vs = splice xs i (v # vs)"
    using Cons.prems by (simp add: splice_def take_Suc_conv_app_nth)
  ultimately show ?case by simp
qed simp

lemma poke_out: "vs \<noteq> [] \<Longrightarrow> length xs < i + length vs \<Longrightarrow> poke xs i vs = None"
proof (induction vs arbitrary: xs i)
  case (Cons v vs)
  show ?case
  proof (cases "i < length xs")
    case True
    with Cons.prems have "vs \<noteq> []" by auto
    with Cons.IH [of "xs[i := v]" "Suc i"] Cons.prems True show ?thesis by simp
  qed simp
qed simp

lemma poke_one: "poke y j [c] = wr y j c"
  by (cases "wr y j c") simp_all

lemma take_splice: "i + length vs \<le> length xs \<Longrightarrow> take (i + length vs) (splice xs i vs) = take i xs @ vs"
  by (simp add: splice_def)

lemma take_splice_less: "j \<le> i \<Longrightarrow> i \<le> length xs \<Longrightarrow> take j (splice xs i vs) = take j xs"
  by (simp add: splice_def)

lemma drop_splice_front: "n = length vs \<Longrightarrow> drop n (splice xs 0 vs) = drop n xs"
  by (simp add: splice_def)

lemma nth_splice_front: "i < length vs \<Longrightarrow> splice xs 0 vs ! i = vs ! i"
  by (simp add: splice_def nth_append)

lemma drop_split:
  assumes "i \<le> j" and "j \<le> length xs"
  shows "drop i xs = drop i (take j xs) @ drop j xs"
proof -
  have "drop i (take j xs @ drop j xs) = drop i (take j xs) @ drop j xs"
    using assms by (simp del: append_take_drop_id)
  then show ?thesis by simp
qed

lemma u16_of_nat:
  assumes "k < 65536"
  shows "uint (of_nat k :: u16) = int k" and "unat (of_nat k :: u16) = k"
  using assms by (simp_all add: unsigned_of_nat take_bit_eq_mod)

section \<open>The C heap\<close>

record heap =
  live :: "(nat \<times> nat) list"
  next_id :: nat
  limit :: nat

definition heap_used :: "heap \<Rightarrow> nat" where
  "heap_used h = sum_list (map snd (live h))"

definition live_ids :: "heap \<Rightarrow> nat set" where
  "live_ids h = fst ` set (live h)"

definition c_malloc :: "heap \<Rightarrow> nat \<Rightarrow> nat option \<times> heap" where
  "c_malloc h n =
     (if heap_used h + n \<le> limit h
      then (Some (next_id h), h\<lparr>live := (next_id h, n) # live h, next_id := Suc (next_id h)\<rparr>)
      else (None, h))"

definition c_free :: "heap \<Rightarrow> nat \<Rightarrow> heap ub" where
  "c_free h b =
     (if b \<in> live_ids h then Some (h\<lparr>live := filter (\<lambda>e. fst e \<noteq> b) (live h)\<rparr>) else None)"

text \<open>\<open>realloc\<close> moves the block; a failed call keeps the old one. The bytes it keeps are modelled
  by the caller, which owns the contents.\<close>

definition c_realloc :: "heap \<Rightarrow> nat option \<Rightarrow> nat \<Rightarrow> (nat option \<times> heap) ub" where
  "c_realloc h old n =
     (case old of
        None \<Rightarrow> Some (c_malloc h n)
      | Some b \<Rightarrow>
          (case c_free h b of
             None \<Rightarrow> None
           | Some h' \<Rightarrow>
               (case c_malloc h' n of
                  (None, _) \<Rightarrow> Some (None, h)
                | (Some b', h'') \<Rightarrow> Some (Some b', h''))))"

definition heap_inv :: "heap \<Rightarrow> bool" where
  "heap_inv h \<longleftrightarrow> list_all (\<lambda>e. fst e < next_id h) (live h) \<and> distinct (map fst (live h))
     \<and> heap_used h \<le> limit h \<and> limit h < 2 ^ 60"

lemma live_ids_malloc:
  "c_malloc h n = (Some b, h') \<Longrightarrow> live_ids h' = insert b (live_ids h)"
  by (auto simp: c_malloc_def live_ids_def split: if_splits)

lemma live_ids_malloc_None: "c_malloc h n = (None, h') \<Longrightarrow> h' = h"
  by (auto simp: c_malloc_def split: if_splits)

lemma malloc_fresh: "heap_inv h \<Longrightarrow> c_malloc h n = (Some b, h') \<Longrightarrow> b \<notin> live_ids h"
  by (fastforce simp: c_malloc_def heap_inv_def live_ids_def list_all_iff split: if_splits)

lemma live_ids_free: "c_free h b = Some h' \<Longrightarrow> live_ids h' = live_ids h - {b}"
  by (auto simp: c_free_def live_ids_def split: if_splits)

lemma limit_malloc: "c_malloc h n = (r, h') \<Longrightarrow> limit h' = limit h"
  by (auto simp: c_malloc_def split: if_splits)

lemma heap_inv_malloc [jk_inv]: "heap_inv h \<Longrightarrow> c_malloc h n = (r, h') \<Longrightarrow> heap_inv h'"
  by (fastforce simp: c_malloc_def heap_inv_def heap_used_def list_all_iff split: if_splits)

lemma sum_list_filter_le_nat: "sum_list (map f (filter P xs)) \<le> sum_list (map (f :: 'a \<Rightarrow> nat) xs)"
  by (induction xs) auto

lemma heap_inv_free [jk_inv]: "heap_inv h \<Longrightarrow> c_free h b = Some h' \<Longrightarrow> heap_inv h'"
  using sum_list_filter_le_nat [of snd "\<lambda>e. fst e \<noteq> b" "live h"]
  by (fastforce simp: c_free_def heap_inv_def heap_used_def distinct_map list_all_iff
      intro: inj_on_subset split: if_splits)

lemma free_live: "b \<in> live_ids h \<Longrightarrow> \<exists>h'. c_free h b = Some h'"
  by (simp add: c_free_def)

lemma malloc_SomeD:
  assumes "heap_inv h" and "c_malloc h n = (Some b, h')"
  shows "b = next_id h" and "n \<le> limit h" and "(b, n) \<in> set (live h')"
  using assms by (auto simp: c_malloc_def split: if_splits)

lemma malloc_keeps: "c_malloc h n = (r, h') \<Longrightarrow> set (live h) \<subseteq> set (live h')"
  by (auto simp: c_malloc_def split: if_splits)

lemma free_keeps: "c_free h b = Some h' \<Longrightarrow> e \<in> set (live h) \<Longrightarrow> fst e \<noteq> b \<Longrightarrow> e \<in> set (live h')"
  by (auto simp: c_free_def split: if_splits)

lemma realloc_ok:
  assumes inv: "heap_inv h" and old: "set_option old \<subseteq> live_ids h"
  shows "\<exists>r h'. c_realloc h old n = Some (r, h') \<and> heap_inv h' \<and> limit h' = limit h
     \<and> (r = None \<longrightarrow> h' = h)
     \<and> (\<forall>b. r = Some b \<longrightarrow> b \<notin> live_ids h \<and> n \<le> limit h
          \<and> live_ids h' = insert b (live_ids h - set_option old))
     \<and> (\<forall>e \<in> set (live h). fst e \<notin> set_option old \<longrightarrow> e \<in> set (live h'))"
proof (cases old)
  case None
  obtain r h' where m: "c_malloc h n = (r, h')" by fastforce
  show ?thesis
    using inv m None
    by (intro exI [of _ r] exI [of _ h'])
      (auto simp: c_realloc_def intro: heap_inv_malloc dest: limit_malloc live_ids_malloc
        live_ids_malloc_None malloc_fresh malloc_SomeD malloc_keeps)
next
  case (Some ob)
  then obtain h0 where f: "c_free h ob = Some h0" using old free_live by fastforce
  obtain r h1 where m: "c_malloc h0 n = (r, h1)" by fastforce
  from f have same: "next_id h0 = next_id h" "limit h0 = limit h"
    by (auto simp: c_free_def split: if_splits)
  have fresh: "next_id h \<notin> live_ids h"
    using inv by (fastforce simp: heap_inv_def live_ids_def list_all_iff)
  have inv0: "heap_inv h0" using inv f by (rule heap_inv_free)
  show ?thesis
  proof (cases r)
    case None
    then show ?thesis using Some f m inv by (intro exI [of _ None] exI [of _ h]) (auto simp: c_realloc_def)
  next
    case (Some b)
    then show ?thesis
      using \<open>old = Some ob\<close> f m inv0 same fresh limit_malloc [OF m]
        live_ids_malloc [of h0 n b h1] malloc_SomeD [of h0 n b h1] live_ids_free [OF f]
        malloc_keeps [OF m] free_keeps [OF f]
      by (intro exI [of _ "Some b"] exI [of _ h1]) (auto simp: c_realloc_def intro: heap_inv_malloc)
  qed
qed

lemma unat_u64_bound: "unat (w :: u64) < 2 ^ 64"
  by (rule order.strict_trans2 [OF unsigned_less]) simp

lemma unat_minus_1: "unat (- 1 :: u64) = 2 ^ 64 - 1"
  by (simp add: unsigned_minus_1_eq_mask mask_eq_exp_minus_1)

lemma unat_u64_of_nat: "n < 2 ^ 64 \<Longrightarrow> unat (of_nat n :: u64) = n"
  by (simp add: unsigned_of_nat take_bit_eq_mod)

lemma unat_u32_bound: "unat (w :: u32) < 2 ^ 32"
  by (rule order.strict_trans2 [OF unsigned_less]) simp

lemma unat_u32_of_nat: "n < 2 ^ 32 \<Longrightarrow> unat (of_nat n :: u32) = n"
  by (simp add: unsigned_of_nat take_bit_eq_mod)

lemma sint_small:
  assumes "unat (w :: u32) < 2 ^ 31"
  shows "sint w = int (unat w)"
proof -
  have "int (unat w) < int (2 ^ 31)" using assms by (simp only: of_nat_less_iff)
  then have "uint w < 2 ^ 31" by simp
  moreover have "- (2 ^ 31) \<le> uint w" by (rule order.trans [OF _ uint_ge_0]) simp
  ultimately have "signed_take_bit 31 (uint w) = uint w" by (intro signed_take_bit_int_eq_self)
  then show ?thesis by (simp add: sint_uint)
qed

section \<open>Characters and strings of the C library\<close>

abbreviation NUL :: char where
  "NUL \<equiv> CHR 0x00"

definition is_cstr :: "string \<Rightarrow> bool" where
  "is_cstr s \<longleftrightarrow> NUL \<notin> set s"

text \<open>The byte of a string object at an index: its characters, then the terminator; an access
  behind the terminator is undefined.\<close>

definition cat :: "string \<Rightarrow> nat \<Rightarrow> char ub" where
  "cat s i = (if i < length s then Some (s ! i) else if i = length s then Some NUL else None)"

definition code :: "char \<Rightarrow> nat" where
  "code c = of_char c"

definition isdigit :: "char \<Rightarrow> bool" where
  "isdigit c \<longleftrightarrow> 48 \<le> code c \<and> code c \<le> 57"

definition isupper :: "char \<Rightarrow> bool" where
  "isupper c \<longleftrightarrow> 65 \<le> code c \<and> code c \<le> 90"

definition islower :: "char \<Rightarrow> bool" where
  "islower c \<longleftrightarrow> 97 \<le> code c \<and> code c \<le> 122"

definition jk_isalnum :: "char \<Rightarrow> bool" where
  "jk_isalnum c \<longleftrightarrow> isdigit c \<or> isupper c \<or> islower c"

definition jk_isspace :: "char \<Rightarrow> bool" where
  "jk_isspace c \<longleftrightarrow> code c = 32 \<or> 9 \<le> code c \<and> code c \<le> 13"

definition jk_isxdigit :: "char \<Rightarrow> bool" where
  "jk_isxdigit c \<longleftrightarrow> isdigit c \<or> 65 \<le> code c \<and> code c \<le> 70 \<or> 97 \<le> code c \<and> code c \<le> 102"

definition tolower :: "char \<Rightarrow> char" where
  "tolower c = (if isupper c then char_of (code c + 32) else c)"

lemma code_less_256 [simp]: "code c < 256"
  by (simp add: code_def)

lemma code_char_of [simp]: "code (char_of n) = n mod 256"
  by (simp add: code_def)

lemma char_of_code [simp]: "char_of (code c) = c"
  by (simp add: code_def)

lemma code_inject [simp]: "(code c = code d) = (c = d)"
  by (simp add: code_def)

lemma code_NUL [simp]: "code NUL = 0"
  by (simp add: code_def)

lemma code_zero [simp]: "(code c = 0) = (c = NUL)"
  using code_inject [of c NUL] by (simp del: code_inject)

text \<open>The string that a buffer holds up to its first terminator.\<close>

definition cstring_of :: "string \<Rightarrow> string" where
  "cstring_of y = takeWhile (\<lambda>c. c \<noteq> NUL) y"

lemma cstring_of_prefix: "is_cstr s \<Longrightarrow> cstring_of (s @ NUL # t) = s"
  by (simp add: cstring_of_def is_cstr_def takeWhile_tail) (metis takeWhile_eq_all_conv takeWhile_tail)

lemma cstring_of_take:
  assumes "is_cstr s" and "take (length s + 1) y = s @ [NUL]"
  shows "cstring_of y = s"
proof -
  have "y = (s @ [NUL]) @ drop (length s + 1) y" using assms(2) append_take_drop_id by metis
  then show ?thesis using cstring_of_prefix [OF assms(1), of "drop (length s + 1) y"] by simp
qed

text \<open>\<open>strstr\<close> as the index of the first occurrence.\<close>

fun starts_with :: "string \<Rightarrow> string \<Rightarrow> bool" where
  "starts_with s [] = True"
| "starts_with [] (n # ns) = False"
| "starts_with (c # s) (n # ns) = (c = n \<and> starts_with s ns)"

fun c_strstr :: "string \<Rightarrow> string \<Rightarrow> nat option" where
  "c_strstr [] needle = (if needle = [] then Some 0 else None)"
| "c_strstr (c # s) needle =
     (if starts_with (c # s) needle then Some 0 else map_option Suc (c_strstr s needle))"

lemma starts_with_iff: "starts_with s n = (take (length n) s = n)"
  by (induction s n rule: starts_with.induct) auto

lemma c_strstr_None: "c_strstr s n = None \<longleftrightarrow> (\<forall>i \<le> length s. \<not> starts_with (drop i s) n)"
proof (induction s)
  case Nil
  then show ?case by (cases n) auto
next
  case (Cons c s)
  have "(\<forall>i \<le> Suc m. P i) \<longleftrightarrow> P 0 \<and> (\<forall>i \<le> m. P (Suc i))" for P m
    by (metis Suc_le_mono le0 not0_implies_Suc)
  with Cons show ?case by auto
qed

lemma c_strstr_Some: "c_strstr s n = Some k \<Longrightarrow> k \<le> length s \<and> starts_with (drop k s) n
   \<and> (\<forall>i < k. \<not> starts_with (drop i s) n)"
proof (induction s arbitrary: k)
  case Nil
  then show ?case by (cases n) (auto split: if_splits)
next
  case (Cons c s)
  show ?case
  proof (cases "starts_with (c # s) n")
    case False
    then obtain j where j: "c_strstr s n = Some j" "k = Suc j" using Cons.prems by auto
    have "\<not> starts_with (drop i (c # s)) n" if "i < k" for i
      using that j Cons.IH [OF j(1)] False by (cases i) auto
    with j Cons.IH [OF j(1)] show ?thesis by auto
  qed (use Cons.prems in auto)
qed

end
