(* ===== verification/Jk_Pool.thy ===== *)
theory Jk_Pool
  imports Jk_Prelude
begin

text \<open>
  The memory pool (\<open>jk_pool.c\<close>, \<open>jk_pool.h\<close>): a static buffer handed out from the front and, once
  it is full, one \<open>malloc\<close> block per request, recorded in the growing array \<open>dynamic\<close>.
\<close>

definition JK_ALIGN :: "u64 \<Rightarrow> u64 \<Rightarrow> u64" where
  "JK_ALIGN sz boundary = (sz + (boundary - 1)) AND NOT (boundary - 1)"

definition JK_ALIGN_DEFAULT :: "u64 \<Rightarrow> u64" where
  "JK_ALIGN_DEFAULT sz = JK_ALIGN sz 8"

definition DEFAULT_DYNAMIC :: u64 where
  "DEFAULT_DYNAMIC = 10"

text \<open>The array \<open>dynamic\<close> is a heap block and its entries; the entries behind \<open>dyn_pos\<close> are
  uninitialised and never read.\<close>

record jk_pool =
  pool_size :: u64
  pool_pos :: u64
  dyn_size :: u64
  dyn_pos :: u64
  dynamic :: "(nat \<times> nat option list) option"

datatype jk_ptr = Static u64 | Dyn nat

type_synonym mem = "jk_pool \<times> heap"

definition jk_open_pool :: "u64 \<Rightarrow> jk_pool" where
  "jk_open_pool sz =
     \<lparr>pool_size = sz, pool_pos = 0, dyn_size = 0, dyn_pos = 0, dynamic = None\<rparr>"

text \<open>The \<open>for\<close> loop of \<open>jk_reset_pool\<close> over the first \<open>dyn_pos\<close> entries.\<close>

fun free_entries :: "heap \<Rightarrow> nat option list \<Rightarrow> heap ub" where
  "free_entries h [] = Some h"
| "free_entries h (None # es) = free_entries h es"
| "free_entries h (Some b # es) = do { h' \<leftarrow> c_free h b; free_entries h' es }"

definition jk_reset_pool :: "mem \<Rightarrow> mem ub" where
  "jk_reset_pool m =
     (case m of (p, h) \<Rightarrow>
        do {
          h' \<leftarrow> (case dynamic p of
                   Some (_, es) \<Rightarrow>
                     if dyn_pos p \<noteq> 0
                     then do { guard (unat (dyn_pos p) \<le> length es);
                               free_entries h (take (unat (dyn_pos p)) es) }
                     else Some h
                 | None \<Rightarrow> Some h);
          Some (p\<lparr>dyn_pos := 0, pool_pos := 0\<rparr>, h')
        })"

definition jk_close_pool :: "mem \<Rightarrow> mem ub" where
  "jk_close_pool m =
     do {
       (p, h) \<leftarrow> jk_reset_pool m;
       (case dynamic p of
          None \<Rightarrow> Some (p, h)
        | Some (b, _) \<Rightarrow> do { h' \<leftarrow> c_free h b; Some (p, h') })
     }"

text \<open>The growth of the array \<open>dynamic\<close> inside \<open>jk_pool_alloc\<close>; \<open>sizeof(void *)\<close> is 8.\<close>

definition jk_pool_grow :: "mem \<Rightarrow> (bool \<times> mem) ub" where
  "jk_pool_grow m =
     (case m of (p, h) \<Rightarrow>
        if dyn_size p = dyn_pos p then
          let new_dyn_size = dyn_size p * 2 + DEFAULT_DYNAMIC;
              old = (case dynamic p of None \<Rightarrow> [] | Some (_, es) \<Rightarrow> es)
          in do {
               (r, h') \<leftarrow> c_realloc h (map_option fst (dynamic p)) (unat (new_dyn_size * 8));
               (case r of
                  None \<Rightarrow> Some (False, (p, h'))
                | Some b \<Rightarrow>
                    Some (True,
                      (p\<lparr>dynamic := Some (b, old @ replicate (unat new_dyn_size - length old) None),
                         dyn_size := new_dyn_size\<rparr>, h')))
             }
        else Some (True, m))"

definition jk_pool_alloc :: "mem \<Rightarrow> u64 \<Rightarrow> (jk_ptr option \<times> mem) ub" where
  "jk_pool_alloc m sz0 =
     (if sz0 = 0 then Some (None, m)
      else
        let sz = JK_ALIGN_DEFAULT sz0; p = fst m; h = snd m in
        if sz \<le> pool_size p - pool_pos p then
          Some (Some (Static (pool_pos p)), (p\<lparr>pool_pos := pool_pos p + sz\<rparr>, h))
        else do {
          (ok, (p, h)) \<leftarrow> jk_pool_grow m;
          if \<not> ok then Some (None, (p, h))
          else
            (case dynamic p of
               None \<Rightarrow> None
             | Some (b, es) \<Rightarrow>
                 (case c_malloc h (unat sz) of
                    (r, h') \<Rightarrow>
                      do {
                        es' \<leftarrow> wr es (unat (dyn_pos p)) r;
                        Some (map_option Dyn r,
                          (p\<lparr>dynamic := Some (b, es'),
                             dyn_pos := (if r = None then dyn_pos p else dyn_pos p + 1)\<rparr>, h'))
                      }))
        })"

text \<open>\<open>jk_pool_calloc\<close> and \<open>jk_pool_realloc\<close> at the level of the object they return: an array of
  elements of \<open>esz\<close> bytes whose all-zero value is \<open>z\<close>. Both sizes are byte counts.\<close>

definition jk_pool_calloc :: "'a \<Rightarrow> u64 \<Rightarrow> mem \<Rightarrow> u64 \<Rightarrow> ('a list option \<times> mem) ub" where
  "jk_pool_calloc z esz m sz =
     do {
       (rc, m') \<leftarrow> jk_pool_alloc m sz;
       Some (map_option (\<lambda>_. replicate (unat sz div unat esz) z) rc, m')
     }"

definition jk_pool_realloc ::
    "'a \<Rightarrow> u64 \<Rightarrow> mem \<Rightarrow> u64 \<Rightarrow> 'a list option \<Rightarrow> u64 \<Rightarrow> ('a list option \<times> mem) ub" where
  "jk_pool_realloc z esz m sz old old_sz =
     (if sz < old_sz then Some (None, m)
      else
        (case old of
           None \<Rightarrow> jk_pool_calloc z esz m sz
         | Some xs \<Rightarrow>
             do {
               (rc, m') \<leftarrow> jk_pool_alloc m sz;
               (case rc of
                  None \<Rightarrow> Some (None, m')
                | Some _ \<Rightarrow>
                    do {
                      guard (unat old_sz \<le> length xs * unat esz);
                      Some (Some (take (unat old_sz div unat esz) xs
                              @ replicate ((unat sz - unat old_sz) div unat esz) z), m')
                    })
             }))"

text \<open>The string functions return the string their result points to.\<close>

definition jk_pool_strdup :: "mem \<Rightarrow> string option \<Rightarrow> (string option \<times> mem) ub" where
  "jk_pool_strdup m s =
     (case s of
        None \<Rightarrow> Some (None, m)
      | Some t \<Rightarrow>
          if t = [] then Some (Some [], m)
          else do {
            (rc, m') \<leftarrow> jk_pool_alloc m (of_nat (length t + 1));
            Some (map_option (\<lambda>_. t) rc, m')
          })"

definition jk_pool_strcat :: "mem \<Rightarrow> string option \<Rightarrow> string option \<Rightarrow> (string option \<times> mem) ub" where
  "jk_pool_strcat m s a =
     (case (s, a) of
        (Some s', Some a') \<Rightarrow>
          if length s' + length a' = 0 then Some (Some [], m)
          else do {
            (rc, m') \<leftarrow> jk_pool_alloc m (of_nat (length s' + length a' + 1));
            Some (map_option (\<lambda>_. s' @ a') rc, m')
          }
      | _ \<Rightarrow> Some (None, m))"

definition jk_pool_strcatv :: "mem \<Rightarrow> string list \<Rightarrow> (string option \<times> mem) ub" where
  "jk_pool_strcatv m ss =
     (if sum_list (map length ss) = 0 then Some (Some [], m)
      else do {
        (rc, m') \<leftarrow> jk_pool_alloc m (of_nat (sum_list (map length ss) + 1));
        Some (map_option (\<lambda>_. concat ss) rc, m')
      })"

section \<open>The pool invariant\<close>

definition entry_ids :: "jk_pool \<Rightarrow> nat option list" where
  "entry_ids p = (case dynamic p of None \<Rightarrow> [] | Some (_, es) \<Rightarrow> take (unat (dyn_pos p)) es)"

definition owned :: "jk_pool \<Rightarrow> nat set" where
  "owned p = (case dynamic p of None \<Rightarrow> {} | Some (b, _) \<Rightarrow> insert b (the ` set (entry_ids p)))"

definition pool_inv :: "mem \<Rightarrow> bool" where
  "pool_inv m \<longleftrightarrow>
     (case m of (p, h) \<Rightarrow>
        heap_inv h \<and> pool_pos p \<le> pool_size p \<and> dyn_pos p \<le> dyn_size p
        \<and> (case dynamic p of
             None \<Rightarrow> dyn_size p = 0
           | Some (b, es) \<Rightarrow>
               length es = unat (dyn_size p) \<and> 8 * unat (dyn_size p) \<le> limit h
               \<and> None \<notin> set (entry_ids p) \<and> distinct (Some b # entry_ids p))
        \<and> owned p \<subseteq> live_ids h)"


lemmas pool_inv_unfold = pool_inv_def owned_def entry_ids_def

section \<open>Alignment\<close>

lemma and_not_7: "(w :: u64) AND NOT 7 = push_bit 3 (drop_bit 3 w)"
proof -
  have "(7 :: u64) = mask 3" by (simp add: mask_eq_exp_minus_1)
  then show ?thesis
    by (simp add: bit_eq_iff bit_simps) (auto simp: bit_simps)
qed

lemma unat_align: "unat (JK_ALIGN_DEFAULT sz) = unat (sz + 7) div 8 * 8"
proof -
  have "unat (push_bit 3 (drop_bit 3 (sz + 7))) = unat (sz + 7) div 8 * 8 mod 2 ^ 64"
    by (simp add: push_bit_eq_mult drop_bit_eq_div unat_word_ariths unat_div)
  moreover have "unat (sz + 7) div 8 * 8 < 2 ^ 64"
    using unat_u64_bound [of "sz + 7"] by simp
  moreover have "JK_ALIGN_DEFAULT sz = push_bit 3 (drop_bit 3 (sz + 7))"
    using and_not_7 [of "sz + 7"] by (simp add: JK_ALIGN_DEFAULT_def JK_ALIGN_def)
  ultimately show ?thesis by simp
qed

lemma align_ge:
  assumes "unat sz \<le> 2 ^ 64 - 8"
  shows "unat sz \<le> unat (JK_ALIGN_DEFAULT sz)"
proof -
  have "unat (sz + 7) = unat sz + 7"
    using assms by (simp add: unat_word_ariths)
  then show ?thesis by (simp add: unat_align)
qed

section \<open>Allocation keeps the invariant and never faults\<close>

lemma grow_size:
  assumes "8 * unat n < 2 ^ 60"
  shows "unat ((n :: u64) * 2 + DEFAULT_DYNAMIC) = unat n * 2 + 10"
    and "unat ((n * 2 + DEFAULT_DYNAMIC) * 8) = (unat n * 2 + 10) * 8"
  using assms by (simp_all add: DEFAULT_DYNAMIC_def unat_word_ariths)



lemma entry_ids_None [simp]: "dynamic p = None \<Longrightarrow> entry_ids p = []"
  by (simp add: entry_ids_def)

lemma notin_the_image: "None \<notin> set xs \<Longrightarrow> Some b \<notin> set xs \<Longrightarrow> b \<notin> the ` set xs"
  by (metis (no_types, lifting) image_iff option.collapse)

lemma jk_pool_grow_ok:
  assumes inv: "pool_inv (p, h)"
  obtains ok p' h' where "jk_pool_grow (p, h) = Some (ok, (p', h'))" "pool_inv (p', h')"
    "pool_pos p' = pool_pos p" "pool_size p' = pool_size p" "entry_ids p' = entry_ids p"
    "live_ids h - owned p \<subseteq> live_ids h' - owned p'"
    "ok \<Longrightarrow> dyn_pos p' < dyn_size p'"
    "\<forall>e \<in> set (live h). Some (fst e) \<in> set (entry_ids p) \<longrightarrow> e \<in> set (live h')"
proof (cases "dyn_size p = dyn_pos p")
  case False
  with inv have "dyn_pos p < dyn_size p" by (auto simp: pool_inv_def)
  then show ?thesis using False inv by (intro that [of True p h]) (auto simp: jk_pool_grow_def)
next
  case True
  let ?n = "dyn_size p * 2 + DEFAULT_DYNAMIC"
  let ?old = "case dynamic p of None \<Rightarrow> [] | Some (_, es) \<Rightarrow> es"
  have lim: "8 * unat (dyn_size p) < 2 ^ 60"
    using inv by (auto simp: pool_inv_def heap_inv_def split: option.splits)
  note sz = grow_size [OF lim]
  have hi: "heap_inv h" and own: "set_option (map_option fst (dynamic p)) \<subseteq> live_ids h"
    using inv by (auto simp: pool_inv_unfold split: option.splits)
  obtain r h' where r: "c_realloc h (map_option fst (dynamic p)) (unat (?n * 8)) = Some (r, h')"
    "heap_inv h'" "limit h' = limit h" "r = None \<longrightarrow> h' = h"
    "\<forall>b. r = Some b \<longrightarrow> b \<notin> live_ids h \<and> unat (?n * 8) \<le> limit h
       \<and> live_ids h' = insert b (live_ids h - set_option (map_option fst (dynamic p)))"
    "\<forall>e \<in> set (live h). fst e \<notin> set_option (map_option fst (dynamic p)) \<longrightarrow> e \<in> set (live h')"
    using realloc_ok [OF hi own, of "unat (?n * 8)"] by auto
  show ?thesis
  proof (cases r)
    case None
    then show ?thesis using True inv r
      by (intro that [of False p h]) (auto simp: jk_pool_grow_def Let_def)
  next
    case (Some b)
    let ?p = "p\<lparr>dynamic := Some (b, ?old @ replicate (unat ?n - length ?old) None), dyn_size := ?n\<rparr>"
    have len: "length ?old = unat (dyn_size p)" "length ?old = unat (dyn_pos p)"
      using inv True by (auto simp: pool_inv_def split: option.splits)
    have ent: "entry_ids ?p = entry_ids p"
      using len by (auto simp: entry_ids_def split: option.splits)
    have lt: "dyn_pos p < ?n" using True sz(1) by (simp add: word_less_nat_alt)
    have own': "owned ?p = insert b (owned p - set_option (map_option fst (dynamic p)))"
      using inv ent notin_the_image [of "entry_ids p"]
      by (auto simp: pool_inv_def owned_def split: option.splits)
    have ents: "None \<notin> set (entry_ids p)" "distinct (entry_ids p)"
        "the ` set (entry_ids p) \<subseteq> live_ids h" "owned p \<subseteq> live_ids h" "pool_pos p \<le> pool_size p"
      using inv by (auto simp: pool_inv_def owned_def split: option.splits)
    have new: "b \<notin> live_ids h" "8 * unat ?n \<le> limit h'"
        "live_ids h' = insert b (live_ids h - set_option (map_option fst (dynamic p)))"
      using r Some sz by (simp_all add: mult.commute)
    have "Some b \<notin> set (entry_ids p)" using new(1) ents(3) by force
    moreover have "owned ?p \<subseteq> live_ids h'" using own' new(3) ents(4) by auto
    moreover have "length (?old @ replicate (unat ?n - length ?old) None) = unat ?n"
      using len sz(1) by simp
    ultimately have "pool_inv (?p, h')"
      using r(2) ents new(2) lt ent by (simp add: pool_inv_def)
    moreover have "set_option (map_option fst (dynamic p)) \<subseteq> owned p"
      by (auto simp: owned_def split: option.splits)
    then have "live_ids h - owned p \<subseteq> live_ids h' - owned ?p"
      using new own' by auto
    moreover have "\<forall>e \<in> set (live h). Some (fst e) \<in> set (entry_ids p) \<longrightarrow> e \<in> set (live h')"
      using r(6) inv by (auto simp: pool_inv_def split: option.splits)
    ultimately show ?thesis using True r Some lt ent
      by (intro that [of True ?p h']) (auto simp: jk_pool_grow_def Let_def)
  qed
qed


section \<open>Regions\<close>

text \<open>The bytes an allocation hands out, the bytes the pool has handed out so far, and the bytes
  that exist: those of the static buffer and those of the live heap blocks.\<close>

datatype cell = SByte nat | DByte nat nat

fun cells :: "jk_ptr \<Rightarrow> u64 \<Rightarrow> cell set" where
  "cells (Static off) n = SByte ` {unat off ..< unat off + unat n}"
| "cells (Dyn b) n = DByte b ` {..<unat n}"

definition handed_out :: "mem \<Rightarrow> cell set" where
  "handed_out m = SByte ` {..<unat (pool_pos (fst m))}
     \<union> {DByte b i | b i. Some b \<in> set (entry_ids (fst m))}"

definition existing :: "mem \<Rightarrow> cell set" where
  "existing m = SByte ` {..<unat (pool_size (fst m))}
     \<union> {DByte b i | b i n. (b, n) \<in> set (live (snd m)) \<and> i < n}"

lemma cell_sets [simp]:
  "SByte i \<in> handed_out m = (i < unat (pool_pos (fst m)))"
  "DByte b i \<in> handed_out m = (Some b \<in> set (entry_ids (fst m)))"
  "SByte i \<in> existing m = (i < unat (pool_size (fst m)))"
  "DByte b i \<in> existing m = (\<exists>n. (b, n) \<in> set (live (snd m)) \<and> i < n)"
  by (auto simp: handed_out_def existing_def)

lemma cell_subsetI:
  "(\<And>i. SByte i \<in> A \<Longrightarrow> SByte i \<in> B) \<Longrightarrow> (\<And>b i. DByte b i \<in> A \<Longrightarrow> DByte b i \<in> B) \<Longrightarrow> A \<subseteq> B"
  by (metis cell.exhaust subsetI)

lemma alloc_static:
  assumes inv: "pool_inv (p, h)" and le: "sz \<le> pool_size p - pool_pos p"
  shows "unat (pool_pos p + sz) = unat (pool_pos p) + unat sz"
    and "unat (pool_pos p) + unat sz \<le> unat (pool_size p)"
proof -
  from inv have pos: "pool_pos p \<le> pool_size p" by (simp add: pool_inv_def)
  then have "unat (pool_size p - pool_pos p) = unat (pool_size p) - unat (pool_pos p)"
    by (simp add: unat_sub)
  with le pos show le': "unat (pool_pos p) + unat sz \<le> unat (pool_size p)"
    by (simp add: word_le_nat_alt)
  show "unat (pool_pos p + sz) = unat (pool_pos p) + unat sz"
    using le' unat_u64_bound [of "pool_size p"] by (simp add: unat_word_ariths)
qed

lemma pool_inv_advance:
  assumes "pool_inv (p, h)" and "sz \<le> pool_size p - pool_pos p"
  shows "pool_inv (p\<lparr>pool_pos := pool_pos p + sz\<rparr>, h)"
  using assms alloc_static [OF assms]
  by (auto simp: pool_inv_unfold word_le_nat_alt split: option.splits)

text \<open>Recording a block at \<open>dyn_pos\<close>.\<close>

lemma pool_inv_record:
  assumes inv: "pool_inv (p, h)" and d: "dynamic p = Some (b, es)" and lt: "dyn_pos p < dyn_size p"
    and m: "c_malloc h n = (Some nb, h')"
    and p': "p' = p\<lparr>dynamic := Some (b, es[unat (dyn_pos p) := Some nb]), dyn_pos := dyn_pos p + 1\<rparr>"
  shows "pool_inv (p', h')" and "entry_ids p' = entry_ids p @ [Some nb]"
proof -
  have hi: "heap_inv h" using inv by (simp add: pool_inv_def)
  have len: "unat (dyn_pos p) < length es"
    using inv d lt by (simp add: pool_inv_def word_less_nat_alt)
  have suc: "unat (dyn_pos p + 1) = Suc (unat (dyn_pos p))"
    using lt unat_u64_bound [of "dyn_size p"] by (simp add: word_less_nat_alt unat_word_ariths)
  show ent: "entry_ids p' = entry_ids p @ [Some nb]"
    using d len suc p' by (simp add: entry_ids_def take_Suc_conv_app_nth)
  have fresh: "nb \<notin> live_ids h" using hi m by (rule malloc_fresh)
  then have nb: "nb \<noteq> b" "Some nb \<notin> set (entry_ids p)"
    using inv d by (force simp: pool_inv_def owned_def)+
  have "owned p' = insert nb (owned p)" using d ent p' by (simp add: owned_def insert_commute)
  then show "pool_inv (p', h')"
    using inv d p' lt suc ent nb len m hi live_ids_malloc [OF m] limit_malloc [OF m]
    by (auto simp: pool_inv_def word_le_nat_alt word_less_nat_alt intro: heap_inv_malloc)
qed

lemma pool_inv_failed:
  assumes "pool_inv (p, h)" and "dynamic p = Some (b, es)" and "dyn_pos p < dyn_size p"
  shows "pool_inv (p\<lparr>dynamic := Some (b, es[unat (dyn_pos p) := None])\<rparr>, h)"
    and "entry_ids (p\<lparr>dynamic := Some (b, es[unat (dyn_pos p) := None])\<rparr>) = entry_ids p"
  using assms by (auto simp: pool_inv_def owned_def entry_ids_def)


lemma jk_pool_alloc_cases:
  assumes inv: "pool_inv (p, h)"
  obtains (zero) "n = 0" "jk_pool_alloc (p, h) n = Some (None, (p, h))"
  | (static) "n \<noteq> 0" "JK_ALIGN_DEFAULT n \<le> pool_size p - pool_pos p"
      "jk_pool_alloc (p, h) n = Some (Some (Static (pool_pos p)),
         (p\<lparr>pool_pos := pool_pos p + JK_ALIGN_DEFAULT n\<rparr>, h))"
  | (null) p' h' where "jk_pool_alloc (p, h) n = Some (None, (p', h'))" "pool_inv (p', h')"
      "entry_ids p' = entry_ids p" "pool_pos p' = pool_pos p" "pool_size p' = pool_size p"
      "live_ids h - owned p \<subseteq> live_ids h' - owned p'"
      "\<forall>e \<in> set (live h). Some (fst e) \<in> set (entry_ids p) \<longrightarrow> e \<in> set (live h')"
  | (dynamic) nb p' h' h1 where "jk_pool_alloc (p, h) n = Some (Some (Dyn nb), (p', h'))"
      "pool_inv (p', h')" "entry_ids p' = entry_ids p @ [Some nb]"
      "pool_pos p' = pool_pos p" "pool_size p' = pool_size p"
      "c_malloc h1 (unat (JK_ALIGN_DEFAULT n)) = (Some nb, h')"
      "live_ids h - owned p \<subseteq> live_ids h' - owned p'"
      "\<forall>e \<in> set (live h). Some (fst e) \<in> set (entry_ids p) \<longrightarrow> e \<in> set (live h')"
proof -
  let ?sz = "JK_ALIGN_DEFAULT n"
  consider "n = 0" | "n \<noteq> 0" "?sz \<le> pool_size p - pool_pos p"
    | "n \<noteq> 0" "\<not> ?sz \<le> pool_size p - pool_pos p" by blast
  then show thesis
  proof cases
    case 1
    then show ?thesis by (intro zero) (simp_all add: jk_pool_alloc_def)
  next
    case 2
    then show ?thesis by (intro static) (simp_all add: jk_pool_alloc_def Let_def)
  next
    case 3
    obtain ok p1 h1 where g: "jk_pool_grow (p, h) = Some (ok, (p1, h1))" "pool_inv (p1, h1)"
      "pool_pos p1 = pool_pos p" "pool_size p1 = pool_size p" "entry_ids p1 = entry_ids p"
      "live_ids h - owned p \<subseteq> live_ids h1 - owned p1" "ok \<Longrightarrow> dyn_pos p1 < dyn_size p1"
      "\<forall>e \<in> set (live h). Some (fst e) \<in> set (entry_ids p) \<longrightarrow> e \<in> set (live h1)"
      using jk_pool_grow_ok [OF inv] by metis
    show ?thesis
    proof (cases ok)
      case False
      then show ?thesis using 3 g by (intro null [of p1 h1]) (simp_all add: jk_pool_alloc_def Let_def)
    next
      case True
      then have lt: "dyn_pos p1 < dyn_size p1" by (rule g(7))
      then obtain b es where d: "dynamic p1 = Some (b, es)"
        using g(2) by (auto simp: pool_inv_def split: option.splits)
      then have len: "unat (dyn_pos p1) < length es"
        using g(2) lt by (simp add: pool_inv_def word_less_nat_alt)
      obtain r h' where m: "c_malloc h1 (unat ?sz) = (r, h')" by fastforce
      show ?thesis
      proof (cases r)
        case None
        with m have "h' = h1" by (simp add: live_ids_malloc_None)
        with None show ?thesis
          using 3 g d len m True pool_inv_failed [OF g(2) d lt]
          by (intro null [of "p1\<lparr>dynamic := Some (b, es[unat (dyn_pos p1) := None])\<rparr>" h'])
            (simp_all add: jk_pool_alloc_def Let_def owned_def)
      next
        case (Some nb)
        let ?p = "p1\<lparr>dynamic := Some (b, es[unat (dyn_pos p1) := Some nb]), dyn_pos := dyn_pos p1 + 1\<rparr>"
        note rec = pool_inv_record [OF g(2) d lt m [unfolded Some] refl]
        have "nb \<notin> live_ids h1" using g(2) m Some by (auto simp: pool_inv_def dest: malloc_fresh)
        moreover have "owned ?p = insert nb (owned p1)"
          using rec(2) d by (simp add: owned_def insert_commute)
        ultimately have "live_ids h - owned p \<subseteq> live_ids h' - owned ?p"
          using g(6) live_ids_malloc [OF m [unfolded Some]] by auto
        moreover have "\<forall>e \<in> set (live h). Some (fst e) \<in> set (entry_ids p) \<longrightarrow> e \<in> set (live h')"
          using g(8) malloc_keeps [OF m] by blast
        ultimately show ?thesis
          using 3 g d len m True Some rec
          by (intro dynamic [of nb ?p h' h1]) (simp_all add: jk_pool_alloc_def Let_def)
      qed
    qed
  qed
qed


lemma jk_pool_alloc_ok: "pool_inv m \<Longrightarrow> \<exists>r m'. jk_pool_alloc m n = Some (r, m') \<and> pool_inv m'"
proof (cases m)
  case (Pair p h)
  assume "pool_inv m"
  with Pair have inv: "pool_inv (p, h)" by simp
  then show ?thesis unfolding Pair
    by (rule jk_pool_alloc_cases [where n = n]) (use inv pool_inv_advance in simp_all)
qed

lemma pool_inv_alloc [jk_inv]:
  "pool_inv m \<Longrightarrow> jk_pool_alloc m n = Some (r, m') \<Longrightarrow> pool_inv m'"
  using jk_pool_alloc_ok [of m n] by auto

lemma alloc_handed_mono:
  assumes "pool_inv m" and "jk_pool_alloc m n = Some (r, m')"
  shows "handed_out m \<subseteq> handed_out m' \<and> handed_out m \<inter> existing m \<subseteq> existing m'"
proof (cases m)
  case (Pair p h)
  with assms have inv: "pool_inv (p, h)" and a: "jk_pool_alloc (p, h) n = Some (r, m')" by auto
  from inv show ?thesis
  proof (cases rule: jk_pool_alloc_cases [where n = n])
    case static
    then show ?thesis using a Pair alloc_static [OF inv static(2)]
      by (intro conjI cell_subsetI) (auto simp: entry_ids_def)
  next
    case (null p' h')
    then show ?thesis using a Pair by (intro conjI cell_subsetI) auto
  next
    case (dynamic nb p' h' h1)
    then show ?thesis using a Pair by (intro conjI cell_subsetI) auto
  qed (use a Pair in simp)
qed

lemma alloc_region:
  assumes "pool_inv m" and "jk_pool_alloc m n = Some (Some q, m')" and "unat n \<le> 2 ^ 64 - 8"
  shows "cells q n \<inter> handed_out m = {} \<and> cells q n \<subseteq> handed_out m' \<inter> existing m'"
proof (cases m)
  case (Pair p h)
  with assms have inv: "pool_inv (p, h)" and a: "jk_pool_alloc (p, h) n = Some (Some q, m')" by auto
  have big: "unat n \<le> unat (JK_ALIGN_DEFAULT n)" using assms(3) by (rule align_ge)
  from inv show ?thesis
  proof (cases rule: jk_pool_alloc_cases [where n = n])
    case static
    then show ?thesis using a Pair big alloc_static [OF inv static(2)] by auto
  next
    case (dynamic nb p' h' h1)
    have "distinct (entry_ids p')" using dynamic(2) by (auto simp: pool_inv_def split: option.splits)
    then have "Some nb \<notin> set (entry_ids p)" using dynamic(3) by simp
    moreover have "(nb, unat (JK_ALIGN_DEFAULT n)) \<in> set (live h')"
      using dynamic(6) by (auto simp: c_malloc_def split: if_splits)
    moreover have "q = Dyn nb" "m' = (p', h')" using a dynamic(1) by auto
    ultimately show ?thesis using Pair big dynamic(3)
      by (auto intro!: exI [of _ "unat (JK_ALIGN_DEFAULT n)"])
  qed (use a in auto)
qed


section \<open>The allocator interface\<close>

text \<open>What a client may rely on: no call faults, a returned region is fresh and exists, and
  everything handed out before stays handed out and stays in existence.\<close>

fun alloc_run :: "('m \<Rightarrow> u64 \<Rightarrow> (jk_ptr option \<times> 'm) ub) \<Rightarrow> 'm \<Rightarrow> u64 list \<Rightarrow> (jk_ptr option list \<times> 'm) ub" where
  "alloc_run alloc m [] = Some ([], m)"
| "alloc_run alloc m (n # ns) =
     do { (r, m') \<leftarrow> alloc m n; (rs, m'') \<leftarrow> alloc_run alloc m' ns; Some (r # rs, m'') }"

locale region_allocator =
  fixes alloc :: "'m \<Rightarrow> u64 \<Rightarrow> (jk_ptr option \<times> 'm) ub"
    and inv :: "'m \<Rightarrow> bool"
    and handed :: "'m \<Rightarrow> cell set"
    and exist :: "'m \<Rightarrow> cell set"
  assumes alloc_ok: "inv m \<Longrightarrow> \<exists>r m'. alloc m n = Some (r, m') \<and> inv m'"
    and alloc_mono: "inv m \<Longrightarrow> alloc m n = Some (r, m') \<Longrightarrow>
          handed m \<subseteq> handed m' \<and> handed m \<inter> exist m \<subseteq> exist m'"
    and alloc_new: "inv m \<Longrightarrow> alloc m n = Some (Some q, m') \<Longrightarrow> unat n \<le> 2 ^ 64 - 8 \<Longrightarrow>
          cells q n \<inter> handed m = {} \<and> cells q n \<subseteq> handed m' \<inter> exist m'"
begin

lemma alloc_inv: "inv m \<Longrightarrow> alloc m n = Some (r, m') \<Longrightarrow> inv m'"
  using alloc_ok [of m n] by auto

lemma run_ok: "inv m \<Longrightarrow> \<exists>rs m'. alloc_run alloc m ns = Some (rs, m') \<and> inv m' \<and> length rs = length ns"
proof (induction ns arbitrary: m)
  case (Cons n ns)
  from alloc_ok [OF Cons.prems, of n] obtain r m1 where 1: "alloc m n = Some (r, m1)" "inv m1" by auto
  from Cons.IH [OF 1(2)] 1(1) show ?case by auto
qed simp

lemma run_mono:
  "inv m \<Longrightarrow> alloc_run alloc m ns = Some (rs, m') \<Longrightarrow>
   handed m \<subseteq> handed m' \<and> handed m \<inter> exist m \<subseteq> exist m'"
proof (induction ns arbitrary: m rs)
  case (Cons n ns)
  then obtain r m1 rs' where "alloc m n = Some (r, m1)" "alloc_run alloc m1 ns = Some (rs', m')"
    by (auto simp: ub_simps split: prod.splits)
  then show ?case
    using Cons.IH alloc_mono [OF Cons.prems(1)] alloc_inv [OF Cons.prems(1)] by blast
qed simp

lemma run_regions:
  assumes "inv m" and "alloc_run alloc m ns = Some (rs, m')" and "i < length ns" and "rs ! i = Some q"
    and "unat (ns ! i) \<le> 2 ^ 64 - 8"
  shows "cells q (ns ! i) \<inter> handed m = {} \<and> cells q (ns ! i) \<subseteq> handed m' \<inter> exist m'"
  using assms
proof (induction ns arbitrary: m rs i)
  case (Cons n ns)
  then obtain r m1 rs' where 1: "alloc m n = Some (r, m1)" "alloc_run alloc m1 ns = Some (rs', m')"
    "rs = r # rs'"
    by (auto simp: ub_simps split: prod.splits)
  note m1 = alloc_inv [OF Cons.prems(1) 1(1)] and mono = alloc_mono [OF Cons.prems(1) 1(1)]
  show ?case
  proof (cases i)
    case 0
    with Cons.prems 1 have "cells q n \<inter> handed m = {} \<and> cells q n \<subseteq> handed m1 \<inter> exist m1"
      using alloc_new [OF Cons.prems(1), of n q m1] by auto
    with run_mono [OF m1 1(2)] 0 show ?thesis by auto
  next
    case (Suc j)
    with Cons.prems 1 Cons.IH [OF m1 1(2), of j] mono show ?thesis by auto
  qed
qed simp

lemma run_disjoint:
  assumes "inv m" and "alloc_run alloc m ns = Some (rs, m')" and "i < j" and "j < length ns"
    and "rs ! i = Some q" and "rs ! j = Some q'"
    and "unat (ns ! i) \<le> 2 ^ 64 - 8" and "unat (ns ! j) \<le> 2 ^ 64 - 8"
  shows "cells q (ns ! i) \<inter> cells q' (ns ! j) = {}"
  using assms
proof (induction ns arbitrary: m rs i j)
  case (Cons n ns)
  then obtain r m1 rs' where 1: "alloc m n = Some (r, m1)" "alloc_run alloc m1 ns = Some (rs', m')"
    "rs = r # rs'"
    by (auto simp: ub_simps split: prod.splits)
  note m1 = alloc_inv [OF Cons.prems(1) 1(1)]
  obtain j' where j: "j = Suc j'" using Cons.prems by (cases j) auto
  show ?case
  proof (cases i)
    case 0
    with Cons.prems 1 have "cells q n \<subseteq> handed m1"
      using alloc_new [OF Cons.prems(1), of n q m1] by auto
    moreover have "cells q' (ns ! j') \<inter> handed m1 = {}"
      using run_regions [OF m1 1(2), of j'] Cons.prems 1 j by auto
    ultimately show ?thesis using 0 j by auto
  next
    case (Suc i')
    with Cons.prems 1 Cons.IH [OF m1 1(2), of i' j'] j show ?thesis by auto
  qed
qed simp

end

interpretation jp: region_allocator jk_pool_alloc pool_inv handed_out existing
  by unfold_locales (use jk_pool_alloc_ok alloc_handed_mono alloc_region in blast)+


section \<open>The functions built on \<open>jk_pool_alloc\<close>\<close>

lemmas pool_fun_defs = jk_pool_calloc_def jk_pool_strdup_def jk_pool_strcat_def jk_pool_strcatv_def

lemma jk_pool_strdup_ok:
  assumes "pool_inv m"
  shows "\<exists>r m'. jk_pool_strdup m s = Some (r, m') \<and> pool_inv m' \<and> (r = None \<or> r = s)"
proof (cases "s = None \<or> s = Some []")
  case True
  then show ?thesis using assms by (cases m) (auto simp: jk_pool_strdup_def)
next
  case False
  then obtain t where "s = Some t" "t \<noteq> []" by auto
  then show ?thesis using jk_pool_alloc_ok [OF assms, of "of_nat (length t + 1)"]
    by (auto simp: jk_pool_strdup_def)
qed

lemma jk_pool_calloc_ok:
  assumes "pool_inv m"
  shows "\<exists>r m'. jk_pool_calloc z esz m sz = Some (r, m') \<and> pool_inv m'
     \<and> (\<forall>xs. r = Some xs \<longrightarrow> xs = replicate (unat sz div unat esz) z)"
  using jk_pool_alloc_ok [OF assms, of sz] by (auto simp: jk_pool_calloc_def)

lemma jk_pool_realloc_ok:
  assumes "pool_inv m" and "old_sz \<le> sz" and "\<And>xs. old = Some xs \<Longrightarrow> unat old_sz \<le> length xs * unat esz"
  shows "\<exists>r m'. jk_pool_realloc z esz m sz old old_sz = Some (r, m') \<and> pool_inv m'
     \<and> (\<forall>ys. r = Some ys \<longrightarrow>
          ys = (case old of None \<Rightarrow> replicate (unat sz div unat esz) z
                | Some xs \<Rightarrow> take (unat old_sz div unat esz) xs
                              @ replicate ((unat sz - unat old_sz) div unat esz) z))"
proof (cases old)
  case None
  then show ?thesis using assms(2) jk_pool_calloc_ok [OF assms(1), of z esz sz]
    by (simp add: jk_pool_realloc_def leD)
next
  case (Some xs)
  then show ?thesis using assms(2,3) jk_pool_alloc_ok [OF assms(1), of sz]
    by (auto simp: jk_pool_realloc_def leD split: option.splits)
qed

section \<open>Releasing the pool\<close>

lemma free_entries_ok:
  "heap_inv h \<Longrightarrow> None \<notin> set es \<Longrightarrow> distinct es \<Longrightarrow> the ` set es \<subseteq> live_ids h \<Longrightarrow>
   \<exists>h'. free_entries h es = Some h' \<and> heap_inv h' \<and> live_ids h' = live_ids h - the ` set es
     \<and> limit h' = limit h"
proof (induction es arbitrary: h)
  case (Cons e es)
  then obtain b where e: "e = Some b" by (cases e) auto
  with Cons.prems obtain h1 where f: "c_free h b = Some h1" using free_live by fastforce
  from f have lim: "limit h1 = limit h" by (auto simp: c_free_def split: if_splits)
  have "b \<notin> the ` set es" using Cons.prems e notin_the_image [of es b] by auto
  then have "the ` set es \<subseteq> live_ids h1"
    using Cons.prems live_ids_free [OF f] by auto
  with Cons.IH [OF heap_inv_free [OF Cons.prems(1) f]] Cons.prems obtain h2 where
    "free_entries h1 es = Some h2" "heap_inv h2" "live_ids h2 = live_ids h1 - the ` set es"
    "limit h2 = limit h1" by auto
  then show ?case using e f lim live_ids_free [OF f] by auto
qed simp

lemma jk_reset_pool_ok:
  assumes inv: "pool_inv (p, h)"
  shows "\<exists>h'. jk_reset_pool (p, h) = Some (p\<lparr>dyn_pos := 0, pool_pos := 0\<rparr>, h')
     \<and> pool_inv (p\<lparr>dyn_pos := 0, pool_pos := 0\<rparr>, h')
     \<and> live_ids h' = live_ids h - the ` set (entry_ids p)"
proof (cases "dynamic p")
  case None
  then show ?thesis using inv by (auto simp: jk_reset_pool_def pool_inv_unfold)
next
  case (Some be)
  then obtain b es where d: "dynamic p = Some (b, es)" by (cases be) auto
  have ent: "None \<notin> set (entry_ids p)" "distinct (entry_ids p)" "b \<notin> the ` set (entry_ids p)"
    "the ` set (entry_ids p) \<subseteq> live_ids h" "heap_inv h" "b \<in> live_ids h"
    using inv d notin_the_image [of "entry_ids p" b] by (auto simp: pool_inv_def owned_def)
  obtain h' where h': "free_entries h (entry_ids p) = Some h'" "heap_inv h'"
    "live_ids h' = live_ids h - the ` set (entry_ids p)" "limit h' = limit h"
    using free_entries_ok [OF ent(5,1,2,4)] by auto
  have "unat (dyn_pos p) \<le> length es" using inv d by (simp add: pool_inv_def word_le_nat_alt)
  then have "jk_reset_pool (p, h) = Some (p\<lparr>dyn_pos := 0, pool_pos := 0\<rparr>, h')"
    using d h'(1) by (auto simp: jk_reset_pool_def entry_ids_def)
  then show ?thesis using inv d h' ent by (auto simp: pool_inv_def owned_def entry_ids_def)
qed

lemma jk_close_pool_ok:
  assumes inv: "pool_inv (p, h)"
  shows "\<exists>p' h'. jk_close_pool (p, h) = Some (p', h') \<and> heap_inv h'
     \<and> live_ids h' = live_ids h - owned p \<and> dyn_pos p' = 0 \<and> dynamic p' = dynamic p"
proof -
  from jk_reset_pool_ok [OF inv] obtain h1 where r:
    "jk_reset_pool (p, h) = Some (p\<lparr>dyn_pos := 0, pool_pos := 0\<rparr>, h1)"
    "pool_inv (p\<lparr>dyn_pos := 0, pool_pos := 0\<rparr>, h1)"
    "live_ids h1 = live_ids h - the ` set (entry_ids p)" by blast
  show ?thesis
  proof (cases "dynamic p")
    case None
    then show ?thesis using r by (auto simp: jk_close_pool_def owned_def pool_inv_def)
  next
    case (Some be)
    then obtain b es where d: "dynamic p = Some (b, es)" by (cases be) auto
    with r(2) have "b \<in> live_ids h1" by (simp add: pool_inv_def owned_def)
    then obtain h2 where f: "c_free h1 b = Some h2" using free_live by blast
    moreover have "heap_inv h2" using r(2) f by (auto simp: pool_inv_def intro: heap_inv_free)
    moreover have "live_ids h2 = live_ids h - owned p"
      using live_ids_free [OF f] r(3) d by (auto simp: owned_def)
    ultimately show ?thesis using r d by (auto simp: jk_close_pool_def)
  qed
qed

section \<open>Properties\<close>

text \<open>Claim C17: from a pool that satisfies its invariant, any sequence of \<open>jk_pool_alloc\<close> calls
  runs without undefined behaviour and keeps the invariant; every region it returned (for a request
  of at most \<open>2^64 - 8\<close> bytes) lies in memory that exists at the end, is disjoint from
  everything handed out before, and is disjoint from every other region of the sequence.\<close>

theorem pool_regions:
  assumes "pool_inv m"
  shows "\<exists>rs m'. alloc_run jk_pool_alloc m ns = Some (rs, m') \<and> pool_inv m' \<and> length rs = length ns
    \<and> (\<forall>i q. i < length ns \<and> rs ! i = Some q \<and> unat (ns ! i) \<le> 2 ^ 64 - 8 \<longrightarrow>
         cells q (ns ! i) \<subseteq> existing m' \<and> cells q (ns ! i) \<inter> handed_out m = {}
         \<and> (\<forall>j q'. j < i \<and> rs ! j = Some q' \<and> unat (ns ! j) \<le> 2 ^ 64 - 8 \<longrightarrow>
              cells q' (ns ! j) \<inter> cells q (ns ! i) = {}))"
proof -
  from jp.run_ok [OF assms] obtain rs m' where
    r: "alloc_run jk_pool_alloc m ns = Some (rs, m')" "pool_inv m'" "length rs = length ns" by blast
  then show ?thesis
    using jp.run_regions [OF assms r(1)] jp.run_disjoint [OF assms r(1)]
    by (intro exI [of _ rs] exI [of _ m']) auto
qed

definition demo_heap :: heap where
  "demo_heap = \<lparr>live = [], next_id = 0, limit = 4096\<rparr>"

lemma demo_pool_inv: "pool_inv (jk_open_pool sz, demo_heap)"
  by (simp add: pool_inv_unfold jk_open_pool_def demo_heap_def heap_inv_def heap_used_def live_ids_def)

theorem pool_regions_witness:
  "\<exists>rs m'. alloc_run jk_pool_alloc (jk_open_pool 64, demo_heap) [13, 100] = Some (rs, m') \<and> pool_inv m'"
  using pool_regions [OF demo_pool_inv, of 64 "[13, 100]"] by blast

text \<open>Claim C24: \<open>jk_close_pool\<close> releases exactly the blocks the pool owns, each of them once
  (no double free, no leak), and leaves every other block alone.\<close>

theorem pool_close_releases:
  assumes "pool_inv (p, h)"
  shows "\<exists>p' h'. jk_close_pool (p, h) = Some (p', h') \<and> live_ids h' = live_ids h - owned p"
  using jk_close_pool_ok [OF assms] by blast

theorem pool_close_releases_witness:
  "\<exists>p' h'. jk_close_pool (jk_open_pool 64, demo_heap) = Some (p', h')
     \<and> live_ids h' = live_ids demo_heap - owned (jk_open_pool 64)"
  using pool_close_releases [OF demo_pool_inv] by blast

text \<open>\<open>jk_close_pool\<close> keeps the stale pointer \<open>dynamic\<close>, so closing a pool with dynamic
  blocks a second time (as \<open>uri_worker_map_open\<close> followed by \<open>uri_worker_map_free\<close> does) frees
  the array twice.\<close>

theorem pool_double_close:
  assumes "pool_inv (p, h)" and "dynamic p \<noteq> None" and "jk_close_pool (p, h) = Some m'"
  shows "jk_close_pool m' = None"
proof -
  obtain p' h' where c: "m' = (p', h')" "live_ids h' = live_ids h - owned p" "dyn_pos p' = 0"
    "dynamic p' = dynamic p"
    using jk_close_pool_ok [OF assms(1)] assms(3) by auto
  obtain b es where "dynamic p = Some (b, es)" using assms(2) by auto
  then have "c_free h' b = None" using c(2) by (simp add: c_free_def owned_def)
  then show ?thesis using c \<open>dynamic p = Some (b, es)\<close>
    by (simp add: jk_close_pool_def jk_reset_pool_def)
qed

lemma demo_grown:
  "jk_pool_alloc (jk_open_pool 0, demo_heap) 8 =
     Some (Some (Dyn 1), (\<lparr>pool_size = 0, pool_pos = 0, dyn_size = 10, dyn_pos = 1,
        dynamic = Some (0, Some 1 # replicate 9 None)\<rparr>,
        \<lparr>live = [(1, 8), (0, 80)], next_id = 2, limit = 4096\<rparr>))"
  by code_simp

theorem pool_double_close_witness:
  "\<exists>p h m'. jk_pool_alloc (jk_open_pool 0, demo_heap) 8 = Some (Some (Dyn 1), (p, h))
     \<and> jk_close_pool (p, h) = Some m' \<and> jk_close_pool m' = None"
proof -
  from demo_grown obtain p h where a: "jk_pool_alloc (jk_open_pool 0, demo_heap) 8 = Some (Some (Dyn 1), (p, h))"
    and d: "dynamic p \<noteq> None" by auto
  have inv: "pool_inv (p, h)" using demo_pool_inv a by (rule pool_inv_alloc)
  then obtain m' where "jk_close_pool (p, h) = Some m'" using jk_close_pool_ok by blast
  then show ?thesis using a pool_double_close [OF inv d] by blast
qed

section \<open>When allocations succeed\<close>

lemma heap_used_malloc: "c_malloc h n = (Some b, h') \<Longrightarrow> heap_used h' = heap_used h + n"
  by (auto simp: c_malloc_def heap_used_def split: if_splits)

lemma sum_list_remove:
  "distinct (map fst es) \<Longrightarrow> (b, n) \<in> set es \<Longrightarrow>
   sum_list (map snd (filter (\<lambda>e. fst e \<noteq> b) es)) + n = sum_list (map snd es)" for es :: "(nat \<times> nat) list"
proof (induction es)
  case (Cons e es)
  show ?case
  proof (cases "fst e = b")
    case True
    then have "filter (\<lambda>e. fst e \<noteq> b) es = es" using Cons.prems(1) by (fastforce simp: filter_id_conv image_iff)
    moreover have "e = (b, n)" using True Cons.prems by (cases e) force
    ultimately show ?thesis by simp
  qed (use Cons in auto)
qed simp

lemma heap_used_free:
  "heap_inv h \<Longrightarrow> (b, n) \<in> set (live h) \<Longrightarrow> c_free h b = Some h' \<Longrightarrow> heap_used h' + n = heap_used h"
  using sum_list_remove [of "live h" b n]
  by (auto simp: c_free_def heap_used_def heap_inv_def split: if_splits)

text \<open>\<open>pool_credit c\<close>: \<open>c\<close> more bytes can be taken from the pool, counting for every request of \<open>n\<close> bytes
  its alignment and the growth of the array \<open>dynamic\<close>, at most \<open>n + 24\<close> in all.\<close>

definition pool_credit :: "nat \<Rightarrow> mem \<Rightarrow> bool" where
  "pool_credit c m \<longleftrightarrow> pool_inv m \<and>
     (case m of (p, h) \<Rightarrow>
        unat (dyn_size p) \<le> 2 * unat (dyn_pos p) + 10
        \<and> (case dynamic p of None \<Rightarrow> True | Some (b, _) \<Rightarrow> (b, 8 * unat (dyn_size p)) \<in> set (live h))
        \<and> heap_used h + 8 * (2 * unat (dyn_pos p) + 10) + c \<le> limit h + 8 * unat (dyn_size p))"

lemma pool_credit_mono: "pool_credit c m \<Longrightarrow> d \<le> c \<Longrightarrow> pool_credit d m"
  by (auto simp: pool_credit_def)

lemma pool_credit_inv: "pool_credit c m \<Longrightarrow> pool_inv m"
  by (simp add: pool_credit_def)

lemma align_le: "unat (n :: u64) < 2 ^ 60 \<Longrightarrow> unat (JK_ALIGN_DEFAULT n) \<le> unat n + 7"
proof -
  assume "unat n < 2 ^ 60"
  then have "unat (n + 7) = unat n + 7" by (simp add: unat_word_ariths)
  then show ?thesis by (simp add: unat_align)
qed

lemma grow_credit:
  assumes c: "pool_credit c (p, h)" and big: "24 \<le> c"
  shows "\<exists>p' h'. jk_pool_grow (p, h) = Some (True, (p', h')) \<and> pool_credit c (p', h')
     \<and> dyn_pos p' = dyn_pos p \<and> dyn_pos p' < dyn_size p' \<and> pool_pos p' = pool_pos p \<and> pool_size p' = pool_size p"
proof (cases "dyn_size p = dyn_pos p")
  case False
  then have "dyn_pos p < dyn_size p" using c by (auto simp: pool_credit_def pool_inv_def)
  then show ?thesis using False c by (simp add: jk_pool_grow_def)
next
  case True
  have inv: "pool_inv (p, h)" using c by (rule pool_credit_inv)
  have hi: "heap_inv h" using inv by (simp add: pool_inv_def)
  let ?d = "unat (dyn_size p)"
  let ?n = "dyn_size p * 2 + DEFAULT_DYNAMIC"
  have room: "heap_used h + 8 * (2 * ?d + 10) + c \<le> limit h + 8 * ?d" using c True by (simp add: pool_credit_def)
  have lim: "8 * ?d < 2 ^ 60" using inv by (auto simp: pool_inv_def heap_inv_def split: option.splits)
  note sz = grow_size [OF lim]
  obtain ok p' h' where g: "jk_pool_grow (p, h) = Some (ok, (p', h'))" "pool_inv (p', h')"
      "pool_pos p' = pool_pos p" "pool_size p' = pool_size p" "ok \<Longrightarrow> dyn_pos p' < dyn_size p'"
    using jk_pool_grow_ok [OF inv] by metis
  have key: "\<exists>b h1. c_realloc h (map_option fst (dynamic p)) (unat (?n * 8)) = Some (Some b, h1)
      \<and> heap_used h1 + 8 * ?d = heap_used h + 8 * (2 * ?d + 10) \<and> limit h1 = limit h \<and> (b, 8 * (2 * ?d + 10)) \<in> set (live h1)"
  proof (cases "dynamic p")
    case None
    then have "?d = 0" using inv by (simp add: pool_inv_def)
    then show ?thesis using None room sz by (simp add: c_realloc_def c_malloc_def heap_used_def)
  next
    case (Some be)
    then obtain b0 es where be: "dynamic p = Some (b0, es)" by (cases be) auto
    then have lv: "(b0, 8 * ?d) \<in> set (live h)" using c by (simp add: pool_credit_def)
    then obtain h0 where f: "c_free h b0 = Some h0" using free_live by (force simp: live_ids_def)
    have u: "heap_used h0 + 8 * ?d = heap_used h" using heap_used_free [OF hi lv f] .
    have l: "limit h0 = limit h" using f by (auto simp: c_free_def split: if_splits)
    have "heap_used h0 + unat (?n * 8) \<le> limit h0" using room u l sz by simp
    then obtain b h1 where m: "c_malloc h0 (unat (?n * 8)) = (Some b, h1)" by (simp add: c_malloc_def)
    then show ?thesis using be f u l sz heap_used_malloc [OF m] limit_malloc [OF m] malloc_SomeD(3) [OF _ m] heap_inv_free [OF hi f]
      by (simp add: c_realloc_def mult.commute)
  qed
  then obtain b h1 where r: "c_realloc h (map_option fst (dynamic p)) (unat (?n * 8)) = Some (Some b, h1)"
      "heap_used h1 + 8 * ?d = heap_used h + 8 * (2 * ?d + 10)" "limit h1 = limit h" "(b, 8 * (2 * ?d + 10)) \<in> set (live h1)"
    by blast
  let ?old = "case dynamic p of None \<Rightarrow> [] | Some (_, es) \<Rightarrow> es"
  have e: "ok = True" "p' = p\<lparr>dynamic := Some (b, ?old @ replicate (unat ?n - length ?old) None), dyn_size := ?n\<rparr>" "h' = h1"
    using g(1) r(1) True by (auto simp: jk_pool_grow_def Let_def)
  have "pool_credit c (p', h')"
    using g(2) e r sz room True by (simp add: pool_credit_def mult.commute)
  with e g True show ?thesis by simp
qed

lemma alloc_credit:
  assumes c: "pool_credit (c + unat n + 24) m" and n: "n \<noteq> 0"
  shows "\<exists>r m'. jk_pool_alloc m n = Some (Some r, m') \<and> pool_credit c m'"
proof (cases m)
  case (Pair p h)
  let ?sz = "JK_ALIGN_DEFAULT n"
  have cp: "pool_credit (c + unat n + 24) (p, h)" using c Pair by simp
  have inv: "pool_inv (p, h)" using cp by (rule pool_credit_inv)
  have "heap_inv h" using inv by (simp add: pool_inv_def)
  then have lim: "limit h < 2 ^ 60" "heap_used h \<le> limit h" by (simp_all add: heap_inv_def)
  have "unat n + 8 * (2 * unat (dyn_pos p) + 10) \<le> limit h + 8 * unat (dyn_size p)"
    "unat (dyn_size p) \<le> 2 * unat (dyn_pos p) + 10" using cp by (simp_all add: pool_credit_def)
  moreover have "a + 8 * (2 * b + 10) \<le> x + 8 * d \<Longrightarrow> d \<le> 2 * b + 10 \<Longrightarrow> a \<le> x" for a b x d :: nat by (simp add: algebra_simps)
  ultimately have "unat n \<le> limit h" by blast
  then have small: "unat n < 2 ^ 60" using lim(1) by (rule le_less_trans)
  note al = align_le [OF small]
  obtain r m' where a: "jk_pool_alloc (p, h) n = Some (r, m')" "pool_inv m'" using jk_pool_alloc_ok [OF inv] by blast
  show ?thesis
  proof (cases "?sz \<le> pool_size p - pool_pos p")
    case True
    then have "r = Some (Static (pool_pos p))" "m' = (p\<lparr>pool_pos := pool_pos p + ?sz\<rparr>, h)"
      using a(1) n by (auto simp: jk_pool_alloc_def Let_def)
    moreover from this have "pool_credit c m'" using cp a(2) by (auto simp: pool_credit_def split: option.splits)
    ultimately show ?thesis using a(1) Pair by blast
  next
    case False
    obtain p1 h1 where g: "jk_pool_grow (p, h) = Some (True, (p1, h1))" "pool_credit (c + unat n + 24) (p1, h1)"
        "dyn_pos p1 < dyn_size p1"
      using grow_credit [OF cp] by auto
    obtain b es where d: "dynamic p1 = Some (b, es)"
      using g(2,3) by (auto simp: pool_credit_def pool_inv_def split: option.splits)
    have len: "unat (dyn_pos p1) < length es" using g(2,3) d by (simp add: pool_credit_def pool_inv_def word_less_nat_alt)
    have room: "heap_used h1 + 8 * (2 * unat (dyn_pos p1) + 10) + (c + unat n + 24) \<le> limit h1 + 8 * unat (dyn_size p1)"
      "unat (dyn_size p1) \<le> 2 * unat (dyn_pos p1) + 10" "(b, 8 * unat (dyn_size p1)) \<in> set (live h1)"
      using g(2) d by (simp_all add: pool_credit_def)
    then have "heap_used h1 + unat ?sz \<le> limit h1" using al by (simp add: algebra_simps)
    then obtain nb h2 where m: "c_malloc h1 (unat ?sz) = (Some nb, h2)" by (simp add: c_malloc_def)
    let ?p = "p1\<lparr>dynamic := Some (b, es[unat (dyn_pos p1) := Some nb]), dyn_pos := dyn_pos p1 + 1\<rparr>"
    have al2: "jk_pool_alloc (p, h) n = Some (Some (Dyn nb), (?p, h2))"
      using n False g(1) d m len by (simp add: jk_pool_alloc_def Let_def)
    have pos: "unat (dyn_pos p1 + 1) = unat (dyn_pos p1) + 1"
      using g(3) unat_u64_bound [of "dyn_size p1"] by (simp add: word_less_nat_alt unat_word_ariths)
    have "pool_inv (?p, h2)" using a al2 by simp
    moreover have "(b, 8 * unat (dyn_size p1)) \<in> set (live h2)" using room(3) malloc_keeps [OF m] by blast
    ultimately have "pool_credit c (?p, h2)"
      using room pos heap_used_malloc [OF m] limit_malloc [OF m] al by (simp add: pool_credit_def)
    with al2 Pair show ?thesis by blast
  qed
qed


lemma credit_bound: "pool_credit c m \<Longrightarrow> c < 2 ^ 60"
proof (cases m)
  case (Pair p h)
  assume "pool_credit c m"
  then have "heap_used h + 8 * (2 * unat (dyn_pos p) + 10) + c \<le> limit h + 8 * unat (dyn_size p)"
    "unat (dyn_size p) \<le> 2 * unat (dyn_pos p) + 10" "limit h < 2 ^ 60"
    using Pair by (simp_all add: pool_credit_def pool_inv_def heap_inv_def)
  then have "c \<le> limit h" by (simp add: algebra_simps)
  with \<open>limit h < 2 ^ 60\<close> show ?thesis by simp
qed

lemma strdup_credit:
  assumes "pool_credit (c + length t + 25) m"
  shows "\<exists>m'. jk_pool_strdup m (Some t) = Some (Some t, m') \<and> pool_credit c m'"
proof (cases "t = []")
  case True
  then show ?thesis using pool_credit_mono [OF assms] by (simp add: jk_pool_strdup_def)
next
  case False
  have "length t + 1 < 2 ^ 64" using credit_bound [OF assms] by simp
  then have u: "unat (of_nat (length t + 1) :: u64) = length t + 1" by (rule unat_u64_of_nat)
  then have nz: "(of_nat (length t + 1) :: u64) \<noteq> 0" by (metis add_eq_0_iff_both_eq_0 one_neq_zero unat_0)
  have "pool_credit (c + unat (of_nat (length t + 1) :: u64) + 24) m" unfolding u using assms by (simp add: add.commute add.left_commute)
  from alloc_credit [OF this nz] False show ?thesis by (auto simp: jk_pool_strdup_def)
qed

lemma realloc_credit:
  assumes "pool_credit (c + unat sz + 24) m" and "sz \<noteq> 0" and "old_sz \<le> sz"
    and "\<And>xs. old = Some xs \<Longrightarrow> unat old_sz \<le> length xs * unat esz"
  shows "\<exists>ys m'. jk_pool_realloc z esz m sz old old_sz = Some (Some ys, m') \<and> pool_credit c m'
     \<and> ys = (case old of None \<Rightarrow> replicate (unat sz div unat esz) z
             | Some xs \<Rightarrow> take (unat old_sz div unat esz) xs @ replicate ((unat sz - unat old_sz) div unat esz) z)"
  using alloc_credit [OF assms(1,2)] assms(3,4)
  by (cases old) (auto simp: jk_pool_realloc_def jk_pool_calloc_def leD)

end
