(* ===== verification/Jk_Msg.thy ===== *)
theory Jk_Msg
  imports Jk_Pool
begin

text \<open>
  The AJP message buffer (\<open>jk_msg_buff.c\<close>): marshalling of integers, strings and byte runs into a
  fixed buffer and their extraction. Integers of type \<open>int\<close> are kept as \<^typ>\<open>int\<close>; the values
  written and read are words of their C width (\<open>unsigned long\<close> is 64 bits wide).
\<close>

record jk_msg_buf =
  mb_buf :: "u8 list"
  mb_pos :: int
  mb_len :: int
  mb_maxlen :: int

definition jk_b_reset :: "jk_msg_buf \<Rightarrow> jk_msg_buf" where
  "jk_b_reset msg =
     msg\<lparr>mb_len := 4, mb_pos := 4,
         mb_buf := (if mb_maxlen msg \<noteq> 0 then replicate (length (mb_buf msg)) 0 else mb_buf msg)\<rparr>"

text \<open>The bytes \<open>(v >> 8k) & 0xFF\<close>, most significant first.\<close>

definition long_bytes :: "u64 \<Rightarrow> u8 list" where
  "long_bytes v = [ucast (drop_bit 24 v), ucast (drop_bit 16 v), ucast (drop_bit 8 v), ucast v]"

definition int_bytes :: "u16 \<Rightarrow> u8 list" where
  "int_bytes v = [ucast (drop_bit 8 v), ucast v]"

text \<open>\<open>msg->buf[msg->len++] = \<dots>\<close>, repeated.\<close>

definition put_bytes :: "jk_msg_buf \<Rightarrow> u8 list \<Rightarrow> jk_msg_buf ub" where
  "put_bytes msg bs =
     do {
       b \<leftarrow> pokei (mb_buf msg) (mb_len msg) bs;
       Some (msg\<lparr>mb_buf := b, mb_len := mb_len msg + int (length bs)\<rparr>)
     }"

definition jk_b_append_long :: "jk_msg_buf \<Rightarrow> u64 \<Rightarrow> (int \<times> jk_msg_buf) ub" where
  "jk_b_append_long msg val =
     (if mb_len msg + 4 > mb_maxlen msg then Some (-1, msg)
      else do { msg' \<leftarrow> put_bytes msg (long_bytes val); Some (0, msg') })"

definition jk_b_append_int :: "jk_msg_buf \<Rightarrow> u16 \<Rightarrow> (int \<times> jk_msg_buf) ub" where
  "jk_b_append_int msg val =
     (if mb_len msg + 2 > mb_maxlen msg then Some (-1, msg)
      else do { msg' \<leftarrow> put_bytes msg (int_bytes val); Some (0, msg') })"

definition jk_b_append_byte :: "jk_msg_buf \<Rightarrow> u8 \<Rightarrow> (int \<times> jk_msg_buf) ub" where
  "jk_b_append_byte msg val =
     (if mb_len msg + 1 > mb_maxlen msg then Some (-1, msg)
      else do { msg' \<leftarrow> put_bytes msg [val]; Some (0, msg') })"

definition jk_b_end :: "jk_msg_buf \<Rightarrow> int \<Rightarrow> jk_msg_buf ub" where
  "jk_b_end msg protoh =
     (let hlen = mb_len msg - 4
      in do {
           b \<leftarrow> pokei (mb_buf msg) 0
                 [word_of_int (protoh div 256), word_of_int protoh,
                  word_of_int (hlen div 256), word_of_int hlen];
           Some (msg\<lparr>mb_buf := b\<rparr>)
         })"

text \<open>\<open>sizeof(jk_msg_buf_t)\<close> is 32; the fresh message has no buffer yet.\<close>

definition jk_b_new :: "mem \<Rightarrow> (jk_msg_buf option \<times> mem) ub" where
  "jk_b_new m =
     do {
       (r, m') \<leftarrow> jk_pool_alloc m 32;
       Some (map_option (\<lambda>_. \<lparr>mb_buf = [], mb_pos = 0, mb_len = 0, mb_maxlen = 0\<rparr>) r, m')
     }"

definition jk_b_set_buffer :: "jk_msg_buf \<Rightarrow> u8 list \<Rightarrow> int \<Rightarrow> jk_msg_buf" where
  "jk_b_set_buffer msg data buffSize = msg\<lparr>mb_len := 0, mb_buf := data, mb_maxlen := buffSize\<rparr>"

text \<open>The pool returns uninitialised bytes; \<open>junk\<close> is what they happen to hold.\<close>

definition jk_b_set_buffer_size ::
    "(nat \<Rightarrow> u8 list) \<Rightarrow> mem \<Rightarrow> jk_msg_buf \<Rightarrow> int \<Rightarrow> (int \<times> jk_msg_buf \<times> mem) ub" where
  "jk_b_set_buffer_size junk m msg buffSize =
     do {
       (r, m') \<leftarrow> jk_pool_alloc m (word_of_int buffSize);
       (case r of
          None \<Rightarrow> Some (-1, msg, m')
        | Some _ \<Rightarrow> Some (0, jk_b_set_buffer msg (junk (nat buffSize)) buffSize, m'))
     }"

definition bytes_of :: "string \<Rightarrow> u8 list" where
  "bytes_of s = map (\<lambda>c. of_nat (code c)) s"

definition jk_b_append_string :: "jk_msg_buf \<Rightarrow> string option \<Rightarrow> (int \<times> jk_msg_buf) ub" where
  "jk_b_append_string msg param =
     (case param of
        None \<Rightarrow> do { (_, msg') \<leftarrow> jk_b_append_int msg 0xFFFF; Some (0, msg') }
      | Some s \<Rightarrow>
          let len = (of_nat (length s) :: u16) in
          if mb_len msg + uint len + 3 > mb_maxlen msg then Some (-1, msg)
          else do {
            (_, msg1) \<leftarrow> jk_b_append_int msg len;
            msg2 \<leftarrow> put_bytes msg1 (take (unat len + 1) (bytes_of s @ [0]));
            Some (0, msg2)
          })"

definition jk_b_append_bytes :: "jk_msg_buf \<Rightarrow> u8 list \<Rightarrow> int \<Rightarrow> (int \<times> jk_msg_buf) ub" where
  "jk_b_append_bytes msg param len =
     (if len = 0 then Some (0, msg)
      else if mb_len msg + len > mb_maxlen msg then Some (-1, msg)
      else do {
        guard (0 \<le> len \<and> nat len \<le> length param);
        msg' \<leftarrow> put_bytes msg (take (nat len) param);
        Some (0, msg')
      })"

text \<open>\<open>(x & 0xFF) << 24\<close> is computed in \<open>int\<close> and then widened to \<open>unsigned long\<close>.\<close>

definition long_of_bytes :: "u8 \<Rightarrow> u8 \<Rightarrow> u8 \<Rightarrow> u8 \<Rightarrow> u64" where
  "long_of_bytes b3 b2 b1 b0 =
     scast (push_bit 24 (ucast b3 :: u32)) OR scast (push_bit 16 (ucast b2 :: u32))
       OR scast (push_bit 8 (ucast b1 :: u32)) OR scast (ucast b0 :: u32)"

definition int_of_bytes :: "u8 \<Rightarrow> u8 \<Rightarrow> u16" where
  "int_of_bytes b1 b0 = push_bit 8 (ucast b1) + ucast b0"

definition jk_b_pget_long :: "jk_msg_buf \<Rightarrow> int \<Rightarrow> u64 ub" where
  "jk_b_pget_long msg pos =
     do {
       b3 \<leftarrow> rdi (mb_buf msg) pos; b2 \<leftarrow> rdi (mb_buf msg) (pos + 1);
       b1 \<leftarrow> rdi (mb_buf msg) (pos + 2); b0 \<leftarrow> rdi (mb_buf msg) (pos + 3);
       Some (long_of_bytes b3 b2 b1 b0)
     }"

definition jk_b_get_long :: "jk_msg_buf \<Rightarrow> (u64 \<times> jk_msg_buf) ub" where
  "jk_b_get_long msg =
     (if mb_pos msg + 3 > mb_len msg then Some (0xFFFFFFFF, msg)
      else do {
        b3 \<leftarrow> rdi (mb_buf msg) (mb_pos msg); b2 \<leftarrow> rdi (mb_buf msg) (mb_pos msg + 1);
        b1 \<leftarrow> rdi (mb_buf msg) (mb_pos msg + 2); b0 \<leftarrow> rdi (mb_buf msg) (mb_pos msg + 3);
        Some (long_of_bytes b3 b2 b1 b0, msg\<lparr>mb_pos := mb_pos msg + 4\<rparr>)
      })"

definition jk_b_pget_int :: "jk_msg_buf \<Rightarrow> int \<Rightarrow> u16 ub" where
  "jk_b_pget_int msg pos =
     do { b1 \<leftarrow> rdi (mb_buf msg) pos; b0 \<leftarrow> rdi (mb_buf msg) (pos + 1); Some (int_of_bytes b1 b0) }"

definition jk_b_get_int :: "jk_msg_buf \<Rightarrow> (u16 \<times> jk_msg_buf) ub" where
  "jk_b_get_int msg =
     (if mb_pos msg + 1 > mb_len msg then Some (0xFFFF, msg)
      else do {
        b1 \<leftarrow> rdi (mb_buf msg) (mb_pos msg); b0 \<leftarrow> rdi (mb_buf msg) (mb_pos msg + 1);
        Some (int_of_bytes b1 b0, msg\<lparr>mb_pos := mb_pos msg + 2\<rparr>)
      })"

definition jk_b_pget_byte :: "jk_msg_buf \<Rightarrow> int \<Rightarrow> u8 ub" where
  "jk_b_pget_byte msg pos = rdi (mb_buf msg) pos"

definition jk_b_get_byte :: "jk_msg_buf \<Rightarrow> (u8 \<times> jk_msg_buf) ub" where
  "jk_b_get_byte msg =
     (if mb_pos msg > mb_len msg then Some (0xFF, msg)
      else do {
        rc \<leftarrow> rdi (mb_buf msg) (mb_pos msg);
        Some (rc, msg\<lparr>mb_pos := mb_pos msg + 1\<rparr>)
      })"

text \<open>\<open>jk_b_get_string\<close> returns a pointer into the buffer; the model returns its offset.\<close>

definition jk_b_get_string :: "jk_msg_buf \<Rightarrow> (int option \<times> jk_msg_buf) ub" where
  "jk_b_get_string msg =
     do {
       (size, msg1) \<leftarrow> jk_b_get_int msg;
       let start = mb_pos msg1 in
       if size = 0xFFFF \<or> uint size + start > mb_maxlen msg1 then Some (None, msg1)
       else Some (Some start, msg1\<lparr>mb_pos := mb_pos msg1 + uint size + 1\<rparr>)
     }"

definition jk_b_get_bytes :: "jk_msg_buf \<Rightarrow> int \<Rightarrow> (int \<times> u8 list \<times> jk_msg_buf) ub" where
  "jk_b_get_bytes msg len =
     (let start = mb_pos msg in
      if len < 0 \<or> len + start > mb_maxlen msg then Some (-1, [], msg)
      else do {
        guard (0 \<le> start \<and> nat (start + len) \<le> length (mb_buf msg));
        Some (len, take (nat len) (drop (nat start) (mb_buf msg)), msg\<lparr>mb_pos := start + len\<rparr>)
      })"

definition jk_b_copy :: "jk_msg_buf option \<Rightarrow> jk_msg_buf option \<Rightarrow> (int \<times> jk_msg_buf option) ub" where
  "jk_b_copy smsg dmsg =
     (case (smsg, dmsg) of
        (Some s, Some d) \<Rightarrow>
          if mb_maxlen d < mb_len s then Some (-2, dmsg)
          else do {
            guard (nat (mb_len s) \<le> length (mb_buf s));
            b \<leftarrow> pokei (mb_buf d) 0 (take (nat (mb_len s)) (mb_buf s));
            Some (mb_len s, Some (d\<lparr>mb_buf := b, mb_len := mb_len s\<rparr>))
          }
      | _ \<Rightarrow> Some (-1, dmsg))"

text \<open>The string a returned pointer designates: the bytes up to the first zero.\<close>

definition cstr_at :: "u8 list \<Rightarrow> int \<Rightarrow> string ub" where
  "cstr_at b off =
     (let bs = drop (nat off) b in
      if off < 0 \<or> 0 \<notin> set bs then None
      else Some (map (\<lambda>w. char_of (unat w)) (takeWhile (\<lambda>w. w \<noteq> 0) bs)))"

definition get_str :: "jk_msg_buf \<Rightarrow> (string option \<times> jk_msg_buf) ub" where
  "get_str msg =
     do {
       (r, msg') \<leftarrow> jk_b_get_string msg;
       (case r of
          None \<Rightarrow> Some (None, msg')
        | Some off \<Rightarrow> do { s \<leftarrow> cstr_at (mb_buf msg) off; Some (Some s, msg') })
     }"

text \<open>The lines \<open>jk_dump_buff\<close> logs, 16 bytes each, in hexadecimal and as text. It reads whole
  rows, also behind \<open>len\<close>.\<close>

definition jk_HEX :: string where
  "jk_HEX = ''0123456789ABCDEFX''"

definition dump_hex :: "u8 \<Rightarrow> string" where
  "dump_hex x = [jk_HEX ! unat (drop_bit 4 x), jk_HEX ! unat (x AND 15), CHR '' '']"

definition dump_chr :: "u8 \<Rightarrow> char" where
  "dump_chr x = (if 0x20 < x \<and> x < 0x7F then char_of (unat x) else CHR ''.'')"

fun dump_row :: "jk_msg_buf \<Rightarrow> nat \<Rightarrow> nat \<Rightarrow> nat \<Rightarrow> u8 list ub" where
  "dump_row msg len i 0 = Some []"
| "dump_row msg len i (Suc n) =
     do {
       x \<leftarrow> rd (mb_buf msg) i;
       xs \<leftarrow> dump_row msg len (Suc i) n;
       Some ((if i \<ge> len then 0 else x) # xs)
     }"

function dump_lines :: "jk_msg_buf \<Rightarrow> nat \<Rightarrow> nat \<Rightarrow> string list ub" where
  "dump_lines msg len i =
     (if i < len then
        do {
          row \<leftarrow> dump_row msg len i 16;
          rest \<leftarrow> dump_lines msg len (i + 16);
          Some ((concat (map dump_hex row) @ '' - '' @ map dump_chr row) # rest)
        }
      else Some [])"
  by pat_completeness auto
termination
  by (relation "measure (\<lambda>(msg, len, i). len - i)") auto

definition jk_dump_buff :: "bool \<Rightarrow> jk_msg_buf \<Rightarrow> string list ub" where
  "jk_dump_buff trace_level msg =
     (let len = (if \<not> trace_level \<and> mb_len msg > 1024 then 1024 else mb_len msg)
      in dump_lines msg (nat len) 0)"


section \<open>Words and bytes\<close>

lemma int_of_bytes_inverse: "int_of_bytes (ucast (drop_bit 8 v)) (ucast v) = v"
proof -
  have "int_of_bytes (ucast (drop_bit 8 v)) (ucast v) = push_bit 8 (ucast (ucast (drop_bit 8 v) :: u8)) OR ucast (ucast v :: u8)"
    unfolding int_of_bytes_def
    by (rule disjunctive_add_eq_or) (auto simp: bit_eq_iff bit_simps)
  also have "\<dots> = v"
    by (rule bit_word_eqI) (auto simp: bit_simps)
  finally show ?thesis .
qed

lemma long_of_bytes_inverse:
  "long_of_bytes (ucast (drop_bit 24 v)) (ucast (drop_bit 16 v)) (ucast (drop_bit 8 v)) (ucast v)
     = scast (ucast v :: u32)"
  unfolding long_of_bytes_def
proof (rule bit_word_eqI, goal_cases)
  case (1 n)
  consider "n < 8" | "8 \<le> n" "n < 16" | "16 \<le> n" "n < 24" | "24 \<le> n" "n < 31" | "31 \<le> n"
    by linarith
  then show ?case using 1 by cases (simp add: bit_simps min_def; auto)+
qed

lemma scast_ucast_small: "v < 2 ^ 31 \<Longrightarrow> scast (ucast v :: u32) = (v :: u64)"
proof -
  assume "v < 2 ^ 31"
  then have v: "take_bit 31 v = v" by (simp add: word_uint_eq_iff unsigned_take_bit_eq take_bit_int_eq_self_iff word_less_def)
  show ?thesis
  proof (rule bit_word_eqI, goal_cases)
    case (1 n)
    have "\<not> bit v k" if "31 \<le> k" for k
      using v that by (metis bit_take_bit_iff not_le)
    then show ?case using 1 by (auto simp: bit_simps min_def)
  qed
qed

section \<open>The invariant and the abstract message\<close>

text \<open>The message as a specification sees it: the bytes written so far and the bytes not yet
  read.\<close>

definition msg_wf :: "jk_msg_buf \<Rightarrow> bool" where
  "msg_wf m \<longleftrightarrow> length (mb_buf m) = nat (mb_maxlen m) \<and> 0 \<le> mb_pos m \<and> 0 \<le> mb_len m
     \<and> mb_len m \<le> mb_maxlen m"

definition payload :: "jk_msg_buf \<Rightarrow> u8 list" where
  "payload m = take (nat (mb_len m)) (mb_buf m)"

definition unread :: "jk_msg_buf \<Rightarrow> u8 list" where
  "unread m = drop (nat (mb_pos m)) (payload m)"

definition appended :: "jk_msg_buf \<Rightarrow> u8 list \<Rightarrow> jk_msg_buf" where
  "appended m bs = m\<lparr>mb_buf := splice (mb_buf m) (nat (mb_len m)) bs, mb_len := mb_len m + int (length bs)\<rparr>"

definition advanced :: "jk_msg_buf \<Rightarrow> nat \<Rightarrow> jk_msg_buf" where
  "advanced m n = m\<lparr>mb_pos := mb_pos m + int n\<rparr>"

definition fits :: "jk_msg_buf \<Rightarrow> u8 list \<Rightarrow> bool" where
  "fits m bs \<longleftrightarrow> mb_len m + int (length bs) \<le> mb_maxlen m"

lemma appended_sel [simp]:
  "mb_len (appended m bs) = mb_len m + int (length bs)" "mb_pos (appended m bs) = mb_pos m"
  "mb_maxlen (appended m bs) = mb_maxlen m"
  by (simp_all add: appended_def)

lemma msg_wf_appended [simp, jk_inv]: "msg_wf m \<Longrightarrow> fits m bs \<Longrightarrow> msg_wf (appended m bs)"
  by (auto simp: msg_wf_def fits_def appended_def)

lemma payload_appended: "msg_wf m \<Longrightarrow> fits m bs \<Longrightarrow> payload (appended m bs) = payload m @ bs"
  by (auto simp: payload_def msg_wf_def fits_def appended_def nat_add_distrib take_splice)

lemma fits_append: "fits m (as @ bs) \<Longrightarrow> fits m as \<and> fits (appended m as) bs"
  by (auto simp: fits_def)

lemma appended_append:
  assumes "msg_wf m" and "fits m (as @ bs)"
  shows "appended (appended m as) bs = appended m (as @ bs)"
proof -
  have "nat (mb_len m) + length as + length bs \<le> length (mb_buf m)"
    using assms by (auto simp: msg_wf_def fits_def)
  then have "splice (splice (mb_buf m) (nat (mb_len m)) as) (nat (mb_len m) + length as) bs
      = splice (mb_buf m) (nat (mb_len m)) (as @ bs)"
    by (simp add: splice_def ac_simps)
  then show ?thesis using assms by (simp add: appended_def msg_wf_def nat_add_distrib)
qed

lemma put_bytes_ok: "msg_wf m \<Longrightarrow> fits m bs \<Longrightarrow> put_bytes m bs = Some (appended m bs)"
  by (auto simp: put_bytes_def pokei_def msg_wf_def fits_def appended_def poke_in)

lemma advanced_sel [simp]:
  "mb_len (advanced m n) = mb_len m" "mb_pos (advanced m n) = mb_pos m + int n"
  "mb_maxlen (advanced m n) = mb_maxlen m" "mb_buf (advanced m n) = mb_buf m"
  by (simp_all add: advanced_def)

lemma advanced_advanced [simp]: "advanced (advanced m a) b = advanced m (a + b)"
  by (simp add: advanced_def)

lemma msg_wf_advanced [simp, jk_inv]: "msg_wf m \<Longrightarrow> msg_wf (advanced m n)"
  by (simp add: msg_wf_def)

lemma unread_advanced: "msg_wf m \<Longrightarrow> unread (advanced m n) = drop n (unread m)"
  by (simp add: unread_def payload_def msg_wf_def nat_add_distrib add.commute)

lemma rd_unread:
  assumes "msg_wf m" and "i < length (unread m)"
  shows "rdi (mb_buf m) (mb_pos m + int i) = Some (unread m ! i)"
    and "mb_pos m + int i < mb_len m"
proof -
  show lt: "mb_pos m + int i < mb_len m"
    using assms by (auto simp: unread_def payload_def msg_wf_def)
  have "nat (mb_pos m + int i) < length (mb_buf m)" using assms lt by (auto simp: msg_wf_def)
  then show "rdi (mb_buf m) (mb_pos m + int i) = Some (unread m ! i)"
    using assms lt by (simp add: rdi_def unread_def payload_def msg_wf_def nat_add_distrib)
qed


section \<open>Appending\<close>

definition enc_string :: "string \<Rightarrow> u8 list" where
  "enc_string s = int_bytes (of_nat (length s)) @ bytes_of s @ [0]"

lemma length_enc [simp]:
  "length (int_bytes v) = 2" "length (long_bytes w) = 4" "length (bytes_of s) = length s"
  "length (enc_string s) = length s + 3"
  by (simp_all add: int_bytes_def long_bytes_def bytes_of_def enc_string_def)

lemma append_scalar_spec:
  assumes "msg_wf m"
  shows "jk_b_append_int m v = Some (if fits m (int_bytes v) then (0, appended m (int_bytes v)) else (-1, m))"
    and "jk_b_append_long m w = Some (if fits m (long_bytes w) then (0, appended m (long_bytes w)) else (-1, m))"
    and "jk_b_append_byte m b = Some (if fits m [b] then (0, appended m [b]) else (-1, m))"
  using put_bytes_ok [OF assms, of "int_bytes v"] put_bytes_ok [OF assms, of "long_bytes w"]
    put_bytes_ok [OF assms, of "[b]"]
  by (simp_all add: jk_b_append_int_def jk_b_append_long_def jk_b_append_byte_def fits_def)

lemma append_string_spec:
  assumes wf: "msg_wf m" and len: "length s < 65536"
  shows "jk_b_append_string m (Some s)
    = Some (if fits m (enc_string s) then (0, appended m (enc_string s)) else (-1, m))"
proof (cases "fits m (enc_string s)")
  case False
  then show ?thesis using len
    by (simp add: jk_b_append_string_def fits_def u16_of_nat)
next
  case True
  let ?n = "of_nat (length s) :: u16"
  have n: "unat ?n = length s" "uint ?n = int (length s)" using len by (simp_all add: u16_of_nat)
  have f: "fits m (int_bytes ?n @ (bytes_of s @ [0]))" using True by (simp add: enc_string_def)
  note f1 = fits_append [OF f]
  have "put_bytes (appended m (int_bytes ?n)) (bytes_of s @ [0]) = Some (appended m (enc_string s))"
    using put_bytes_ok [of "appended m (int_bytes ?n)" "bytes_of s @ [0]"] f1 wf f
    by (simp add: enc_string_def appended_append)
  moreover have "\<not> mb_len m + uint ?n + 3 > mb_maxlen m"
    using True n by (simp add: fits_def)
  ultimately show ?thesis using True f1 wf n
    by (simp add: jk_b_append_string_def append_scalar_spec)
qed

lemma append_bytes_spec:
  assumes "msg_wf m" and "n \<le> length bs"
  shows "jk_b_append_bytes m bs (int n)
    = Some (if fits m (take n bs) then (0, appended m (take n bs)) else (-1, m))"
proof -
  have "appended m [] = m" by (simp add: appended_def)
  moreover have "fits m []" using assms by (simp add: fits_def msg_wf_def)
  ultimately show ?thesis
    using assms put_bytes_ok [OF assms(1), of "take n bs"]
    by (auto simp: jk_b_append_bytes_def fits_def)
qed

section \<open>Reading\<close>

lemma get_int_spec:
  assumes "msg_wf m" and "unread m = int_bytes v @ rest"
  shows "jk_b_get_int m = Some (v, advanced m 2)"
proof -
  have "rdi (mb_buf m) (mb_pos m) = Some (unread m ! 0)"
    "rdi (mb_buf m) (mb_pos m + 1) = Some (unread m ! 1)" "mb_pos m + 1 < mb_len m"
    using rd_unread [OF assms(1), of 0] rd_unread [OF assms(1), of 1] assms(2)
    by (simp_all add: int_bytes_def)
  then show ?thesis using assms(2)
    by (simp add: jk_b_get_int_def int_bytes_def int_of_bytes_inverse advanced_def)
qed

lemma get_long_spec:
  assumes "msg_wf m" and "unread m = long_bytes v @ rest"
  shows "jk_b_get_long m = Some (scast (ucast v :: u32), advanced m 4)"
proof -
  have "rdi (mb_buf m) (mb_pos m) = Some (unread m ! 0)"
    "rdi (mb_buf m) (mb_pos m + 1) = Some (unread m ! 1)"
    "rdi (mb_buf m) (mb_pos m + 2) = Some (unread m ! 2)"
    "rdi (mb_buf m) (mb_pos m + 3) = Some (unread m ! 3)" "mb_pos m + 3 < mb_len m"
    using rd_unread [OF assms(1), of 0] rd_unread [OF assms(1), of 1] rd_unread [OF assms(1), of 2]
      rd_unread [OF assms(1), of 3] assms(2)
    by (simp_all add: long_bytes_def)
  then show ?thesis using assms(2)
    by (simp add: jk_b_get_long_def long_bytes_def long_of_bytes_inverse advanced_def)
qed

lemma get_byte_spec:
  assumes "msg_wf m" and "unread m = b # rest"
  shows "jk_b_get_byte m = Some (b, advanced m 1)"
  using rd_unread [OF assms(1), of 0] assms(2) by (simp add: jk_b_get_byte_def advanced_def)

lemma byte_char [simp]: "char_of (unat (of_nat (code c) :: u8)) = c"
  by (simp add: unat_of_nat)

lemma byte_zero: "((of_nat (code c) :: u8) = 0) = (c = NUL)"
proof -
  have "((of_nat (code c) :: u8) = 0) = (unat (of_nat (code c) :: u8) = 0)"
    by (rule unat_eq_0 [symmetric])
  also have "\<dots> = (c = NUL)" by (simp add: unat_of_nat)
  finally show ?thesis .
qed

lemma cstr_at_bytes:
  assumes "is_cstr s" and "0 \<le> off" and "drop (nat off) b = bytes_of s @ 0 # rest"
  shows "cstr_at b off = Some s"
proof -
  have "takeWhile (\<lambda>w. w \<noteq> 0) (bytes_of s @ 0 # rest) = bytes_of s"
    using assms(1) by (subst takeWhile_append2) (auto simp: bytes_of_def is_cstr_def byte_zero)
  then show ?thesis using assms by (simp add: cstr_at_def bytes_of_def o_def)
qed

lemma get_str_spec:
  assumes wf: "msg_wf m" and s: "is_cstr s" "length s < 0xFFFF" and u: "unread m = enc_string s @ rest"
  shows "get_str m = Some (Some s, advanced m (length (enc_string s)))"
proof -
  let ?n = "of_nat (length s) :: u16" and ?m = "advanced m 2"
  have n: "unat ?n = length s" "uint ?n = int (length s)" using s by (simp_all add: u16_of_nat)
  have g: "jk_b_get_int m = Some (?n, ?m)" using wf u by (simp add: get_int_spec enc_string_def)
  have tail: "unread ?m = bytes_of s @ 0 # rest"
    using wf u by (simp add: unread_advanced enc_string_def int_bytes_def)
  have ne: "?n \<noteq> 0xFFFF"
  proof
    assume "?n = 0xFFFF"
    then have "unat ?n = 0xFFFF" by simp
    with n s show False by simp
  qed
  have len: "mb_pos m + 2 + int (length s) < mb_len m"
    using rd_unread(2) [OF wf, of "length s + 2"] u by simp
  have pos: "0 \<le> mb_pos m" "mb_len m \<le> mb_maxlen m" using wf by (simp_all add: msg_wf_def)
  have "drop (nat (mb_pos m + 2)) (mb_buf m) = unread ?m @ drop (nat (mb_len m)) (mb_buf m)"
    using wf len by (auto simp: unread_def payload_def msg_wf_def intro!: drop_split)
  then have "cstr_at (mb_buf m) (mb_pos m + 2) = Some s"
    using s(1) pos tail by (intro cstr_at_bytes) auto
  then show ?thesis using g ne len pos n
    by (simp add: get_str_def jk_b_get_string_def advanced_def)
qed


section \<open>The codec interface\<close>

text \<open>A writer and the reader that inverts it. Clients that marshal a list of fields use only the
  two laws.\<close>

fun put_seq :: "(jk_msg_buf \<Rightarrow> 'a \<Rightarrow> (int \<times> jk_msg_buf) ub) \<Rightarrow> jk_msg_buf \<Rightarrow> 'a list \<Rightarrow> (int \<times> jk_msg_buf) ub" where
  "put_seq put m [] = Some (0, m)"
| "put_seq put m (v # vs) =
     do { (rc, m') \<leftarrow> put m v; if rc = 0 then put_seq put m' vs else Some (rc, m') }"

fun get_seq :: "(jk_msg_buf \<Rightarrow> ('a \<times> jk_msg_buf) ub) \<Rightarrow> nat \<Rightarrow> jk_msg_buf \<Rightarrow> ('a list \<times> jk_msg_buf) ub" where
  "get_seq get 0 m = Some ([], m)"
| "get_seq get (Suc n) m =
     do { (v, m') \<leftarrow> get m; (vs, m'') \<leftarrow> get_seq get n m'; Some (v # vs, m'') }"

locale msg_codec =
  fixes put :: "jk_msg_buf \<Rightarrow> 'a \<Rightarrow> (int \<times> jk_msg_buf) ub"
    and get :: "jk_msg_buf \<Rightarrow> ('a \<times> jk_msg_buf) ub"
    and enc :: "'a \<Rightarrow> u8 list"
    and valid :: "'a \<Rightarrow> bool"
  assumes put_spec: "msg_wf m \<Longrightarrow> valid v \<Longrightarrow>
        put m v = Some (if fits m (enc v) then (0, appended m (enc v)) else (-1, m))"
    and get_spec: "msg_wf m \<Longrightarrow> valid v \<Longrightarrow> unread m = enc v @ rest \<Longrightarrow>
        get m = Some (v, advanced m (length (enc v)))"
begin

lemma put_seq_spec:
  assumes "msg_wf m" and "list_all valid vs" and "fits m (concat (map enc vs))"
  shows "put_seq put m vs = Some (0, appended m (concat (map enc vs)))"
  using assms
proof (induction vs arbitrary: m)
  case Nil
  then show ?case by (simp add: appended_def)
next
  case (Cons v vs)
  then have f: "fits m (enc v @ concat (map enc vs))" by simp
  note f1 = fits_append [OF f]
  with Cons.IH [of "appended m (enc v)"] Cons.prems show ?case
    by (simp add: put_spec appended_append)
qed

lemma get_seq_spec:
  assumes "msg_wf m" and "list_all valid vs" and "unread m = concat (map enc vs) @ rest"
  shows "get_seq get (length vs) m = Some (vs, advanced m (length (concat (map enc vs))))"
  using assms
proof (induction vs arbitrary: m)
  case Nil
  then show ?case by (simp add: advanced_def)
next
  case (Cons v vs)
  have u: "unread m = enc v @ (concat (map enc vs) @ rest)" using Cons.prems by simp
  have "get m = Some (v, advanced m (length (enc v)))"
    using Cons.prems u by (intro get_spec) auto
  moreover have "unread (advanced m (length (enc v))) = concat (map enc vs) @ rest"
    using Cons.prems(1) u by (simp add: unread_advanced)
  ultimately show ?case using Cons.IH [of "advanced m (length (enc v))"] Cons.prems
    by simp
qed

lemma put_get_seq:
  assumes wf: "msg_wf m" and v: "list_all valid vs" and f: "fits m (concat (map enc vs))"
    and cur: "mb_pos m = mb_len m"
  shows "\<exists>m'. put_seq put m vs = Some (0, m') \<and> msg_wf m' \<and> payload m' = payload m @ concat (map enc vs)
     \<and> get_seq get (length vs) m' = Some (vs, m'\<lparr>mb_pos := mb_len m'\<rparr>)"
proof -
  let ?m = "appended m (concat (map enc vs))"
  have wf': "msg_wf ?m" using wf f by simp
  have pl: "payload ?m = payload m @ concat (map enc vs)" using wf f by (rule payload_appended)
  have "nat (mb_pos ?m) = length (payload m)"
    using wf cur by (auto simp: payload_def msg_wf_def)
  then have "unread ?m = concat (map enc vs) @ []" using pl by (simp add: unread_def)
  from get_seq_spec [OF wf' v this] put_seq_spec [OF wf v f] wf' pl cur show ?thesis
    by (simp add: advanced_def)
qed

end

interpretation ints: msg_codec jk_b_append_int jk_b_get_int int_bytes "\<lambda>_. True"
  by unfold_locales (auto simp: append_scalar_spec get_int_spec)

interpretation longs: msg_codec jk_b_append_long jk_b_get_long long_bytes "\<lambda>v. v < 2 ^ 31"
  by unfold_locales (auto simp: append_scalar_spec get_long_spec scast_ucast_small)

interpretation bytes: msg_codec jk_b_append_byte jk_b_get_byte "\<lambda>b. [b]" "\<lambda>_. True"
  by unfold_locales (auto simp: append_scalar_spec get_byte_spec)

definition enc_opt :: "string option \<Rightarrow> u8 list" where
  "enc_opt s = (case s of None \<Rightarrow> int_bytes 0xFFFF | Some t \<Rightarrow> enc_string t)"

definition plain_string :: "string option \<Rightarrow> bool" where
  "plain_string s = (case s of None \<Rightarrow> False | Some t \<Rightarrow> is_cstr t \<and> length t < 0xFFFF)"

interpretation strs: msg_codec jk_b_append_string get_str enc_opt plain_string
proof (unfold_locales, goal_cases)
  case (1 m v)
  then show ?case
    by (cases v) (simp_all add: plain_string_def enc_opt_def append_string_spec)
next
  case (2 m v rest)
  then obtain t where "v = Some t" "is_cstr t" "length t < 0xFFFF"
    by (cases v) (auto simp: plain_string_def)
  with 2 show ?case using get_str_spec [OF 2(1), of t rest] by (simp add: enc_opt_def)
qed

section \<open>Properties\<close>

definition appends :: "jk_msg_buf \<Rightarrow> u8 list \<Rightarrow> (int \<times> jk_msg_buf) ub \<Rightarrow> bool" where
  "appends m e r \<longleftrightarrow>
     (\<exists>rc m'. r = Some (rc, m') \<and> msg_wf m'
       \<and> (if mb_len m + int (length e) \<le> mb_maxlen m
          then rc = 0 \<and> payload m' = payload m @ e else rc = -1 \<and> m' = m))"


definition demo_msg :: jk_msg_buf where
  "demo_msg = \<lparr>mb_buf = replicate 16 0, mb_pos = 4, mb_len = 4, mb_maxlen = 16\<rparr>"

lemma demo_msg_wf: "msg_wf demo_msg"
  by (simp add: msg_wf_def demo_msg_def)


text \<open>Claim C12: a list of strings (NUL-free, shorter than 65535 bytes) that fits into the message is
  written by \<open>jk_b_append_string\<close> and read back unchanged by \<open>jk_b_get_string\<close>, leaving the read
  cursor at the end of the message.\<close>

theorem msg_strings_roundtrip:
  assumes "msg_wf m" and "list_all plain_string ss" and "fits m (concat (map enc_opt ss))"
    and "mb_pos m = mb_len m"
  shows "\<exists>m'. put_seq jk_b_append_string m ss = Some (0, m') \<and> msg_wf m'
     \<and> payload m' = payload m @ concat (map enc_opt ss)
     \<and> get_seq get_str (length ss) m' = Some (ss, m'\<lparr>mb_pos := mb_len m'\<rparr>)"
  using assms by (rule strs.put_get_seq)

theorem msg_strings_roundtrip_witness:
  "\<exists>m'. put_seq jk_b_append_string demo_msg [Some ''ab'', Some ''''] = Some (0, m')
     \<and> get_seq get_str 2 m' = Some ([Some ''ab'', Some ''''], m'\<lparr>mb_pos := mb_len m'\<rparr>)"
proof -
  have "list_all plain_string [Some ''ab'', Some '''']"
    by (simp add: plain_string_def is_cstr_def)
  moreover have "fits demo_msg (concat (map enc_opt [Some ''ab'', Some '''']))"
    by (simp add: fits_def demo_msg_def enc_opt_def)
  ultimately show ?thesis
    using msg_strings_roundtrip [OF demo_msg_wf, of "[Some ''ab'', Some '''']"]
    by (auto simp: demo_msg_def numeral_2_eq_2)
qed

text \<open>\<open>jk_b_end\<close> puts the protocol magic and the payload length (without the four header
  bytes, below \<open>2^16\<close>) in front, where \<open>jk_b_pget_int\<close> finds them, and changes no other byte.\<close>

theorem msg_frame:
  assumes "msg_wf m" and "4 \<le> mb_len m" and "mb_len m - 4 < 65536"
  shows "\<exists>m'. jk_b_end m protoh = Some m' \<and> msg_wf m'
     \<and> jk_b_pget_int m' 0 = Some (word_of_int protoh)
     \<and> jk_b_pget_int m' 2 = Some (word_of_int (mb_len m - 4))
     \<and> uint (word_of_int (mb_len m - 4) :: u16) = mb_len m - 4
     \<and> drop 4 (payload m') = drop 4 (payload m)"
proof -
  let ?hdr = "[word_of_int (protoh div 256), word_of_int protoh,
                  word_of_int ((mb_len m - 4) div 256), word_of_int (mb_len m - 4)] :: u8 list"
  let ?b = "splice (mb_buf m) 0 ?hdr"
  have len: "4 \<le> length (mb_buf m)" using assms by (auto simp: msg_wf_def)
  then have e: "jk_b_end m protoh = Some (m\<lparr>mb_buf := ?b\<rparr>)"
    by (simp add: jk_b_end_def pokei_def poke_in Let_def del: poke.simps)
  have two: "int_of_bytes (word_of_int (k div 256)) (word_of_int k) = word_of_int k" for k :: int
  proof -
    have "k div 256 = drop_bit 8 k" by (simp add: drop_bit_eq_div)
    then have "word_of_int (k div 256) = (ucast (drop_bit 8 (word_of_int k :: u16)) :: u8)"
      by (intro bit_word_eqI) (auto simp: bit_simps)
    moreover have "word_of_int k = (ucast (word_of_int k :: u16) :: u8)"
      by (rule bit_word_eqI) (auto simp: bit_simps)
    ultimately have
      "word_of_int (k div 256) = (ucast (drop_bit 8 (word_of_int k :: u16)) :: u8)"
      "word_of_int k = (ucast (word_of_int k :: u16) :: u8)"
      by blast+
    then show ?thesis by (simp only: int_of_bytes_inverse)
  qed
  have "drop 4 (payload (m\<lparr>mb_buf := ?b\<rparr>)) = drop 4 (payload m)"
    using assms(2) by (simp add: payload_def drop_take drop_splice_front)
  moreover have "uint (word_of_int (mb_len m - 4) :: u16) = mb_len m - 4"
    unfolding uint_word_of_int using assms(2,3) by simp
  ultimately show ?thesis using assms e len two [of protoh] two [of "mb_len m - 4"]
    by (simp add: msg_wf_def jk_b_pget_int_def rdi_def nth_splice_front)
qed

theorem msg_frame_witness:
  "\<exists>m'. jk_b_end (demo_msg\<lparr>mb_len := 12\<rparr>) 0x1234 = Some m' \<and> jk_b_pget_int m' 0 = Some 0x1234
     \<and> jk_b_pget_int m' 2 = Some 8"
  using msg_frame [of "demo_msg\<lparr>mb_len := 12\<rparr>" "0x1234"]
  by (auto simp: demo_msg_def msg_wf_def)

text \<open>Claim C26: the bounds checks of the readers are one byte too weak: on a well-formed message
  \<open>jk_b_get_byte\<close>, \<open>jk_b_get_int\<close> and \<open>jk_b_get_long\<close> read outside the buffer exactly when the
  message fills its buffer and 0, 1 or 3 bytes are left to read.\<close>

theorem msg_read_faults:
  assumes "msg_wf m"
  shows "(jk_b_get_byte m = None) = (mb_pos m = mb_len m \<and> mb_len m = mb_maxlen m)
    \<and> (jk_b_get_int m = None) = (mb_pos m + 1 = mb_len m \<and> mb_len m = mb_maxlen m)
    \<and> (jk_b_get_long m = None) = (mb_pos m + 3 = mb_len m \<and> mb_len m = mb_maxlen m)"
proof -
  have rdi: "rdi (mb_buf m) i
      = (if 0 \<le> i \<and> i < mb_maxlen m then Some (mb_buf m ! nat i) else None)" for i
    using assms by (auto simp: rdi_def rd_def msg_wf_def)
  show ?thesis using assms
    by (auto simp: jk_b_get_byte_def jk_b_get_int_def jk_b_get_long_def rdi msg_wf_def)
qed

theorem msg_read_faults_witness:
  "jk_b_get_int (demo_msg\<lparr>mb_len := 16, mb_pos := 15\<rparr>) = None"
  using msg_read_faults [of "demo_msg\<lparr>mb_len := 16, mb_pos := 15\<rparr>"]
  by (auto simp: demo_msg_def msg_wf_def)

text \<open>\<open>jk_b_get_long\<close> does not return the 32-bit value that \<open>jk_b_append_long\<close> wrote when
  its top bit is set: on a platform with a 64-bit \<open>unsigned long\<close> the result is sign-extended.\<close>

theorem msg_long_sign_extended:
  assumes "msg_wf m" and "unread m = long_bytes v @ rest" and "bit v 31" and "v < 2 ^ 32"
  shows "jk_b_get_long m = Some (v OR 0xFFFFFFFF00000000, advanced m 4)"
proof -
  have hi: "(0xFFFFFFFF00000000 :: u64) = NOT (mask 32)"
    by (simp add: mask_eq_exp_minus_1 not_eq_complement)
  have "scast (ucast v :: u32) = v OR NOT (mask 32)"
  proof (rule bit_word_eqI, goal_cases)
    case (1 n)
    consider "n < 31" | "n = 31" | "31 < n" by linarith
    then show ?case using 1 assms(3) by cases (auto simp: bit_simps min_def)
  qed
  then show ?thesis using get_long_spec [OF assms(1,2)] hi by simp
qed

theorem msg_long_sign_extended_witness:
  "jk_b_get_long \<lparr>mb_buf = [0x80, 0, 0, 1], mb_pos = 0, mb_len = 4, mb_maxlen = 4\<rparr>
     = Some (0xFFFFFFFF80000001,
         \<lparr>mb_buf = [0x80, 0, 0, 1], mb_pos = 4, mb_len = 4, mb_maxlen = 4\<rparr>)"
proof -
  let ?m = "\<lparr>mb_buf = [0x80, 0, 0, 1], mb_pos = 0, mb_len = 4, mb_maxlen = 4\<rparr>"
  have "msg_wf ?m" by (simp add: msg_wf_def)
  moreover have "unread ?m = long_bytes 0x80000001 @ []"
    by (simp add: unread_def payload_def long_bytes_def)
  moreover have "bit (0x80000001 :: u64) 31" by simp
  ultimately show ?thesis using msg_long_sign_extended [of ?m "0x80000001" "[]"]
    by (simp add: advanced_def)
qed

text \<open>\<open>jk_b_append_string\<close> truncates the length to 16 bits: a string of \<open>65536 + k\<close> bytes
  is accepted and sent as its first \<open>k + 1\<close> bytes, announced as \<open>k\<close>, without a terminator.\<close>

theorem msg_string_truncated:
  assumes "msg_wf m" and "length s = 65536 + k" and "k < 65536" and "mb_len m + int k + 3 \<le> mb_maxlen m"
  shows "\<exists>m'. jk_b_append_string m (Some s) = Some (0, m')
     \<and> payload m' = payload m @ int_bytes (of_nat k) @ bytes_of (take (k + 1) s)"
proof -
  let ?n = "of_nat k :: u16" and ?bs = "bytes_of (take (k + 1) s)"
  have "(of_nat (65536 + k) :: u16) = of_nat 65536 + ?n" by (rule of_nat_add)
  moreover have "(of_nat 65536 :: u16) = 0" by simp
  ultimately have n: "(of_nat (length s) :: u16) = ?n" using assms(2) by simp
  have k: "unat ?n = k" "uint ?n = int k" using assms(3) by (simp_all add: u16_of_nat)
  have take: "take (k + 1) (bytes_of s @ [0]) = ?bs" using assms(2,3) by (simp add: bytes_of_def take_map)
  have f: "fits m (int_bytes ?n @ ?bs)" using assms by (simp add: fits_def)
  note f1 = fits_append [OF f]
  have "put_bytes (appended m (int_bytes ?n)) ?bs = Some (appended m (int_bytes ?n @ ?bs))"
    using put_bytes_ok [of "appended m (int_bytes ?n)" ?bs] f1 assms(1) f by (simp add: appended_append)
  then have "jk_b_append_string m (Some s) = Some (0, appended m (int_bytes ?n @ ?bs))"
    using f1 assms(1,4) k take by (simp add: jk_b_append_string_def append_scalar_spec n)
  then show ?thesis using payload_appended [OF assms(1) f] by simp
qed

theorem msg_string_truncated_witness:
  "\<exists>m'. jk_b_append_string demo_msg (Some (replicate 65536 CHR ''a'')) = Some (0, m')
     \<and> payload m' = replicate 4 0 @ [0, 0, 97]"
  using msg_string_truncated [OF demo_msg_wf, of "replicate 65536 CHR ''a''" 0]
  by (auto simp: demo_msg_def payload_def int_bytes_def bytes_of_def code_def)

end
