(* ===== verification/Jk_Url.thy ===== *)
theory Jk_Url
  imports Jk_Prelude
begin

text \<open>
  URL encoding and decoding (\<open>jk_url.c\<close>), in its ASCII variant.

  The source string is walked by its suffix (the pointer \<open>s\<close>, or \<open>x + i\<close>), the destination is a
  buffer written by index, and a store outside it is undefined. \<open>slen\<close> is a \<open>size_t\<close>: its
  decrements wrap. The theorems give the exact result of the encoder, of the decoder in its two
  modes, the round trip of the pair, and the behaviour of the decoder for a bounded \<open>slen\<close>.
\<close>

section \<open>Characters as numbers\<close>

text \<open>The value of a (signed) \<open>char\<close> promoted to \<open>int\<close>, and the conversion of an \<open>int\<close> to \<open>char\<close>.\<close>

definition schar :: "char \<Rightarrow> int" where
  "schar c = (if code c < 128 then int (code c) else int (code c) - 256)"

definition to_char :: "int \<Rightarrow> char" where
  "to_char i = char_of (nat (i mod 256))"

section \<open>The encoder\<close>

definition jk_c2hex :: "char \<Rightarrow> string" where
  "jk_c2hex ch =
     (let i = (schar ch AND 0xF0) div 16;
          k = schar ch AND 0x0F
      in [CHR ''%'',
          (if i \<ge> 10 then to_char ((65 - 10) + i) else to_char (48 + i)),
          (if k \<ge> 10 then to_char ((65 - 10) + k) else to_char (48 + k))])"

definition allowed :: string where
  "allowed = [CHR ''~'', CHR ''$'', CHR ''-'', CHR ''_'', CHR ''.'', CHR ''+'', CHR ''!'', CHR ''*'',
     CHR 0x27, CHR ''('', CHR '')'', CHR '','', CHR '';'', CHR '':'', CHR ''@'', CHR ''&'', CHR ''='']"

definition reserved_enc :: string where
  "reserved_enc = ''/''"

definition canonenc_end :: "string \<Rightarrow> nat \<Rightarrow> int \<Rightarrow> (bool \<times> string) ub" where
  "canonenc_end y j maxlen =
     (if int j < maxlen then do { y' \<leftarrow> wr y j NUL; Some (True, y') } else Some (False, y))"

fun canonenc_loop :: "string \<Rightarrow> string \<Rightarrow> nat \<Rightarrow> int \<Rightarrow> (bool \<times> string) ub" where
  "canonenc_loop [] y j maxlen = canonenc_end y j maxlen"
| "canonenc_loop (ch # x) y j maxlen =
     (if int j < maxlen then
        if ch \<in> set reserved_enc then do { y' \<leftarrow> wr y j ch; canonenc_loop x y' (j + 1) maxlen }
        else if \<not> jk_isalnum ch \<and> ch \<notin> set allowed then
          do {
            guard (int j + 2 < 2 ^ 31);
            if int j + 2 < maxlen then
              do { y' \<leftarrow> poke y j (jk_c2hex ch); canonenc_loop x y' (j + 3) maxlen }
            else Some (False, y)
          }
        else do { y' \<leftarrow> wr y j ch; canonenc_loop x y' (j + 1) maxlen }
      else canonenc_end y j maxlen)"

definition jk_canonenc :: "string \<Rightarrow> string \<Rightarrow> int \<Rightarrow> (bool \<times> string) ub" where
  "jk_canonenc x y maxlen = canonenc_loop x y 0 maxlen"

section \<open>The decoder\<close>

definition x2c_digit :: "char \<Rightarrow> int" where
  "x2c_digit c = (if schar c \<ge> 65 then ((schar c AND 0xdf) - 65) + 10 else schar c - 48)"

definition x2c :: "char \<Rightarrow> char \<Rightarrow> char" where
  "x2c a b = to_char (schar (to_char (schar (to_char (x2c_digit a)) * 16)) + x2c_digit b)"

text \<open>Whether the two bytes behind a \<open>%\<close> are hexadecimal digits: the second is read only when the
  first is one, so the read stops at the terminator.\<close>

definition hex_follows :: "string \<Rightarrow> bool ub" where
  "hex_follows s = do {
     a \<leftarrow> cat s 0;
     if \<not> jk_isxdigit a then Some False
     else do { b \<leftarrow> cat s 1; Some (jk_isxdigit b) } }"

definition in_opt :: "char \<Rightarrow> string option \<Rightarrow> bool" where
  "in_opt c s = (case s of None \<Rightarrow> False | Some t \<Rightarrow> c \<in> set t)"

record unesc =
  un_size :: u64
  un_found :: bool
  un_badesc :: bool
  un_badpath :: bool

text \<open>One turn of the loop in the mode that writes: the arguments are the suffix behind \<open>*s\<close>, the
  destination and its index.\<close>

fun unescape_buf :: "string option \<Rightarrow> string option \<Rightarrow> bool \<Rightarrow> string \<Rightarrow> u64 \<Rightarrow> string \<Rightarrow> nat \<Rightarrow> unesc
     \<Rightarrow> (string \<times> unesc) ub" where
  "unescape_buf forbid reserved form [] slen y d st = do { y' \<leftarrow> wr y d NUL; Some (y', st) }"
| "unescape_buf forbid reserved form (c # s) slen y d st =
     (if slen = 0 then do { y' \<leftarrow> wr y d NUL; Some (y', st) }
      else if form \<and> c = CHR ''+'' then
        do { y' \<leftarrow> wr y d (CHR '' '');
             unescape_buf forbid reserved form s (slen - 1) y' (d + 1)
               (st\<lparr>un_found := True, un_size := un_size st + 1\<rparr>) }
      else if c \<noteq> CHR ''%'' then
        do { y' \<leftarrow> wr y d c;
             unescape_buf forbid reserved form s (slen - 1) y' (d + 1)
               (st\<lparr>un_size := un_size st + 1\<rparr>) }
      else do {
        hex \<leftarrow> hex_follows s;
        if \<not> hex then
          do { y' \<leftarrow> wr y d (CHR ''%'');
               unescape_buf forbid reserved form s (slen - 1) y' (d + 1)
                 (st\<lparr>un_badesc := True, un_size := un_size st + 1\<rparr>) }
        else do {
          a \<leftarrow> cat s 0;
          b \<leftarrow> cat s 1;
          let decoded = x2c a b in
          if decoded = NUL \<or> in_opt decoded forbid then
            do { y' \<leftarrow> wr y d decoded;
                 unescape_buf forbid reserved form (drop 2 s) (slen - 2 - 1) y' (d + 1)
                   (st\<lparr>un_badpath := True, un_size := un_size st + 1\<rparr>) }
          else if in_opt decoded reserved then
            do { y1 \<leftarrow> wr y d c;
                 y2 \<leftarrow> wr y1 (d + 1) a;
                 y3 \<leftarrow> wr y2 (d + 2) b;
                 unescape_buf forbid reserved form (drop 2 s) (slen - 1) y3 (d + 3)
                   (st\<lparr>un_size := un_size st + 2 + 1\<rparr>) }
          else
            do { y' \<leftarrow> wr y d decoded;
                 unescape_buf forbid reserved form (drop 2 s) (slen - 2 - 1) y' (d + 1)
                   (st\<lparr>un_found := True, un_size := un_size st + 1\<rparr>) }
        }
      })"

text \<open>The mode with a null destination only counts.\<close>

fun unescape_null :: "string option \<Rightarrow> string option \<Rightarrow> bool \<Rightarrow> string \<Rightarrow> u64 \<Rightarrow> unesc \<Rightarrow> unesc ub" where
  "unescape_null forbid reserved form [] slen st = Some st"
| "unescape_null forbid reserved form (c # s) slen st =
     (if slen = 0 then Some st
      else if form \<and> c = CHR ''+'' then
        unescape_null forbid reserved form s (slen - 1)
          (st\<lparr>un_found := True, un_size := un_size st + 1\<rparr>)
      else if c \<noteq> CHR ''%'' then
        unescape_null forbid reserved form s (slen - 1) (st\<lparr>un_size := un_size st + 1\<rparr>)
      else do {
        hex \<leftarrow> hex_follows s;
        if \<not> hex then
          unescape_null forbid reserved form s (slen - 1)
            (st\<lparr>un_badesc := True, un_size := un_size st + 1\<rparr>)
        else do {
          a \<leftarrow> cat s 0;
          b \<leftarrow> cat s 1;
          let decoded = x2c a b in
          if decoded = NUL \<or> in_opt decoded forbid then
            unescape_null forbid reserved form (drop 2 s) (slen - 2 - 1)
              (st\<lparr>un_badpath := True, un_size := un_size st + 1\<rparr>)
          else if in_opt decoded reserved then
            unescape_null forbid reserved form (drop 2 s) (slen - 2 - 1)
              (st\<lparr>un_size := un_size st + 2 + 1\<rparr>)
          else
            unescape_null forbid reserved form (drop 2 s) (slen - 2 - 1)
              (st\<lparr>un_found := True, un_size := un_size st + 1\<rparr>)
        }
      })"

text \<open>The result: the returned flag, the destination and the value stored through \<open>len\<close> (no value
  when \<open>url\<close> is null).\<close>

definition jk_unescape_url :: "string option \<Rightarrow> string option \<Rightarrow> u64 \<Rightarrow> string option \<Rightarrow> string option
     \<Rightarrow> bool \<Rightarrow> (bool \<times> string option \<times> u64 option) ub" where
  "jk_unescape_url unescaped url slen forbid reserved form =
     (case url of
        None \<Rightarrow> Some (False, unescaped, None)
      | Some s \<Rightarrow>
          let st0 = \<lparr>un_size = 1, un_found = False, un_badesc = False, un_badpath = False\<rparr> in
          do {
            (y, st) \<leftarrow>
              (case unescaped of
                 Some d \<Rightarrow> do { (y, st) \<leftarrow> unescape_buf forbid reserved form s slen d 0 st0; Some (Some y, st) }
               | None \<Rightarrow> do { st \<leftarrow> unescape_null forbid reserved form s slen st0; Some (None, st) });
            Some (if un_badesc st then False else if un_badpath st then False else True,
                  y, Some (un_size st))
          })"

section \<open>Hexadecimal digits\<close>

definition hexdig :: "nat \<Rightarrow> char" where
  "hexdig h = char_of (if h \<ge> 10 then 55 + h else 48 + h)"

lemma schar_mod: "schar c mod 256 = int (code c)"
  using code_less_256 [of c] by (auto simp: schar_def)

lemma schar_low: "schar c AND 15 = int (code c mod 16)"
proof -
  have "schar c AND 15 = take_bit 4 (schar c)"
    by (simp add: take_bit_eq_mask mask_eq_exp_minus_1)
  also have "\<dots> = (schar c mod 256) mod 16" by (simp add: take_bit_eq_mod mod_mod_cancel)
  finally show ?thesis by (simp add: schar_mod zmod_int)
qed

lemma schar_high: "(schar c AND 240) div 16 = int (code c div 16)"
proof -
  have "(schar c AND 240) div 16 = drop_bit 4 (schar c AND 240)" by (simp add: drop_bit_eq_div)
  also have "\<dots> = drop_bit 4 (schar c) AND 15" by (simp add: drop_bit_and)
  also have "\<dots> = take_bit 4 (drop_bit 4 (schar c))" by (simp add: take_bit_eq_mask mask_eq_exp_minus_1)
  also have "\<dots> = (schar c div 16) mod 16" by (simp add: take_bit_eq_mod drop_bit_eq_div)
  also have "\<dots> = (schar c mod 256) div 16"
    using mod_mult_div_eq [of 1 1] by (simp add: zmod_zmult2_eq [of 16 "schar c" 16, simplified])
  finally show ?thesis by (simp add: schar_mod zdiv_int)
qed

lemma code_div_16 [simp]: "code c div 16 < 16"
  using code_less_256 [of c] by (simp add: less_mult_imp_div_less)

lemma to_char_int: "to_char (int n) = char_of n"
proof -
  have "nat (int n mod 256) = n mod 256" by (simp add: nat_mod_as_int)
  then show ?thesis by (simp add: to_char_def char_of_mod_256)
qed

lemma c2hex_hexdig: "jk_c2hex c = [CHR ''%'', hexdig (code c div 16), hexdig (code c mod 16)]"
proof -
  have "to_char (55 + int n) = char_of (55 + n)" "to_char (48 + int n) = char_of (48 + n)" for n
    using to_char_int [of "55 + n"] to_char_int [of "48 + n"] by simp_all
  then show ?thesis
    by (simp add: jk_c2hex_def schar_low schar_high Let_def hexdig_def)
qed

lemma less_16_cases: "n < 16 \<longleftrightarrow> n \<in> {0, 1, 2, 3, 4, 5, 6, 7, 8, 9, 10, 11, 12, 13, 14, 15 :: nat}"
  by (simp; presburger)

lemma hexdig_digit:
  assumes "h < 16"
  shows "x2c_digit (hexdig h) = int h" and "jk_isxdigit (hexdig h)" and "isdigit (hexdig h) \<or> isupper (hexdig h)"
  using assms unfolding less_16_cases
  by (auto simp: x2c_digit_def hexdig_def schar_def jk_isxdigit_def isdigit_def isupper_def)

lemma x2c_hexdig:
  assumes "h < 16" and "l < 16"
  shows "x2c (hexdig h) (hexdig l) = char_of (16 * h + l)"
proof -
  have "(schar (to_char (int h * 16)) + int l) mod 256 = (schar (to_char (int h * 16)) mod 256 + int l) mod 256"
    by (simp add: mod_simps)
  also have "\<dots> = (int h * 16 + int l) mod 256"
    using assms by (simp add: schar_mod to_char_def)
  also have "\<dots> = int (16 * h + l)" using assms by simp
  finally have e: "to_char (schar (to_char (int h * 16)) + int l) = char_of (16 * h + l)"
    by (simp only: to_char_def nat_int)
  have "schar (to_char (int h)) = int h" using assms by (simp add: to_char_def schar_def)
  with e assms show ?thesis by (simp add: x2c_def hexdig_digit)
qed

lemma x2c_c2hex: "x2c (hexdig (code c div 16)) (hexdig (code c mod 16)) = c"
  by (subst x2c_hexdig) simp_all


section \<open>What the encoder computes\<close>

definition canon_char :: "char \<Rightarrow> string" where
  "canon_char c = (if c = CHR ''/'' \<or> jk_isalnum c \<or> c \<in> set allowed then [c] else jk_c2hex c)"

definition canon :: "string \<Rightarrow> string" where
  "canon x = concat (map canon_char x)"

lemma canon_simps [simp]: "canon [] = []" "canon (c # x) = canon_char c @ canon x"
  by (simp_all add: canon_def)

lemma length_c2hex [simp]: "length (jk_c2hex c) = 3"
  by (simp add: c2hex_hexdig)

lemma canonenc_step:
  "canonenc_loop (ch # x) y j maxlen =
     (if int (j + length (canon_char ch)) \<le> maxlen \<and> int j < maxlen
      then do { y' \<leftarrow> poke y j (canon_char ch); canonenc_loop x y' (j + length (canon_char ch)) maxlen }
      else Some (False, y))"
  if "maxlen \<le> 2 ^ 31 - 2"
  using that by (auto simp: canon_char_def poke_one reserved_enc_def canonenc_end_def guard_def simp del: poke.simps)

lemma canonenc_loop_spec:
  assumes "j \<le> nat maxlen" and "nat maxlen \<le> length y" and "maxlen \<le> 2 ^ 31 - 2"
  shows "\<exists>y'. canonenc_loop x y j maxlen = Some (int (j + length (canon x)) < maxlen, y')
    \<and> length y' = length y \<and> take j y' = take j y \<and> drop (nat maxlen) y' = drop (nat maxlen) y
    \<and> (int (j + length (canon x)) < maxlen \<longrightarrow>
          take (j + length (canon x) + 1) y' = take j y @ canon x @ [NUL])"
  using assms
proof (induction x arbitrary: y j)
  case Nil
  then show ?case
    by (auto simp: canonenc_end_def take_Suc_conv_app_nth simp flip: nat_less_iff)
next
  case (Cons ch x)
  let ?e = "canon_char ch"
  show ?case
  proof (cases "int (j + length ?e) \<le> maxlen \<and> int j < maxlen")
    case True
    then have fits: "j + length ?e \<le> length y" using Cons.prems by linarith
    let ?y = "splice y j ?e"
    have le: "j + length ?e \<le> nat maxlen" using True by linarith
    have "nat maxlen \<le> length ?y" using Cons.prems fits by simp
    from Cons.IH [OF le this Cons.prems(3)] obtain y' where
      y': "canonenc_loop x ?y (j + length ?e) maxlen = Some (int (j + length ?e + length (canon x)) < maxlen, y')"
        "length y' = length ?y" "take (j + length ?e) y' = take (j + length ?e) ?y"
        "drop (nat maxlen) y' = drop (nat maxlen) ?y"
        "int (j + length ?e + length (canon x)) < maxlen \<longrightarrow>
          take (j + length ?e + length (canon x) + 1) y' = take (j + length ?e) ?y @ canon x @ [NUL]" by blast
    have t: "take (j + length ?e) ?y = take j y @ ?e" using fits by (rule take_splice)
    have "take j (take (j + length ?e) y') = take j (take j y @ ?e)" unfolding y'(3) t ..
    then have tj: "take j y' = take j y" using fits by simp
    have d: "drop (nat maxlen) ?y = drop (nat maxlen) y"
      using fits le by (simp add: splice_def)
    show ?thesis
      using y' t tj d True fits
      by (intro exI [of _ y'])
        (simp add: canonenc_step [OF Cons.prems(3)] poke_in add.assoc del: canonenc_loop.simps)
  next
    case False
    have "0 < length ?e" using length_c2hex [of ch] by (auto simp: canon_char_def simp del: length_c2hex)
    with False have "\<not> int (j + length (canon (ch # x))) < maxlen" by simp
    then show ?thesis
      using False Cons.prems
      by (auto simp add: canonenc_step [OF Cons.prems(3)] simp del: canonenc_loop.simps)
  qed
qed



section \<open>What the decoder computes\<close>

text \<open>The decoded text of a whole string, and whether an escape in it is malformed or decodes to a
  null or forbidden character.\<close>

definition escape_at :: "string \<Rightarrow> bool" where
  "escape_at s \<longleftrightarrow> 2 \<le> length s \<and> jk_isxdigit (s ! 0) \<and> jk_isxdigit (s ! 1)"

record decoding =
  dec_text :: string
  dec_found :: bool
  dec_badesc :: bool
  dec_badpath :: bool

fun unescaped :: "string option \<Rightarrow> string option \<Rightarrow> bool \<Rightarrow> string \<Rightarrow> decoding" where
  "unescaped forbid reserved form [] =
     \<lparr>dec_text = [], dec_found = False, dec_badesc = False, dec_badpath = False\<rparr>"
| "unescaped forbid reserved form (c # s) =
     (if c \<noteq> CHR ''%'' then
        let r = unescaped forbid reserved form s in
        if form \<and> c = CHR ''+'' then r\<lparr>dec_text := CHR '' '' # dec_text r, dec_found := True\<rparr>
        else r\<lparr>dec_text := c # dec_text r\<rparr>
      else if \<not> escape_at s then
        let r = unescaped forbid reserved form s in r\<lparr>dec_text := c # dec_text r, dec_badesc := True\<rparr>
      else
        let e = x2c (s ! 0) (s ! 1); r = unescaped forbid reserved form (drop 2 s) in
        if e = NUL \<or> in_opt e forbid then r\<lparr>dec_text := e # dec_text r, dec_badpath := True\<rparr>
        else if in_opt e reserved then r\<lparr>dec_text := c # s ! 0 # s ! 1 # dec_text r\<rparr>
        else r\<lparr>dec_text := e # dec_text r, dec_found := True\<rparr>)"

lemma not_xdigit_NUL [simp]: "\<not> jk_isxdigit NUL"
  by (simp add: jk_isxdigit_def isdigit_def)

lemma hex_follows_escape: "hex_follows s = Some (escape_at s)"
  by (cases s; cases "tl s") (auto simp: hex_follows_def cat_def escape_at_def)

lemma cat_in: "escape_at s \<Longrightarrow> cat s 0 = Some (s ! 0) \<and> cat s (Suc 0) = Some (s ! Suc 0)"
  by (cases s; cases "tl s") (simp_all add: cat_def escape_at_def)

lemma url_induct [case_names Nil Plain Bad Escape]:
  assumes "P []"
    and "\<And>c s. c \<noteq> CHR ''%'' \<Longrightarrow> P s \<Longrightarrow> P (c # s)"
    and "\<And>s. \<not> escape_at s \<Longrightarrow> P s \<Longrightarrow> P (CHR ''%'' # s)"
    and "\<And>s. escape_at s \<Longrightarrow> P (drop 2 s) \<Longrightarrow> P (CHR ''%'' # s)"
  shows "P s"
proof (induction s rule: length_induct)
  case (1 s)
  then show ?case
  proof (cases s)
    case (Cons c t)
    with 1 have "P t" "P (drop 2 t)" by auto
    with assms(2-4) show ?thesis unfolding Cons by (cases "c = CHR ''%''"; cases "escape_at t") auto
  qed (simp add: assms)
qed

lemma slen_dec:
  assumes "n + k \<le> unat (w :: u64)" and "k < 2 ^ 64"
  shows "n \<le> unat (w - of_nat k)"
proof -
  have k: "unat (of_nat k :: u64) = k" using assms(2) by (simp add: unsigned_of_nat take_bit_eq_mod)
  then have "(of_nat k :: u64) \<le> w" using assms(1) by (simp add: word_le_nat_alt)
  then have "unat (w - of_nat k) = unat w - k" using k by (simp add: unat_sub)
  then show ?thesis using assms(1) by simp
qed

lemma slen_dec_1: "Suc n \<le> unat (w :: u64) \<Longrightarrow> n \<le> unat (w - 1)"
  and slen_dec_3: "n + 3 \<le> unat (w :: u64) \<Longrightarrow> n \<le> unat (w - 2 - 1)"
  using slen_dec [of n 1 w] slen_dec [of n 3 w] by simp_all

definition unesc_add :: "unesc \<Rightarrow> decoding \<Rightarrow> unesc" where
  "unesc_add st r = \<lparr>un_size = un_size st + of_nat (length (dec_text r)), un_found = (un_found st \<or> dec_found r),
     un_badesc = (un_badesc st \<or> dec_badesc r), un_badpath = (un_badpath st \<or> dec_badpath r)\<rparr>"

lemma unescape_null_spec:
  "length s \<le> unat slen \<Longrightarrow>
   unescape_null forbid reserved form s slen st = Some (unesc_add st (unescaped forbid reserved form s))"
proof (induction s arbitrary: slen st rule: url_induct)
  case Nil
  then show ?case by (cases st) (simp add: unesc_add_def)
next
  case (Plain c s)
  then have "slen \<noteq> 0" "length s \<le> unat (slen - 1)" by (auto intro: slen_dec_1)
  with Plain show ?case by (cases form) (simp_all add: unesc_add_def Let_def)
next
  case (Bad s)
  then have "slen \<noteq> 0" "length s \<le> unat (slen - 1)" by (auto intro: slen_dec_1)
  with Bad show ?case by (simp add: unesc_add_def Let_def hex_follows_escape)
next
  case (Escape s)
  have "length (drop 2 s) + 3 \<le> unat slen" using Escape.prems Escape.hyps by (simp add: escape_at_def)
  then have "slen \<noteq> 0" "length (drop 2 s) \<le> unat (slen - 3)" using slen_dec_3 [of "length (drop 2 s)" slen] by auto
  with Escape show ?case by (simp add: unesc_add_def Let_def hex_follows_escape cat_in)
qed

text \<open>What the decoder writes is never longer than its input.\<close>

lemma length_unescaped: "length (dec_text (unescaped forbid reserved form s)) \<le> length s"
proof (induction s rule: url_induct)
  case (Escape s)
  then show ?case by (auto simp: Let_def escape_at_def)
qed (auto simp: Let_def)

lemma splice_step: "d < length y \<Longrightarrow> d + length v < length y \<Longrightarrow>
   splice (y[d := c]) (Suc d) v = splice y d (c # v)"
  by (simp add: splice_def take_Suc_conv_app_nth)

lemma unescape_buf_spec:
  "length s \<le> unat slen \<Longrightarrow> d + length (dec_text (unescaped forbid reserved form s)) < length y \<Longrightarrow>
   unescape_buf forbid reserved form s slen y d st =
      Some (splice y d (dec_text (unescaped forbid reserved form s) @ [NUL]), unesc_add st (unescaped forbid reserved form s))"
proof (induction s arbitrary: slen st y d rule: url_induct)
  case Nil
  then show ?case by (cases st) (simp add: unesc_add_def splice_def upd_conv_take_nth_drop)
next
  case (Plain c s)
  then have "slen \<noteq> 0" "length s \<le> unat (slen - 1)" by (auto intro: slen_dec_1)
  with Plain show ?case by (cases form) (simp_all add: unesc_add_def Let_def splice_step split: if_splits)
next
  case (Bad s)
  then have "slen \<noteq> 0" "length s \<le> unat (slen - 1)" by (auto intro: slen_dec_1)
  with Bad show ?case by (simp add: unesc_add_def Let_def splice_step hex_follows_escape)
next
  case (Escape s)
  have l: "length (drop 2 s) + 3 \<le> unat slen" using Escape.prems Escape.hyps by (simp add: escape_at_def)
  then have "slen \<noteq> 0" "length (drop 2 s) \<le> unat (slen - 3)" using slen_dec_3 [of "length (drop 2 s)" slen] by auto
  moreover have "length (drop 2 s) \<le> unat (slen - 1)" using l by (intro slen_dec_1) simp
  ultimately show ?case using Escape
    by (auto simp: unesc_add_def Let_def hex_follows_escape cat_in splice_step numeral_3_eq_3 split: if_splits)
qed


lemma jk_unescape_url_buf:
  assumes "length s \<le> unat slen" and "length (dec_text (unescaped forbid reserved form s)) < length y"
  shows "jk_unescape_url (Some y) (Some s) slen forbid reserved form =
    Some (\<not> dec_badesc (unescaped forbid reserved form s) \<and> \<not> dec_badpath (unescaped forbid reserved form s),
      Some (splice y 0 (dec_text (unescaped forbid reserved form s) @ [NUL])),
      Some (1 + of_nat (length (dec_text (unescaped forbid reserved form s)))))"
  using assms by (simp add: jk_unescape_url_def Let_def unescape_buf_spec unesc_add_def)

lemma jk_unescape_url_null:
  assumes "length s \<le> unat slen"
  shows "jk_unescape_url None (Some s) slen forbid reserved form =
    Some (\<not> dec_badesc (unescaped forbid reserved form s) \<and> \<not> dec_badpath (unescaped forbid reserved form s),
      None, Some (1 + of_nat (length (dec_text (unescaped forbid reserved form s)))))"
  using assms by (simp add: jk_unescape_url_def Let_def unescape_null_spec unesc_add_def)

text \<open>Encoded text decodes to itself.\<close>

lemma percent_not_allowed: "CHR ''%'' \<notin> set allowed" "\<not> jk_isalnum (CHR ''%'')"
  by (simp_all add: allowed_def jk_isalnum_def isdigit_def isupper_def islower_def code_def)

lemma unescaped_canon:
  "is_cstr x \<Longrightarrow> unescaped None None False (canon x) =
     \<lparr>dec_text = x, dec_found = list_ex (\<lambda>c. length (canon_char c) = 3) x, dec_badesc = False, dec_badpath = False\<rparr>"
proof (induction x)
  case (Cons c x)
  have "canon_char c = [c] \<and> c \<noteq> CHR ''%'' \<or> canon_char c = jk_c2hex c"
    using percent_not_allowed by (auto simp: canon_char_def)
  moreover have "escape_at (hexdig (code c div 16) # hexdig (code c mod 16) # canon x)"
    by (simp add: escape_at_def hexdig_digit)
  ultimately show ?case
    using Cons by (auto simp: c2hex_hexdig is_cstr_def x2c_c2hex Let_def in_opt_def numeral_3_eq_3)
qed simp

lemma hexdig_not_NUL: "h < 16 \<Longrightarrow> hexdig h \<noteq> NUL"
  using hexdig_digit(2) [of h] by auto

lemma is_cstr_canon: "is_cstr x \<Longrightarrow> is_cstr (canon x)"
proof (induction x)
  case (Cons c x)
  then show ?case
    using hexdig_not_NUL [of "code c div 16"] hexdig_not_NUL [of "code c mod 16"]
    by (auto simp: is_cstr_def canon_char_def c2hex_hexdig)
qed simp

text \<open>Claim C27: what \<open>jk_canonenc\<close> writes for a string without null bytes, \<open>jk_unescape_url\<close>
  decodes to the original string, with the length reported through \<open>len\<close>.\<close>

theorem url_roundtrip:
  assumes "is_cstr x" and "int (length (canon x)) < maxlen" and "maxlen \<le> 2 ^ 31 - 2"
    and "nat maxlen \<le> length y" and "length x < length z"
  shows "\<exists>y'. jk_canonenc x y maxlen = Some (True, y') \<and>
     jk_unescape_url (Some z) (Some (cstring_of y')) (- 1) None None False =
       Some (True, Some (x @ NUL # drop (length x + 1) z), Some (1 + of_nat (length x)))"
proof -
  obtain y' where y': "jk_canonenc x y maxlen = Some (True, y')"
      "take (length (canon x) + 1) y' = canon x @ [NUL]" "length y' = length y"
    using canonenc_loop_spec [of 0 maxlen y x] assms by (auto simp: jk_canonenc_def)
  have c: "cstring_of y' = canon x" using y' is_cstr_canon [OF assms(1)] by (intro cstring_of_take) auto
  have "length (canon x) \<le> unat (- 1 :: u64)"
    using assms by (simp add: unat_minus_1)
  then show ?thesis
    using y' c assms(5) by (simp add: jk_unescape_url_buf unescaped_canon [OF assms(1)] splice_def)
qed

theorem url_roundtrip_witness:
  "\<exists>y'. jk_canonenc ''/a b'' (replicate 9 NUL) 9 = Some (True, y') \<and>
     jk_unescape_url (Some (replicate 5 NUL)) (Some (cstring_of y')) (- 1) None None False =
       Some (True, Some (''/a b'' @ NUL # drop (length ''/a b'' + 1) (replicate 5 NUL)),
         Some (1 + of_nat (length ''/a b'')))"
  by (rule url_roundtrip)
    (simp_all add: is_cstr_def canon_char_def jk_c2hex_def allowed_def jk_isalnum_def isdigit_def
      isupper_def islower_def code_def Let_def)

text \<open>\<open>jk_canonenc\<close> succeeds exactly when the encoding and its terminator fit into
  \<open>maxlen\<close> bytes; it then leaves the encoding in the buffer, and it never stores outside the first
  \<open>maxlen\<close> bytes.\<close>

theorem url_encode_exact:
  assumes "nat maxlen \<le> length y" and "maxlen \<le> 2 ^ 31 - 2"
  shows "\<exists>y'. jk_canonenc x y maxlen = Some (int (length (canon x)) < maxlen, y')
    \<and> length y' = length y \<and> drop (nat maxlen) y' = drop (nat maxlen) y
    \<and> (int (length (canon x)) < maxlen \<longrightarrow> take (length (canon x) + 1) y' = canon x @ [NUL])"
  using canonenc_loop_spec [of 0 maxlen y x] assms by (simp add: jk_canonenc_def)

theorem url_encode_exact_witness:
  "\<exists>y'. jk_canonenc ''a b'' (replicate 3 NUL) 3 = Some (int (length (canon ''a b'')) < 3, y')
    \<and> length y' = length (replicate 3 NUL) \<and> drop (nat 3) y' = drop (nat 3) (replicate 3 NUL)
    \<and> (int (length (canon ''a b'')) < 3 \<longrightarrow> take (length (canon ''a b'') + 1) y' = canon ''a b'' @ [NUL])"
  by (rule url_encode_exact) simp_all

text \<open>With \<open>slen\<close> at least the length of the string, the mode that writes and the mode
  that counts return the same flag and the same length, and the text written is never longer than
  the input.\<close>

theorem unescape_modes_agree:
  assumes "length s \<le> unat slen" and "length s < length y"
  shows "\<exists>ok out. length out \<le> length s
     \<and> jk_unescape_url (Some y) (Some s) slen forbid reserved form =
         Some (ok, Some (out @ NUL # drop (length out + 1) y), Some (1 + of_nat (length out)))
     \<and> jk_unescape_url None (Some s) slen forbid reserved form = Some (ok, None, Some (1 + of_nat (length out)))"
proof -
  have "length (dec_text (unescaped forbid reserved form s)) < length y"
    using assms(2) length_unescaped [of forbid reserved form s] by linarith
  from jk_unescape_url_buf [OF assms(1) this] jk_unescape_url_null [OF assms(1), of forbid reserved form]
    length_unescaped [of forbid reserved form s]
  show ?thesis by (intro exI conjI) (auto simp: splice_def)
qed

theorem unescape_modes_agree_witness:
  "\<exists>ok out. length out \<le> length ''%41+b''
     \<and> jk_unescape_url (Some (replicate 9 NUL)) (Some ''%41+b'') 5 None None True =
         Some (ok, Some (out @ NUL # drop (length out + 1) (replicate 9 NUL)), Some (1 + of_nat (length out)))
     \<and> jk_unescape_url None (Some ''%41+b'') 5 None None True = Some (ok, None, Some (1 + of_nat (length out)))"
  by (rule unescape_modes_agree) simp_all

text \<open>With a bounded \<open>slen\<close> of 1 or 2, an escape at the start takes the counter below zero:
  it wraps, and the rest of the string is decoded as if \<open>slen\<close> were unbounded.\<close>

theorem unescape_slen_underflow:
  assumes "jk_isxdigit a" and "jk_isxdigit b" and "slen = 1 \<or> slen = 2" and "length s < 2 ^ 64 - 3"
    and "\<not> in_opt (x2c a b) reserved"
  shows "jk_unescape_url None (Some (CHR ''%'' # a # b # s)) slen forbid reserved form =
     jk_unescape_url None (Some (CHR ''%'' # a # b # s)) (- 1) forbid reserved form"
proof -
  have "length s \<le> unat (- 2 :: u64)" "length s \<le> unat (- 1 :: u64)" "length s \<le> unat (- 4 :: u64)"
    using assms(4) by (simp_all add: unat_minus_1)
  then show ?thesis
    using assms by (auto simp: jk_unescape_url_def Let_def unescape_null_spec hex_follows_escape escape_at_def cat_def)
qed

theorem unescape_slen_underflow_witness:
  "jk_unescape_url None (Some (CHR ''%'' # CHR ''4'' # CHR ''1'' # ''bcd'')) 1 None None False =
     jk_unescape_url None (Some (CHR ''%'' # CHR ''4'' # CHR ''1'' # ''bcd'')) (- 1) None None False"
  by (rule unescape_slen_underflow) (simp_all add: jk_isxdigit_def isdigit_def code_def in_opt_def)

lemma char_of_47: "char_of (47 :: nat) = CHR ''/''"
  using char_of_code [of "CHR ''/''"] by (simp add: code_def del: char_of_code)

text \<open>A reserved escape advances the source by three bytes but \<open>slen\<close> by one in the mode that
  writes, and by three in the mode that counts: with \<open>slen\<close> 3 the first copies two bytes too many
  and the two modes report different lengths.\<close>

theorem unescape_slen_reserved:
  assumes "jk_isxdigit a" and "jk_isxdigit b" and "x2c a b \<noteq> NUL" and "\<not> in_opt (x2c a b) forbid"
    and "in_opt (x2c a b) reserved" and "c \<noteq> CHR ''%''" and "d \<noteq> CHR ''%''" and "5 < length y"
  shows "jk_unescape_url (Some y) (Some (CHR ''%'' # a # b # c # d # s)) 3 forbid reserved False =
       Some (True, Some ([CHR ''%'', a, b, c, d, NUL] @ drop 6 y), Some 6)
    \<and> jk_unescape_url None (Some (CHR ''%'' # a # b # c # d # s)) 3 forbid reserved False = Some (True, None, Some 4)"
proof -
  obtain y0 y1 y2 y3 y4 y5 yt where "y = y0 # y1 # y2 # y3 # y4 # y5 # yt"
    using assms(8) by (auto simp: Suc_le_length_iff Suc_le_eq [symmetric] numeral_eq_Suc)
  with assms show ?thesis
    by (cases s) (simp_all add: jk_unescape_url_def Let_def hex_follows_escape escape_at_def cat_def)
qed

theorem unescape_slen_reserved_witness:
  "jk_unescape_url (Some (replicate 6 NUL)) (Some (CHR ''%'' # CHR ''2'' # CHR ''F'' # CHR ''a'' # CHR ''b'' # ''c'')) 3
       None (Some ''/'') False =
       Some (True, Some ([CHR ''%'', CHR ''2'', CHR ''F'', CHR ''a'', CHR ''b'', NUL] @ drop 6 (replicate 6 NUL)), Some 6)
    \<and> jk_unescape_url None (Some (CHR ''%'' # CHR ''2'' # CHR ''F'' # CHR ''a'' # CHR ''b'' # ''c'')) 3
       None (Some ''/'') False = Some (True, None, Some 4)"
  by (rule unescape_slen_reserved)
    (simp_all add: jk_isxdigit_def isdigit_def code_def in_opt_def x2c_def x2c_digit_def to_char_def schar_def char_of_47)


end
