(* ===== verification/Jk_Sockbuf.thy ===== *)
theory Jk_Sockbuf
  imports Jk_Prelude
begin

text \<open>
  The buffered socket (\<open>jk_sockbuf.c\<close>).

  The socket is an explicit state: the chunks that \<open>recv\<close> will deliver (then end of file), the
  results that \<open>send\<close> will give (then every call sends all of its data) and the bytes sent so far.
  \<open>jk_sb_gets\<close> is a loop that need not end: its result is \<open>None\<close> when it does not return and
  \<open>Some None\<close> when it has undefined behaviour. The theorems: writes and flushes send exactly the
  bytes written, in order; lines are read in order and without loss however the data arrives in
  chunks; the exact condition under which \<open>jk_sb_gets\<close> never returns.
\<close>

section \<open>Sockets\<close>

datatype recv_event = Data char string | Eof | Error

record sock =
  incoming :: "recv_event list"
  send_results :: "int list"
  outgoing :: string

text \<open>\<open>recv\<close> with a positive count delivers at least one byte and at most the count, 0 at end of file
  and -1 on an error; the result carries the bytes stored.\<close>

definition c_recv :: "sock \<Rightarrow> nat \<Rightarrow> int \<times> string \<times> sock" where
  "c_recv sk n =
     (case incoming sk of
        [] \<Rightarrow> (0, [], sk)
      | Eof # es \<Rightarrow> (0, [], sk)
      | Error # es \<Rightarrow> (- 1, [], sk\<lparr>incoming := es\<rparr>)
      | Data c bs # es \<Rightarrow>
          (int (length (take n (c # bs))), take n (c # bs),
           sk\<lparr>incoming := (case drop n (c # bs) of [] \<Rightarrow> es | d # ds \<Rightarrow> Data d ds # es)\<rparr>))"

definition c_send :: "sock \<Rightarrow> string \<Rightarrow> int \<times> sock" where
  "c_send sk bytes =
     (case send_results sk of
        [] \<Rightarrow> (int (length bytes), sk\<lparr>outgoing := outgoing sk @ bytes\<rparr>)
      | r # rs \<Rightarrow>
          if r < 0 then (- 1, sk\<lparr>send_results := rs\<rparr>)
          else let k = min (nat r) (length bytes)
               in (int k, sk\<lparr>send_results := rs, outgoing := outgoing sk @ take k bytes\<rparr>))"

section \<open>The buffer and its operations\<close>

text \<open>Every operation returns \<open>JK_FALSE\<close> at once for a null buffer pointer; below, that case is
  written out for \<open>jk_sb_open\<close>, and the other operations take the buffer itself.\<close>

definition SOCKBUF_SIZE :: nat where
  "SOCKBUF_SIZE = 8 * 1024"

abbreviation JK_CR :: char where
  "JK_CR \<equiv> CHR 0x0D"

abbreviation JK_LF :: char where
  "JK_LF \<equiv> CHR 0x0A"

record jk_sockbuf =
  sb_buf :: string
  sb_start :: u32
  sb_end :: u32
  sb_sd :: int

definition jk_sb_open :: "jk_sockbuf option \<Rightarrow> int \<Rightarrow> bool \<times> jk_sockbuf option" where
  "jk_sb_open sb sd =
     (case sb of
        Some b \<Rightarrow> if sd \<ge> 0 then (True, Some (b\<lparr>sb_end := 0, sb_start := 0, sb_sd := sd\<rparr>)) else (False, sb)
      | None \<Rightarrow> (False, None))"

definition jk_sb_flush :: "jk_sockbuf \<Rightarrow> sock \<Rightarrow> (bool \<times> jk_sockbuf \<times> sock) ub" where
  "jk_sb_flush sb sk =
     (let save_out = sb_end sb;
          sb' = sb\<lparr>sb_end := 0, sb_start := 0\<rparr>
      in if save_out \<noteq> 0 then
           do {
             guard (unat save_out \<le> length (sb_buf sb'));
             let (ret, sk') = c_send sk (take (unat save_out) (sb_buf sb'))
             in Some (ret = sint save_out, sb', sk')
           }
         else Some (True, sb', sk))"

text \<open>\<open>data\<close> is the object behind the pointer \<open>buf\<close>, null or of at least \<open>sz\<close> bytes.\<close>

definition jk_sb_write :: "jk_sockbuf \<Rightarrow> string option \<Rightarrow> u32 \<Rightarrow> sock \<Rightarrow> (bool \<times> jk_sockbuf \<times> sock) ub" where
  "jk_sb_write sb data sz sk =
     (case data of
        None \<Rightarrow> Some (False, sb, sk)
      | Some bytes \<Rightarrow>
          if sz = 0 then Some (False, sb, sk)
          else do {
            guard (unat sz \<le> length bytes);
            if of_nat SOCKBUF_SIZE - sb_end sb \<ge> sz then
              do {
                b \<leftarrow> poke (sb_buf sb) (unat (sb_end sb)) (take (unat sz) bytes);
                Some (True, sb\<lparr>sb_buf := b, sb_end := sb_end sb + sz\<rparr>, sk)
              }
            else do {
              (ok, sb1, sk1) \<leftarrow> jk_sb_flush sb sk;
              if \<not> ok then Some (False, sb1, sk1)
              else if sz > of_nat SOCKBUF_SIZE then
                (let (ret, sk2) = c_send sk1 (take (unat sz) bytes) in Some (ret = sint sz, sb1, sk2))
              else do {
                b \<leftarrow> poke (sb_buf sb1) (unat (sb_end sb1)) (take (unat sz) bytes);
                Some (True, sb1\<lparr>sb_buf := b, sb_end := sb_end sb1 + sz\<rparr>, sk1)
              }
            }
          })"

definition fill_buffer :: "jk_sockbuf \<Rightarrow> sock \<Rightarrow> (int \<times> jk_sockbuf \<times> sock) ub" where
  "fill_buffer sb sk =
     do {
       sb1 \<leftarrow>
         (if sb_start sb < sb_end sb then
            if sb_start sb > 0 then
              let to_copy = sb_end sb - sb_start sb in
              do {
                guard (unat (sb_start sb) + unat to_copy \<le> length (sb_buf sb));
                b \<leftarrow> poke (sb_buf sb) 0 (take (unat to_copy) (drop (unat (sb_start sb)) (sb_buf sb)));
                Some (sb\<lparr>sb_buf := b, sb_start := 0, sb_end := to_copy\<rparr>)
              }
            else Some sb
          else Some (sb\<lparr>sb_start := 0, sb_end := 0\<rparr>));
       if of_nat SOCKBUF_SIZE - sb_end sb1 > 0 then
         let (ret, got, sk') = c_recv sk (unat (of_nat SOCKBUF_SIZE - sb_end sb1)) in
         do {
           b \<leftarrow> poke (sb_buf sb1) (unat (sb_end sb1)) got;
           if ret \<le> 0 then Some (ret, sb1\<lparr>sb_buf := b\<rparr>, sk')
           else Some (1, sb1\<lparr>sb_buf := b, sb_end := sb_end sb1 + of_int ret\<rparr>, sk')
         }
       else Some (1, sb1, sk)
     }"

text \<open>\<open>*buf\<close> is an index into the buffer (or null), \<open>*ac\<close> the count.\<close>

definition jk_sb_read :: "jk_sockbuf \<Rightarrow> u32 \<Rightarrow> sock \<Rightarrow> (bool \<times> nat option \<times> u32 \<times> jk_sockbuf \<times> sock) ub" where
  "jk_sb_read sb sz sk =
     do {
       (ret, sb1, sk1) \<leftarrow>
         (if sb_end sb = sb_start sb then fill_buffer (sb\<lparr>sb_end := 0, sb_start := 0\<rparr>) sk
          else Some (1, sb, sk));
       if ret < 0 then Some (False, None, 0, sb1, sk1)
       else
         let avail = sb_end sb1 - sb_start sb1;
             ac = (if avail > sz then sz else avail)
         in Some (True, Some (unat (sb_start sb1)), ac, sb1\<lparr>sb_start := sb_start sb1 + ac\<rparr>, sk1)
     }"

text \<open>The scan of \<open>jk_sb_gets\<close>: the first index from \<open>i\<close> below \<open>stop\<close> that holds a line feed.\<close>

function find_lf :: "string \<Rightarrow> u32 \<Rightarrow> u32 \<Rightarrow> u32 option ub" where
  "find_lf buf i stop =
     (if i < stop then do { c \<leftarrow> rd buf (unat i); if c = JK_LF then Some (Some i) else find_lf buf (i + 1) stop }
      else Some None)"
  by pat_completeness auto
termination
proof (relation "measure (\<lambda>(buf, i, stop). unat stop - unat i)")
  fix buf :: string and i stop :: u32 and c :: char
  assume "i < stop"
  then have "unat i < unat stop" "unat (i + 1) = unat i + 1"
    using unat_u32_bound [of stop] by (simp_all add: word_less_nat_alt unat_word_ariths)
  then show "((buf, i + 1, stop), buf, i, stop) \<in> measure (\<lambda>(buf, i, stop). unat stop - unat i)" by simp
qed simp

partial_function (option) jk_sb_gets :: "jk_sockbuf \<Rightarrow> sock \<Rightarrow> ((bool \<times> nat option \<times> jk_sockbuf \<times> sock) ub) option" where
  "jk_sb_gets sb sk =
     (case find_lf (sb_buf sb) (sb_start sb) (sb_end sb) of
        None \<Rightarrow> Some None
      | Some (Some i) \<Rightarrow>
          Some (do {
            b \<leftarrow> (if i > sb_start sb then
                   do { c \<leftarrow> rd (sb_buf sb) (unat (i - 1));
                        if c = JK_CR then wr (sb_buf sb) (unat (i - 1)) NUL
                        else wr (sb_buf sb) (unat i) NUL }
                 else wr (sb_buf sb) (unat i) NUL);
            Some (True, Some (unat (sb_start sb)), sb\<lparr>sb_buf := b, sb_start := i + 1\<rparr>, sk) })
      | Some None \<Rightarrow>
          (case fill_buffer sb sk of
             None \<Rightarrow> Some None
           | Some (ret, sb1, sk1) \<Rightarrow>
               if ret < 0 then Some (Some (False, None, sb1, sk1))
               else if ret = 0 then
                 Some (do {
                   b \<leftarrow> (if of_nat SOCKBUF_SIZE - sb_end sb1 > 0 then wr (sb_buf sb1) (unat (sb_end sb1)) NUL
                         else wr (sb_buf sb1) (unat (sb_end sb1 - 1)) NUL);
                   Some (True, Some (unat (sb_start sb1)), sb1\<lparr>sb_buf := b\<rparr>, sk1) })
               else jk_sb_gets sb1 sk1))"

section \<open>Invariant and unread data\<close>

definition sb_wf :: "jk_sockbuf \<Rightarrow> bool" where
  "sb_wf sb \<longleftrightarrow> length (sb_buf sb) = SOCKBUF_SIZE \<and> sb_start sb \<le> sb_end sb \<and> unat (sb_end sb) \<le> SOCKBUF_SIZE"

text \<open>The bytes in the buffer that were not read yet, and the bytes that \<open>recv\<close> delivers before the
  next end of file or error.\<close>

definition pending :: "jk_sockbuf \<Rightarrow> string" where
  "pending sb = drop (unat (sb_start sb)) (take (unat (sb_end sb)) (sb_buf sb))"

fun feed :: "recv_event list \<Rightarrow> string" where
  "feed (Data c bs # es) = (c # bs) @ feed es"
| "feed es = []"

fun feed_end :: "recv_event list \<Rightarrow> recv_event" where
  "feed_end (Data c bs # es) = feed_end es"
| "feed_end (Error # es) = Error"
| "feed_end es = Eof"

lemma room:
  assumes "unat (e :: u32) \<le> SOCKBUF_SIZE"
  shows "unat (of_nat SOCKBUF_SIZE - e) = SOCKBUF_SIZE - unat e"
proof -
  have "unat (of_nat SOCKBUF_SIZE :: u32) = SOCKBUF_SIZE" by (simp add: SOCKBUF_SIZE_def)
  moreover from this assms have "e \<le> of_nat SOCKBUF_SIZE" by (simp add: word_le_nat_alt)
  ultimately show ?thesis by (simp add: unat_sub)
qed

lemma room_pos: "unat (e :: u32) \<le> SOCKBUF_SIZE \<Longrightarrow> (of_nat SOCKBUF_SIZE - e > 0) = (unat e < SOCKBUF_SIZE)"
  using room [of e] by (simp add: word_less_nat_alt)

lemma length_pending: "sb_wf sb \<Longrightarrow> length (pending sb) = unat (sb_end sb) - unat (sb_start sb)"
  by (simp add: pending_def sb_wf_def)

lemma length_pending_le: "sb_wf sb \<Longrightarrow> length (pending sb) \<le> SOCKBUF_SIZE"
  using length_pending [of sb] by (simp add: sb_wf_def le_trans [OF diff_le_self])

text \<open>Moving the unread bytes to the front.\<close>

definition at_front :: "jk_sockbuf \<Rightarrow> string \<Rightarrow> bool" where
  "at_front sb p \<longleftrightarrow> length (sb_buf sb) = SOCKBUF_SIZE \<and> sb_start sb = 0 \<and> unat (sb_end sb) = length p
     \<and> take (length p) (sb_buf sb) = p"

lemma at_frontD: "at_front sb p \<Longrightarrow> sb_wf sb \<and> pending sb = p"
  by (auto simp: at_front_def sb_wf_def pending_def dest: arg_cong [where f = length])

lemma find_lf_spec:
  "unat stop \<le> length buf \<Longrightarrow>
   (case find_lf buf i stop of
      None \<Rightarrow> False
    | Some None \<Rightarrow> JK_LF \<notin> set (drop (unat i) (take (unat stop) buf))
    | Some (Some j) \<Rightarrow> i \<le> j \<and> j < stop \<and> buf ! unat j = JK_LF \<and> JK_LF \<notin> set (drop (unat i) (take (unat j) buf)))"
proof (induction buf i stop rule: find_lf.induct)
  case (1 buf i stop)
  show ?case
  proof (cases "i < stop")
    case False
    then show ?thesis by (simp add: word_less_nat_alt)
  next
    case True
    then have l: "unat i < unat stop" "unat i < length buf" "unat (i + 1) = Suc (unat i)"
      using 1(2) unat_u32_bound [of stop] by (simp_all add: word_less_nat_alt unat_word_ariths)
    have d: "drop (unat i) (take (unat k) buf) = buf ! unat i # drop (unat (i + 1)) (take (unat k) buf)"
      if "unat i < unat k" for k :: u32
      using that l by (simp add: Cons_nth_drop_Suc [symmetric])
    show ?thesis
    proof (cases "buf ! unat i = JK_LF")
      case True
      then show ?thesis using l \<open>i < stop\<close> by simp
    next
      case False
      then show ?thesis
        using 1(1)[OF True rd_in [OF l(2)] _ 1(2)] True l d
        by (subst find_lf.simps) (auto simp del: find_lf.simps simp: word_less_nat_alt word_le_nat_alt split: option.splits)
    qed
  qed
qed


lemma compact_ok:
  assumes "sb_wf sb"
  shows "\<exists>sb1. (if sb_start sb < sb_end sb then
            if sb_start sb > 0 then
              let to_copy = sb_end sb - sb_start sb in
              do {
                guard (unat (sb_start sb) + unat to_copy \<le> length (sb_buf sb));
                b \<leftarrow> poke (sb_buf sb) 0 (take (unat to_copy) (drop (unat (sb_start sb)) (sb_buf sb)));
                Some (sb\<lparr>sb_buf := b, sb_start := 0, sb_end := to_copy\<rparr>)
              }
            else Some sb
          else Some (sb\<lparr>sb_start := 0, sb_end := 0\<rparr>)) = Some sb1 \<and> at_front sb1 (pending sb)"
proof -
  have u: "unat (sb_end sb - sb_start sb) = unat (sb_end sb) - unat (sb_start sb)"
    using assms by (simp add: sb_wf_def unat_sub)
  have le: "unat (sb_start sb) \<le> unat (sb_end sb)" "unat (sb_end sb) \<le> length (sb_buf sb)"
    using assms by (simp_all add: sb_wf_def word_le_nat_alt)
  have p: "pending sb = take (unat (sb_end sb - sb_start sb)) (drop (unat (sb_start sb)) (sb_buf sb))"
    by (simp add: pending_def u drop_take)
  show ?thesis
  proof (cases "sb_start sb < sb_end sb \<and> sb_start sb > 0")
    case True
    moreover have "min (SOCKBUF_SIZE - unat (sb_start sb)) (unat (sb_end sb) - unat (sb_start sb)) =
        unat (sb_end sb) - unat (sb_start sb)" using assms by (simp add: sb_wf_def min_absorb2 diff_le_mono)
    ultimately show ?thesis
      using assms u le p
      by (simp add: Let_def poke_in at_front_def sb_wf_def splice_def)
  next
    case False
    then consider "sb_start sb = 0" | "sb_start sb = sb_end sb"
      using assms by (auto simp: sb_wf_def word_gt_0 not_less)
    then show ?thesis
      using assms u le by cases (auto simp: at_front_def sb_wf_def pending_def word_gt_0)
  qed
qed

lemma fill_at_front:
  assumes "at_front sb1 p" and "length got \<le> SOCKBUF_SIZE - length p"
  shows "poke (sb_buf sb1) (unat (sb_end sb1)) got = Some (splice (sb_buf sb1) (length p) got)"
    and "at_front (sb1\<lparr>sb_buf := splice (sb_buf sb1) (length p) got, sb_end := sb_end sb1 + of_nat (length got)\<rparr>) (p @ got)"
proof -
  have l: "length p \<le> SOCKBUF_SIZE" using assms(1) by (auto simp: at_front_def dest: arg_cong [where f = length])
  then have f: "length p + length got \<le> length (sb_buf sb1)" using assms by (simp add: at_front_def)
  then show "poke (sb_buf sb1) (unat (sb_end sb1)) got = Some (splice (sb_buf sb1) (length p) got)"
    using assms(1) by (simp add: at_front_def poke_in)
  have s: "length p + length got < 2 ^ 32" using l assms(2) by (simp add: SOCKBUF_SIZE_def)
  then have "unat (sb_end sb1 + of_nat (length got)) = length p + length got"
    using assms(1) unat_u32_of_nat [of "length got"] by (simp add: at_front_def unat_word_ariths)
  then show "at_front (sb1\<lparr>sb_buf := splice (sb_buf sb1) (length p) got, sb_end := sb_end sb1 + of_nat (length got)\<rparr>) (p @ got)"
    using assms(1) f take_splice [OF f] by (simp add: at_front_def)
qed

lemma fill_buffer_step:
  assumes "sb_wf sb"
  shows "\<exists>sb1. at_front sb1 (pending sb) \<and> fill_buffer sb sk =
     (if length (pending sb) < SOCKBUF_SIZE then
        let (ret, got, sk') = c_recv sk (SOCKBUF_SIZE - length (pending sb)) in
        do {
          b \<leftarrow> poke (sb_buf sb1) (length (pending sb)) got;
          if ret \<le> 0 then Some (ret, sb1\<lparr>sb_buf := b\<rparr>, sk')
          else Some (1, sb1\<lparr>sb_buf := b, sb_end := sb_end sb1 + of_int ret\<rparr>, sk')
        }
      else Some (1, sb1, sk))"
proof -
  obtain sb1 where c: "at_front sb1 (pending sb)" and
    f: "fill_buffer sb sk = (if of_nat SOCKBUF_SIZE - sb_end sb1 > 0 then
         let (ret, got, sk') = c_recv sk (unat (of_nat SOCKBUF_SIZE - sb_end sb1)) in
         do {
           b \<leftarrow> poke (sb_buf sb1) (unat (sb_end sb1)) got;
           if ret \<le> 0 then Some (ret, sb1\<lparr>sb_buf := b\<rparr>, sk')
           else Some (1, sb1\<lparr>sb_buf := b, sb_end := sb_end sb1 + of_int ret\<rparr>, sk')
         }
       else Some (1, sb1, sk))"
    using compact_ok [OF assms(1)] by (auto simp: fill_buffer_def)
  have e: "unat (sb_end sb1) = length (pending sb)" using c by (simp add: at_front_def)
  then have "unat (sb_end sb1) \<le> SOCKBUF_SIZE" using length_pending_le [OF assms] by simp
  from room [OF this] room_pos [OF this] c f e show ?thesis by (intro exI [of _ sb1]) simp
qed

lemma fill_buffer_full:
  assumes "sb_wf sb" and "length (pending sb) = SOCKBUF_SIZE"
  shows "\<exists>sb1. fill_buffer sb sk = Some (1, sb1, sk) \<and> at_front sb1 (pending sb)"
  using fill_buffer_step [OF assms(1), of sk] assms(2) by auto

lemma fill_buffer_end:
  assumes "sb_wf sb" and "length (pending sb) < SOCKBUF_SIZE" and "incoming sk = [] \<or> incoming sk = Eof # es"
  shows "\<exists>sb1. fill_buffer sb sk = Some (0, sb1, sk) \<and> at_front sb1 (pending sb)"
  using fill_buffer_step [OF assms(1), of sk] assms(2,3) by (auto simp: c_recv_def)

lemma fill_buffer_error:
  assumes "sb_wf sb" and "length (pending sb) < SOCKBUF_SIZE" and "incoming sk = Error # es"
  shows "\<exists>sb1. fill_buffer sb sk = Some (- 1, sb1, sk\<lparr>incoming := es\<rparr>) \<and> at_front sb1 (pending sb)"
  using fill_buffer_step [OF assms(1), of sk] assms(2,3) by (auto simp: c_recv_def)

lemma fill_buffer_data:
  assumes "sb_wf sb" and "length (pending sb) < SOCKBUF_SIZE" and "incoming sk = Data c bs # es"
  shows "\<exists>sb1 sk1 got. fill_buffer sb sk = Some (1, sb1, sk1) \<and> at_front sb1 (pending sb @ got) \<and> got \<noteq> []
     \<and> feed (incoming sk) = got @ feed (incoming sk1) \<and> feed_end (incoming sk1) = feed_end (incoming sk)"
proof -
  let ?n = "SOCKBUF_SIZE - length (pending sb)"
  obtain sb1 where c: "at_front sb1 (pending sb)" and
    f: "fill_buffer sb sk = (let (ret, got, sk') = c_recv sk ?n in
        do {
          b \<leftarrow> poke (sb_buf sb1) (length (pending sb)) got;
          if ret \<le> 0 then Some (ret, sb1\<lparr>sb_buf := b\<rparr>, sk')
          else Some (1, sb1\<lparr>sb_buf := b, sb_end := sb_end sb1 + of_int ret\<rparr>, sk')
        })"
    using fill_buffer_step [OF assms(1), of sk] assms(2) by auto
  have e: "unat (sb_end sb1) = length (pending sb)" using c by (simp add: at_front_def)
  let ?got = "take ?n (c # bs)"
  have l: "length ?got \<le> ?n" by simp
  have "?got \<noteq> []" using assms(2) by (cases ?n) simp_all
  moreover have "feed (incoming sk) = ?got @ feed (case drop ?n (c # bs) of [] \<Rightarrow> es | d # ds \<Rightarrow> Data d ds # es)"
    using append_take_drop_id [of ?n "c # bs"] assms(3) by (cases "drop ?n (c # bs)") (auto simp del: append_take_drop_id)
  moreover have "feed_end (case drop ?n (c # bs) of [] \<Rightarrow> es | d # ds \<Rightarrow> Data d ds # es) = feed_end (incoming sk)"
    using assms(3) by (simp split: list.split)
  ultimately show ?thesis
    using fill_at_front [OF c l] e assms(3) f
    by (intro exI [of _ "sb1\<lparr>sb_buf := splice (sb_buf sb1) (length (pending sb)) ?got,
          sb_end := sb_end sb1 + of_nat (length ?got)\<rparr>"]
        exI [of _ "sk\<lparr>incoming := case drop ?n (c # bs) of [] \<Rightarrow> es | d # ds \<Rightarrow> Data d ds # es\<rparr>"]
        exI [of _ ?got])
      (simp add: c_recv_def)
qed


definition strip_cr :: "string \<Rightarrow> string" where
  "strip_cr l = (if l \<noteq> [] \<and> last l = JK_CR then butlast l else l)"

lemma first_lf_unique:
  "l @ JK_LF # r = l' @ JK_LF # r' \<Longrightarrow> JK_LF \<notin> set l \<Longrightarrow> JK_LF \<notin> set l' \<Longrightarrow> l = l' \<and> r = r'"
  by (induction l arbitrary: l') (auto simp: Cons_eq_append_conv append_eq_Cons_conv)

lemma find_lf_pending:
  assumes wf: "sb_wf sb" and p: "pending sb = l @ JK_LF # r" and l: "JK_LF \<notin> set l"
  shows "\<exists>j. find_lf (sb_buf sb) (sb_start sb) (sb_end sb) = Some (Some j) \<and> unat j = unat (sb_start sb) + length l
      \<and> j < sb_end sb"
proof -
  let ?s = "unat (sb_start sb)" and ?e = "unat (sb_end sb)"
  have le: "?e \<le> length (sb_buf sb)" using wf by (simp add: sb_wf_def)
  note spec = find_lf_spec [OF le, of "sb_start sb"]
  from p have "JK_LF \<in> set (drop ?s (take ?e (sb_buf sb)))" by (simp add: pending_def)
  with spec obtain j where j: "find_lf (sb_buf sb) (sb_start sb) (sb_end sb) = Some (Some j)"
      "sb_start sb \<le> j" "j < sb_end sb" "sb_buf sb ! unat j = JK_LF"
      "JK_LF \<notin> set (drop ?s (take (unat j) (sb_buf sb)))"
    by (auto split: option.splits)
  have lt: "?s \<le> unat j" "unat j < ?e" using j(2,3) by (simp_all add: word_le_nat_alt word_less_nat_alt)
  have "pending sb = drop ?s (take (unat j) (take ?e (sb_buf sb))) @ drop (unat j) (take ?e (sb_buf sb))"
    unfolding pending_def using lt le by (intro drop_split) simp_all
  also have "\<dots> = drop ?s (take (unat j) (sb_buf sb)) @ JK_LF # drop (Suc (unat j)) (take ?e (sb_buf sb))"
    using lt le j(4) by (simp add: Cons_nth_drop_Suc [symmetric] min_absorb1)
  finally have q: "pending sb =
      drop ?s (take (unat j) (sb_buf sb)) @ JK_LF # drop (Suc (unat j)) (take ?e (sb_buf sb))" .
  have "l = drop ?s (take (unat j) (sb_buf sb))"
    using first_lf_unique [OF trans [OF p [symmetric] q] l j(5)] by (rule conjunct1)
  then have "length l = unat j - ?s" using lt le by simp
  with j(1,3) lt show ?thesis by auto
qed

lemma gets_line_now:
  assumes wf: "sb_wf sb" and p: "pending sb = l @ JK_LF # r" and l: "JK_LF \<notin> set l"
  shows "\<exists>k sb' t. jk_sb_gets sb sk = Some (Some (True, Some k, sb', sk)) \<and> sb_wf sb' \<and> pending sb' = r
     \<and> drop k (sb_buf sb') = strip_cr l @ NUL # t"
proof -
  obtain j where j: "find_lf (sb_buf sb) (sb_start sb) (sb_end sb) = Some (Some j)"
      "unat j = unat (sb_start sb) + length l" "j < sb_end sb"
    using find_lf_pending [OF assms] by blast
  let ?s = "unat (sb_start sb)" and ?e = "unat (sb_end sb)" and ?b = "sb_buf sb"
  have lt: "unat j < ?e" "?e \<le> length ?b" using j(3) wf by (simp_all add: word_less_nat_alt sb_wf_def)
  have j1: "unat (j + 1) = Suc (unat j)" using lt unat_u32_bound [of "sb_end sb"] by (simp add: unat_word_ariths)
  define i where "i = (if l \<noteq> [] \<and> last l = JK_CR then unat j - 1 else unat j)"
  define b where "b = ?b[i := NUL]"
  have bd: "?b = take ?s ?b @ l @ JK_LF # r @ drop ?e ?b"
  proof -
    have "?b = take ?s (take ?e ?b) @ drop ?s (take ?e ?b) @ drop ?e ?b" by (simp only: append_assoc [symmetric] append_take_drop_id)
    then show ?thesis using p j(2) lt by (simp add: pending_def min_absorb1)
  qed
  have len_s: "length (take ?s ?b) = ?s" using j(2) lt by simp
  have last: "?b ! (unat j - 1) = last l" if "l \<noteq> []"
  proof -
    have "?b ! (?s + (length l - 1)) = (take ?s ?b @ l @ JK_LF # r @ drop ?e ?b) ! (?s + (length l - 1))" using bd by simp
    also have "\<dots> = l ! (length l - 1)" using len_s that by (simp add: nth_append)
    finally have "?b ! (?s + (length l - 1)) = l ! (length l - 1)" .
    moreover have "unat j - 1 = ?s + (length l - 1)" using that j(2) by (cases l) simp_all
    ultimately show ?thesis using that by (simp add: last_conv_nth)
  qed
  have "jk_sb_gets sb sk = Some (Some (True, Some ?s, sb\<lparr>sb_buf := b, sb_start := j + 1\<rparr>, sk))"
  proof (cases "l = []")
    case True
    then have "\<not> sb_start sb < j" using j(2) by (simp add: word_less_nat_alt)
    then show ?thesis using True j lt by (subst jk_sb_gets.simps) (simp add: b_def i_def)
  next
    case False
    then have "sb_start sb < j" "1 \<le> j" using j(2) by (cases l; simp add: word_less_nat_alt word_le_nat_alt)+
    then have "sb_start sb < j" "unat (j - 1) = unat j - 1" by (simp_all add: unat_sub)
    then show ?thesis using False j lt last
      by (subst jk_sb_gets.simps) (simp add: b_def i_def)
  qed
  moreover have "sb_wf (sb\<lparr>sb_buf := b, sb_start := j + 1\<rparr>)"
    using wf j1 lt by (simp add: sb_wf_def b_def word_le_nat_alt)
  moreover have "pending (sb\<lparr>sb_buf := b, sb_start := j + 1\<rparr>) = r"
  proof -
    have "pending (sb\<lparr>sb_buf := b, sb_start := j + 1\<rparr>) = drop (Suc (unat j)) (take ?e b)"
      by (simp add: pending_def j1)
    also have "\<dots> = drop (Suc (unat j)) (take ?e ?b)"
      using j(2) by (simp add: b_def i_def drop_take)
    also have "\<dots> = drop (Suc (length l)) (pending sb)" by (simp add: pending_def j(2) add.commute)
    finally show ?thesis by (simp add: p)
  qed
  moreover have "drop ?s (sb_buf (sb\<lparr>sb_buf := b, sb_start := j + 1\<rparr>)) = strip_cr l @ NUL # (if l \<noteq> [] \<and> last l = JK_CR then [JK_LF] else []) @ r @ drop ?e ?b"
  proof -
    have "drop ?s b = (drop ?s ?b)[i - ?s := NUL]" using j(2) by (cases l rule: rev_cases) (auto simp: b_def i_def drop_update_swap)
    also have "drop ?s ?b = l @ JK_LF # r @ drop ?e ?b" using bd len_s by (metis append_eq_conv_conj)
    finally show ?thesis using j(2) by (cases l rule: rev_cases) (auto simp: strip_cr_def i_def list_update_append)
  qed
  ultimately show ?thesis by blast
qed

lemma find_lf_none:
  assumes "sb_wf sb" and "JK_LF \<notin> set (pending sb)"
  shows "find_lf (sb_buf sb) (sb_start sb) (sb_end sb) = Some None"
proof -
  have "sb_buf sb ! unat j \<in> set (pending sb)" if "sb_start sb \<le> j" and "j < sb_end sb" for j
  proof -
    have "pending sb ! (unat j - unat (sb_start sb)) = sb_buf sb ! unat j"
      "unat j - unat (sb_start sb) < length (pending sb)"
      using that assms(1) by (auto simp: pending_def word_le_nat_alt word_less_nat_alt sb_wf_def)
    then show ?thesis using nth_mem by metis
  qed
  then show ?thesis
    using assms find_lf_spec [of "sb_end sb" "sb_buf sb" "sb_start sb"]
    by (fastforce simp: sb_wf_def split: option.splits)
qed

lemma gets_refill:
  assumes "sb_wf sb" and "JK_LF \<notin> set (pending sb)" and "fill_buffer sb sk = Some (1, sb1, sk1)"
  shows "jk_sb_gets sb sk = jk_sb_gets sb1 sk1"
  using assms(3) find_lf_none [OF assms(1,2)] by (subst jk_sb_gets.simps) simp

lemma prefix_line:
  assumes "p @ f = l @ JK_LF # r" and "JK_LF \<notin> set l"
  shows "(\<exists>r'. p = l @ JK_LF # r' \<and> r = r' @ f) \<or> (\<exists>u. l = p @ u \<and> f = u @ JK_LF # r)"
  using assms by (auto simp: append_eq_append_conv2 append_eq_Cons_conv)

lemma feed_Cons: "feed es \<noteq> [] \<Longrightarrow> \<exists>c bs es'. es = Data c bs # es'"
  by (cases es rule: feed.cases) auto

text \<open>Without a line feed in the first \<open>SOCKBUF_SIZE\<close> bytes the buffer fills up, \<open>recv\<close> is no longer called
  and the loop does not end.\<close>

definition stuck :: "jk_sockbuf \<Rightarrow> bool" where
  "stuck sb \<longleftrightarrow> sb_wf sb \<and> JK_LF \<notin> set (pending sb) \<and> length (pending sb) = SOCKBUF_SIZE"

lemma stuck_step:
  assumes "stuck sb"
  shows "\<exists>sb1. fill_buffer sb sk = Some (1, sb1, sk) \<and> stuck sb1"
  using assms fill_buffer_full [of sb sk] at_frontD unfolding stuck_def by metis

lemma stuck_diverges:
  assumes "stuck sb"
  shows "jk_sb_gets sb sk = None"
proof (rule ccontr)
  assume "jk_sb_gets sb sk \<noteq> None"
  then obtain y where g: "jk_sb_gets sb sk = Some y" by blast
  have "\<not> stuck sb"
  proof (rule jk_sb_gets.raw_induct [OF _ g])
    fix f sb sk y
    assume ih: "\<And>sb sk y. f sb sk = Some y \<Longrightarrow> \<not> stuck sb"
      and step: "(case find_lf (sb_buf sb) (sb_start sb) (sb_end sb) of
        None \<Rightarrow> Some None
      | Some (Some i) \<Rightarrow>
          Some (do {
            b \<leftarrow> (if i > sb_start sb then
                   do { c \<leftarrow> rd (sb_buf sb) (unat (i - 1));
                        if c = JK_CR then wr (sb_buf sb) (unat (i - 1)) NUL
                        else wr (sb_buf sb) (unat i) NUL }
                 else wr (sb_buf sb) (unat i) NUL);
            Some (True, Some (unat (sb_start sb)), sb\<lparr>sb_buf := b, sb_start := i + 1\<rparr>, sk) })
      | Some None \<Rightarrow>
          (case fill_buffer sb sk of
             None \<Rightarrow> Some None
           | Some (ret, sb1, sk1) \<Rightarrow>
               if ret < 0 then Some (Some (False, None, sb1, sk1))
               else if ret = 0 then
                 Some (do {
                   b \<leftarrow> (if of_nat SOCKBUF_SIZE - sb_end sb1 > 0 then wr (sb_buf sb1) (unat (sb_end sb1)) NUL
                         else wr (sb_buf sb1) (unat (sb_end sb1 - 1)) NUL);
                   Some (True, Some (unat (sb_start sb1)), sb1\<lparr>sb_buf := b\<rparr>, sk1) })
               else f sb1 sk1)) = Some y"
    show "\<not> stuck sb"
    proof
      assume st: "stuck sb"
      with stuck_step obtain sb1 where f: "fill_buffer sb sk = Some (1, sb1, sk)" "stuck sb1" by blast
      have "find_lf (sb_buf sb) (sb_start sb) (sb_end sb) = Some None"
        using st find_lf_none by (simp add: stuck_def)
      with step f(1) have "f sb1 sk = Some y" by simp
      with ih f(2) show False by blast
    qed
  qed
  with assms show False by blast
qed

lemma gets_refill_data:
  assumes "sb_wf sb" and "JK_LF \<notin> set (pending sb)" and "length (pending sb) < SOCKBUF_SIZE"
    and "feed (incoming sk) \<noteq> []"
  shows "\<exists>sb1 sk1. jk_sb_gets sb sk = jk_sb_gets sb1 sk1 \<and> sb_wf sb1
     \<and> pending sb1 @ feed (incoming sk1) = pending sb @ feed (incoming sk)
     \<and> feed_end (incoming sk1) = feed_end (incoming sk)
     \<and> length (feed (incoming sk1)) < length (feed (incoming sk))
     \<and> length (pending sb1) \<le> SOCKBUF_SIZE"
proof -
  obtain c bs es where d: "incoming sk = Data c bs # es" using feed_Cons assms(4) by blast
  then obtain sb1 sk1 got where f: "fill_buffer sb sk = Some (1, sb1, sk1)"
      "at_front sb1 (pending sb @ got)" "got \<noteq> []" "feed (incoming sk) = got @ feed (incoming sk1)"
      "feed_end (incoming sk1) = feed_end (incoming sk)"
    using fill_buffer_data [OF assms(1,3)] by blast
  have w: "sb_wf sb1" "pending sb1 = pending sb @ got" using at_frontD [OF f(2)] by simp_all
  have "length (pending sb1) \<le> SOCKBUF_SIZE" using w(1) by (rule length_pending_le)
  moreover have "jk_sb_gets sb sk = jk_sb_gets sb1 sk1" using gets_refill assms(1,2) f(1) by blast
  ultimately show ?thesis using f(3-5) w by (intro exI [of _ sb1] exI [of _ sk1]) simp
qed

lemma gets_line:
  assumes "sb_wf sb" and "pending sb @ feed (incoming sk) = l @ JK_LF # r" and "JK_LF \<notin> set l"
    and "length l < SOCKBUF_SIZE"
  shows "\<exists>k sb' sk' t. jk_sb_gets sb sk = Some (Some (True, Some k, sb', sk')) \<and> sb_wf sb'
     \<and> pending sb' @ feed (incoming sk') = r \<and> feed_end (incoming sk') = feed_end (incoming sk)
     \<and> drop k (sb_buf sb') = strip_cr l @ NUL # t"
  using assms
proof (induction "length (feed (incoming sk))" arbitrary: sb sk rule: less_induct)
  case less
  from prefix_line [OF less.prems(2,3)] show ?case
  proof (elim disjE exE conjE)
    fix r' assume "pending sb = l @ JK_LF # r'" and "r = r' @ feed (incoming sk)"
    with gets_line_now [OF less.prems(1) _ less.prems(3), of r' sk] show ?thesis by blast
  next
    fix u assume u: "l = pending sb @ u" "feed (incoming sk) = u @ JK_LF # r"
    then have "JK_LF \<notin> set (pending sb)" "length (pending sb) < SOCKBUF_SIZE" "feed (incoming sk) \<noteq> []"
      using less.prems(3,4) by simp_all
    from gets_refill_data [OF less.prems(1) this] less show ?thesis by metis
  qed
qed

lemma gets_overlong:
  assumes "sb_wf sb" and "JK_LF \<notin> set (take SOCKBUF_SIZE (pending sb @ feed (incoming sk)))"
    and "SOCKBUF_SIZE \<le> length (pending sb @ feed (incoming sk))"
  shows "jk_sb_gets sb sk = None"
  using assms
proof (induction "length (feed (incoming sk))" arbitrary: sb sk rule: less_induct)
  case less
  have le: "length (pending sb) \<le> SOCKBUF_SIZE" using less.prems(1) by (rule length_pending_le)
  then have n: "JK_LF \<notin> set (pending sb)" using less.prems(2) by simp
  show ?case
  proof (cases "length (pending sb) = SOCKBUF_SIZE")
    case True
    then show ?thesis using less.prems(1) n stuck_diverges by (simp add: stuck_def)
  next
    case False
    then have "length (pending sb) < SOCKBUF_SIZE" "feed (incoming sk) \<noteq> []" using le less.prems(3) by auto
    from gets_refill_data [OF less.prems(1) n this] less show ?thesis by metis
  qed
qed

lemma gets_last:
  assumes "sb_wf sb" and "JK_LF \<notin> set (pending sb @ feed (incoming sk))"
    and "length (pending sb @ feed (incoming sk)) < SOCKBUF_SIZE"
  shows "\<exists>sb' sk' k. sb_wf sb' \<and> pending sb' = pending sb @ feed (incoming sk) \<and>
     (if feed_end (incoming sk) = Error then jk_sb_gets sb sk = Some (Some (False, None, sb', sk'))
      else jk_sb_gets sb sk = Some (Some (True, Some k, sb', sk')) \<and>
           (\<exists>t. drop k (sb_buf sb') = (pending sb @ feed (incoming sk)) @ NUL # t))"
  using assms
proof (induction "length (feed (incoming sk))" arbitrary: sb sk rule: less_induct)
  case less
  have n: "JK_LF \<notin> set (pending sb)" and l: "length (pending sb) < SOCKBUF_SIZE" using less.prems(2,3) by simp_all
  show ?case
  proof (cases "feed (incoming sk) = []")
    case False
    from gets_refill_data [OF less.prems(1) n l this] less show ?thesis by metis
  next
    case True
    note g = find_lf_none [OF less.prems(1) n] jk_sb_gets.simps [of sb sk]
    consider es where "incoming sk = Error # es" | es where "incoming sk = [] \<or> incoming sk = Eof # es"
      using True by (cases "incoming sk" rule: feed.cases) auto
    then show ?thesis
    proof cases
      case 1
      with fill_buffer_error [OF less.prems(1) l] obtain sb1 where
        "fill_buffer sb sk = Some (- 1, sb1, sk\<lparr>incoming := es\<rparr>)" "at_front sb1 (pending sb)" by blast
      then show ?thesis using g 1 True at_frontD by (intro exI [of _ sb1] exI [of _ "sk\<lparr>incoming := es\<rparr>"]) simp
    next
      case 2
      with fill_buffer_end [OF less.prems(1) l] obtain sb1 where
        f: "fill_buffer sb sk = Some (0, sb1, sk)" "at_front sb1 (pending sb)" by blast
      let ?b = "(sb_buf sb1)[unat (sb_end sb1) := NUL]"
      have e: "unat (sb_end sb1) = length (pending sb)" "length (sb_buf sb1) = SOCKBUF_SIZE" "sb_start sb1 = 0"
          "take (length (pending sb)) (sb_buf sb1) = pending sb"
        using f(2) by (simp_all add: at_front_def)
      have "jk_sb_gets sb sk = Some (Some (True, Some 0, sb1\<lparr>sb_buf := ?b\<rparr>, sk))"
        using g f(1) e l room_pos [of "sb_end sb1"] by simp
      moreover have "at_front (sb1\<lparr>sb_buf := ?b\<rparr>) (pending sb)" using e by (simp add: at_front_def)
      moreover have "drop 0 ?b = pending sb @ NUL # drop (Suc (length (pending sb))) (sb_buf sb1)"
        using e l by (simp add: upd_conv_take_nth_drop)
      moreover have "feed_end (incoming sk) \<noteq> Error" using 2 by auto
      ultimately show ?thesis using True at_frontD
        by (intro exI [of _ "sb1\<lparr>sb_buf := ?b\<rparr>"] exI [of _ sk] exI [of _ 0]) fastforce
    qed
  qed
qed


section \<open>Writing\<close>

definition written :: "jk_sockbuf \<times> sock \<Rightarrow> string" where
  "written s = outgoing (snd s) @ take (unat (sb_end (fst s))) (sb_buf (fst s))"

lemma c_send_all: "c_send sk bytes = (r, sk') \<Longrightarrow> r = int (length bytes) \<Longrightarrow> outgoing sk' = outgoing sk @ bytes"
  by (auto simp: c_send_def Let_def min_def split: list.splits if_splits)

lemma c_send_ok: "send_results sk = [] \<Longrightarrow> c_send sk bytes = (int (length bytes), sk\<lparr>outgoing := outgoing sk @ bytes\<rparr>)"
  by (simp add: c_send_def)

lemma flush_ok:
  assumes "sb_wf sb"
  shows "\<exists>ok sb' sk'. jk_sb_flush sb sk = Some (ok, sb', sk') \<and> sb_wf sb' \<and> sb_end sb' = 0
    \<and> (ok \<longrightarrow> outgoing sk' = written (sb, sk)) \<and> (send_results sk = [] \<longrightarrow> ok \<and> send_results sk' = [])"
proof -
  obtain r sk' where c: "c_send sk (take (unat (sb_end sb)) (sb_buf sb)) = (r, sk')" by fastforce
  have "unat (sb_end sb) \<le> length (sb_buf sb)" using assms by (simp add: sb_wf_def)
  moreover have "sint (sb_end sb) = int (unat (sb_end sb))"
    using assms by (intro sint_small) (simp add: sb_wf_def SOCKBUF_SIZE_def)
  ultimately show ?thesis
    using assms c c_send_all [OF c] c_send_ok [of sk]
    by (cases "sb_end sb = 0") (auto simp: jk_sb_flush_def Let_def sb_wf_def written_def)
qed

definition sb_put :: "jk_sockbuf \<times> sock \<Rightarrow> string \<Rightarrow> (bool \<times> jk_sockbuf \<times> sock) ub" where
  "sb_put s bytes = jk_sb_write (fst s) (Some bytes) (of_nat (length bytes)) (snd s)"

lemma append_ok:
  assumes "sb_wf sb" and "unat (sb_end sb) + length bytes \<le> SOCKBUF_SIZE"
  shows "\<exists>b. poke (sb_buf sb) (unat (sb_end sb)) bytes = Some b
     \<and> sb_wf (sb\<lparr>sb_buf := b, sb_end := sb_end sb + of_nat (length bytes)\<rparr>)
     \<and> written (sb\<lparr>sb_buf := b, sb_end := sb_end sb + of_nat (length bytes)\<rparr>, sk) = written (sb, sk) @ bytes"
proof -
  have u: "unat (sb_end sb + of_nat (length bytes)) = unat (sb_end sb) + length bytes"
    using assms(2) unat_u32_of_nat [of "length bytes"] by (simp add: unat_word_ariths SOCKBUF_SIZE_def)
  have f: "unat (sb_end sb) + length bytes \<le> length (sb_buf sb)" using assms by (simp add: sb_wf_def)
  show ?thesis
    using assms u poke_in [OF f] take_splice [OF f] f
    by (simp add: sb_wf_def written_def word_le_nat_alt)
qed

lemma sb_put_ok:
  assumes wf: "sb_wf sb" and b: "bytes \<noteq> []" "length bytes < 2 ^ 31"
  shows "\<exists>ok sb' sk'. sb_put (sb, sk) bytes = Some (ok, sb', sk') \<and> sb_wf sb'
    \<and> (ok \<longrightarrow> written (sb', sk') = written (sb, sk) @ bytes) \<and> (send_results sk = [] \<longrightarrow> ok \<and> send_results sk' = [])"
proof -
  let ?sz = "of_nat (length bytes) :: u32"
  have u: "unat ?sz = length bytes" using b(2) by (intro unat_u32_of_nat) simp
  then have nz: "?sz \<noteq> 0" using b(1) by auto
  have e: "unat (sb_end sb) \<le> SOCKBUF_SIZE" using wf by (simp add: sb_wf_def)
  have S: "unat (of_nat SOCKBUF_SIZE :: u32) = SOCKBUF_SIZE" by (simp add: SOCKBUF_SIZE_def)
  show ?thesis
  proof (cases "unat (sb_end sb) + length bytes \<le> SOCKBUF_SIZE")
    case True
    then have "?sz \<le> of_nat SOCKBUF_SIZE - sb_end sb" using room [OF e] u by (simp add: word_le_nat_alt)
    with append_ok [OF wf True, of sk] u nz show ?thesis by (auto simp: sb_put_def jk_sb_write_def)
  next
    case False
    then have n: "\<not> ?sz \<le> of_nat SOCKBUF_SIZE - sb_end sb" using room [OF e] u e by (simp add: word_le_nat_alt)
    obtain ok sb1 sk1 where f: "jk_sb_flush sb sk = Some (ok, sb1, sk1)" "sb_wf sb1" "sb_end sb1 = 0"
        "ok \<longrightarrow> outgoing sk1 = written (sb, sk)" "send_results sk = [] \<longrightarrow> ok \<and> send_results sk1 = []"
      using flush_ok [OF wf] by blast
    obtain r sk2 where c: "c_send sk1 bytes = (r, sk2)" by fastforce
    have big: "(of_nat SOCKBUF_SIZE < ?sz) = (SOCKBUF_SIZE < length bytes)" using u S by (simp add: word_less_nat_alt)
    have s: "sint ?sz = int (length bytes)" using sint_small [of ?sz] u b(2) by simp
    have w1: "written (sb1, sk1) = outgoing sk1" using f(3) by (simp add: written_def)
    show ?thesis
    proof (cases "ok \<and> \<not> SOCKBUF_SIZE < length bytes")
      case True
      then have "unat (sb_end sb1) + length bytes \<le> SOCKBUF_SIZE" using f(3) by simp
      from append_ok [OF f(2) this, of sk1] show ?thesis
        using True f w1 u nz n big by (auto simp: sb_put_def jk_sb_write_def)
    next
      case False
      then show ?thesis
        using f w1 u nz n big s c c_send_all [OF c] c_send_ok [of sk1]
        by (auto simp: sb_put_def jk_sb_write_def written_def)
    qed
  qed
qed


text \<open>A sequence of writes that stops at the first failure.\<close>

primrec put_all :: "('s \<Rightarrow> string \<Rightarrow> (bool \<times> 's) ub) \<Rightarrow> 's \<Rightarrow> string list \<Rightarrow> (bool \<times> 's) ub" where
  "put_all put s [] = Some (True, s)"
| "put_all put s (b # bs) = do { (ok, s') \<leftarrow> put s b; if ok then put_all put s' bs else Some (False, s') }"

text \<open>A sink of bytes: what a successful sequence of writes leaves behind is their concatenation.\<close>

locale byte_sink =
  fixes put :: "'s \<Rightarrow> string \<Rightarrow> (bool \<times> 's) ub"
    and view :: "'s \<Rightarrow> string"
    and inv :: "'s \<Rightarrow> bool"
    and accepts :: "string \<Rightarrow> bool"
    and reliable :: "'s \<Rightarrow> bool"
  assumes put_total: "inv s \<Longrightarrow> accepts b \<Longrightarrow> \<exists>ok s'. put s b = Some (ok, s') \<and> inv s'"
    and put_view: "inv s \<Longrightarrow> accepts b \<Longrightarrow> put s b = Some (True, s') \<Longrightarrow> view s' = view s @ b"
    and put_reliable: "inv s \<Longrightarrow> accepts b \<Longrightarrow> reliable s \<Longrightarrow> put s b = Some (ok, s') \<Longrightarrow> ok \<and> reliable s'"
begin

lemma put_all_ok:
  "inv s \<Longrightarrow> list_all accepts bs \<Longrightarrow>
   \<exists>ok s'. put_all put s bs = Some (ok, s') \<and> inv s' \<and> (ok \<longrightarrow> view s' = view s @ concat bs)
     \<and> (reliable s \<longrightarrow> ok \<and> reliable s')"
proof (induction bs arbitrary: s)
  case (Cons b bs)
  then have a: "accepts b" "list_all accepts bs" by simp_all
  obtain ok s1 where p: "put s b = Some (ok, s1)" "inv s1" using put_total [OF Cons.prems(1) a(1)] by blast
  show ?case
  proof (cases ok)
    case True
    with p put_view [OF Cons.prems(1) a(1)] have "view s1 = view s @ b" by simp
    with Cons.IH [OF p(2) a(2)] p True put_reliable [OF Cons.prems(1) a(1) _ p(1)] show ?thesis by auto
  next
    case False
    with p put_reliable [OF Cons.prems(1) a(1) _ p(1)] show ?thesis by auto
  qed
qed (intro exI [of _ True]; simp)

end

interpretation sb: byte_sink sb_put written "\<lambda>s. sb_wf (fst s)" "\<lambda>b. b \<noteq> [] \<and> length b < 2 ^ 31"
  "\<lambda>s. send_results (snd s) = []"
proof
  fix s :: "jk_sockbuf \<times> sock" and b :: string and s' ok
  assume a: "sb_wf (fst s)" "b \<noteq> [] \<and> length b < 2 ^ 31"
  obtain ok1 sb1 sk1 where p: "sb_put s b = Some (ok1, sb1, sk1)" "sb_wf sb1" "ok1 \<longrightarrow> written (sb1, sk1) = written s @ b"
      "send_results (snd s) = [] \<longrightarrow> ok1 \<and> send_results sk1 = []"
    using sb_put_ok [of "fst s" b "snd s"] a by auto
  show "\<exists>ok s'. sb_put s b = Some (ok, s') \<and> sb_wf (fst s')" using p by auto
  show "sb_put s b = Some (True, s') \<Longrightarrow> written s' = written s @ b" using p by auto
  show "send_results (snd s) = [] \<Longrightarrow> sb_put s b = Some (ok, s') \<Longrightarrow> ok \<and> send_results (snd s') = []"
    using p by auto
qed

section \<open>A sample buffer and socket\<close>

definition demo_sb :: jk_sockbuf where
  "demo_sb = \<lparr>sb_buf = replicate SOCKBUF_SIZE NUL, sb_start = 0, sb_end = 0, sb_sd = 3\<rparr>"

definition demo_sock :: "recv_event list \<Rightarrow> sock" where
  "demo_sock es = \<lparr>incoming = es, send_results = [], outgoing = []\<rparr>"

lemma demo_sb: "sb_wf demo_sb" "pending demo_sb = []" "take (unat (sb_end demo_sb)) (sb_buf demo_sb) = []"
  by (simp_all add: sb_wf_def demo_sb_def pending_def)

section \<open>The theorems\<close>

text \<open>Claim C23: a sequence of \<open>jk_sb_write\<close> calls followed by \<open>jk_sb_flush\<close>, all successful, sends
  exactly the bytes that were buffered before and the bytes written, in order, whatever their sizes;
  no call has undefined behaviour, and every call succeeds when no \<open>send\<close> fails.\<close>

theorem sb_write_stream:
  assumes "sb_wf sb" and "list_all (\<lambda>b. b \<noteq> [] \<and> length b < 2 ^ 31) chunks"
  shows "\<exists>ok sb1 sk1. put_all sb_put (sb, sk) chunks = Some (ok, sb1, sk1) \<and>
     (\<exists>ok2 sb2 sk2. jk_sb_flush sb1 sk1 = Some (ok2, sb2, sk2) \<and>
        (ok \<and> ok2 \<longrightarrow> outgoing sk2 = outgoing sk @ take (unat (sb_end sb)) (sb_buf sb) @ concat chunks) \<and>
        (send_results sk = [] \<longrightarrow> ok \<and> ok2))"
proof -
  obtain ok sb1 sk1 where p: "put_all sb_put (sb, sk) chunks = Some (ok, sb1, sk1)" "sb_wf sb1"
      "ok \<longrightarrow> written (sb1, sk1) = written (sb, sk) @ concat chunks" "send_results sk = [] \<longrightarrow> ok \<and> send_results sk1 = []"
    using sb.put_all_ok [of "(sb, sk)" chunks] assms by auto
  from flush_ok [OF p(2), of sk1] p show ?thesis by (fastforce simp: written_def)
qed

text \<open>Claim C28: when a line of fewer than \<open>SOCKBUF_SIZE\<close> bytes is next in the unread data, \<open>jk_sb_gets\<close>
  returns it, terminated and without its line end, however the data is split over calls of \<open>recv\<close>;
  the unread data is then what followed the line.\<close>

theorem sb_gets_line:
  assumes "sb_wf sb" and "pending sb @ feed (incoming sk) = l @ JK_LF # r" and "JK_LF \<notin> set l"
    and "length l < SOCKBUF_SIZE"
  shows "\<exists>k sb' sk' t. jk_sb_gets sb sk = Some (Some (True, Some k, sb', sk')) \<and> sb_wf sb'
     \<and> pending sb' @ feed (incoming sk') = r \<and> drop k (sb_buf sb') = strip_cr l @ NUL # t"
  using gets_line [OF assms] by blast

text \<open>Claim C29: \<open>jk_sb_gets\<close> does not return exactly when the unread data holds at least
  \<open>SOCKBUF_SIZE\<close> bytes and no line feed among the first \<open>SOCKBUF_SIZE\<close>: the buffer is full,
  \<open>fill_buffer\<close> reports success without reading and the loop goes on for ever.\<close>

theorem sb_gets_diverges:
  assumes "sb_wf sb"
  shows "jk_sb_gets sb sk = None \<longleftrightarrow>
     SOCKBUF_SIZE \<le> length (pending sb @ feed (incoming sk)) \<and>
     JK_LF \<notin> set (take SOCKBUF_SIZE (pending sb @ feed (incoming sk)))"
    (is "_ \<longleftrightarrow> ?long")
proof
  assume "?long"
  then show "jk_sb_gets sb sk = None" using gets_overlong [OF assms] by blast
next
  let ?w = "pending sb @ feed (incoming sk)"
  assume n: "jk_sb_gets sb sk = None"
  show "?long"
  proof (cases "JK_LF \<in> set ?w")
    case True
    then obtain l r where w: "?w = l @ JK_LF # r" "JK_LF \<notin> set l" by (meson split_list_first)
    with gets_line [OF assms w] n have "SOCKBUF_SIZE \<le> length l" by force
    with w show ?thesis by (auto dest: in_set_takeD)
  next
    case False
    with gets_last [OF assms False] n have "SOCKBUF_SIZE \<le> length ?w" by (force split: if_splits)
    with False show ?thesis by (auto dest: in_set_takeD)
  qed
qed

text \<open>At the end of the data a last line without line feed is returned whole, and an error of
  \<open>recv\<close> is reported without losing the data read before.\<close>

theorem sb_gets_last:
  assumes "sb_wf sb" and "JK_LF \<notin> set (pending sb @ feed (incoming sk))"
    and "length (pending sb @ feed (incoming sk)) < SOCKBUF_SIZE"
  shows "\<exists>sb' sk' k. sb_wf sb' \<and> pending sb' = pending sb @ feed (incoming sk) \<and>
     (if feed_end (incoming sk) = Error then jk_sb_gets sb sk = Some (Some (False, None, sb', sk'))
      else jk_sb_gets sb sk = Some (Some (True, Some k, sb', sk')) \<and>
           (\<exists>t. drop k (sb_buf sb') = (pending sb @ feed (incoming sk)) @ NUL # t))"
  using gets_last [OF assms] .

lemma read_fetch:
  assumes wf: "sb_wf sb"
    and fetch: "fetch = (if sb_end sb = sb_start sb then fill_buffer (sb\<lparr>sb_end := 0, sb_start := 0\<rparr>) sk else Some (1, sb, sk))"
  shows "(\<exists>sb1 sk1. fetch = Some (- 1, sb1, sk1) \<and> sb_wf sb1 \<and> pending sb = [] \<and> feed (incoming sk) = []
        \<and> feed_end (incoming sk) = Error)
     \<or> (\<exists>ret sb1 sk1. fetch = Some (ret, sb1, sk1) \<and> ret \<ge> 0 \<and> sb_wf sb1
        \<and> pending sb1 @ feed (incoming sk1) = pending sb @ feed (incoming sk)
        \<and> (pending sb1 = [] \<longrightarrow> pending sb @ feed (incoming sk) = []))"
proof (cases "pending sb = []")
  let ?sb0 = "sb\<lparr>sb_end := 0, sb_start := 0\<rparr>"
  have e: "sb_end sb = sb_start sb \<longleftrightarrow> pending sb = []"
    using length_pending [OF wf] wf by (auto simp: sb_wf_def word_le_nat_alt word_unat_eq_iff)
  have wf0: "sb_wf ?sb0" "pending ?sb0 = []" "length (pending ?sb0) < SOCKBUF_SIZE"
    using wf by (auto simp: sb_wf_def pending_def SOCKBUF_SIZE_def)
  {
    case False
    then show ?thesis using e wf by (simp add: fetch)
  next
    case True
    then have fd: "fetch = fill_buffer ?sb0 sk" using e by (simp add: fetch)
    consider es where "incoming sk = Error # es" | es where "incoming sk = [] \<or> incoming sk = Eof # es"
      | c bs es where "incoming sk = Data c bs # es"
      by (metis list.exhaust recv_event.exhaust)
    then show ?thesis
    proof cases
      case 1
      with fill_buffer_error [OF wf0(1,3) 1] at_frontD True show ?thesis unfolding fd by auto
    next
      case 2
      with fill_buffer_end [OF wf0(1,3) 2] at_frontD True wf0(2) show ?thesis unfolding fd by fastforce
    next
      case 3
      with fill_buffer_data [OF wf0(1,3) 3] at_frontD True wf0(2) show ?thesis unfolding fd by fastforce
    qed
  }
qed

lemma read_take:
  assumes wf: "sb_wf sb1" and ac: "ac = (if sb_end sb1 - sb_start sb1 > sz then sz else sb_end sb1 - sb_start sb1)"
  shows "ac \<le> sz" and "sb_wf (sb1\<lparr>sb_start := sb_start sb1 + ac\<rparr>)"
    and "take (unat ac) (drop (unat (sb_start sb1)) (sb_buf sb1)) @ pending (sb1\<lparr>sb_start := sb_start sb1 + ac\<rparr>) = pending sb1"
    and "ac = 0 \<longrightarrow> sz = 0 \<or> pending sb1 = []"
proof -
  have u: "unat (sb_end sb1 - sb_start sb1) = length (pending sb1)"
    using wf length_pending [OF wf] by (simp add: sb_wf_def unat_sub)
  have le: "unat ac \<le> length (pending sb1)" using u by (auto simp: ac word_less_nat_alt)
  have l: "unat (sb_start sb1) \<le> unat (sb_end sb1)" "unat (sb_end sb1) \<le> length (sb_buf sb1)"
    using wf by (simp_all add: sb_wf_def word_le_nat_alt)
  have s: "unat (sb_start sb1 + ac) = unat (sb_start sb1) + unat ac"
    using l le length_pending [OF wf] unat_u32_bound [of "sb_end sb1"] by (simp add: unat_word_ariths)
  have p: "pending (sb1\<lparr>sb_start := sb_start sb1 + ac\<rparr>) = drop (unat ac) (pending sb1)"
    by (simp add: pending_def s; simp add: add.commute)
  have t: "take (unat ac) (drop (unat (sb_start sb1)) (sb_buf sb1)) = take (unat ac) (pending sb1)"
    using le length_pending [OF wf] by (simp add: pending_def drop_take min_absorb1)
  show "ac \<le> sz" by (auto simp: ac)
  show "sb_wf (sb1\<lparr>sb_start := sb_start sb1 + ac\<rparr>)"
    using wf s le length_pending [OF wf] l by (simp add: sb_wf_def word_le_nat_alt)
  show "take (unat ac) (drop (unat (sb_start sb1)) (sb_buf sb1)) @ pending (sb1\<lparr>sb_start := sb_start sb1 + ac\<rparr>) = pending sb1"
    by (simp add: t p)
  show "ac = 0 \<longrightarrow> sz = 0 \<or> pending sb1 = []" using u by (auto simp: ac split: if_splits)
qed

text \<open>\<open>jk_sb_read\<close> hands out the unread data in order and without loss: the bytes at the
  returned position followed by the data still unread are the data that was unread before. It
  returns at most \<open>sz\<close> bytes, none only when \<open>sz\<close> is 0 or the data has ended, and fails only when
  the buffer is empty and \<open>recv\<close> fails.\<close>

theorem sb_read_stream:
  assumes wf: "sb_wf sb"
  shows "\<exists>ok k ac sb' sk'. jk_sb_read sb sz sk = Some (ok, k, ac, sb', sk') \<and> sb_wf sb' \<and>
     (if ok then \<exists>i. k = Some i \<and>
         take (unat ac) (drop i (sb_buf sb')) @ pending sb' @ feed (incoming sk') = pending sb @ feed (incoming sk)
         \<and> ac \<le> sz \<and> (ac = 0 \<longrightarrow> sz = 0 \<or> pending sb @ feed (incoming sk) = [])
      else pending sb = [] \<and> feed (incoming sk) = [] \<and> feed_end (incoming sk) = Error)"
proof -
  define fetch where
    "fetch = (if sb_end sb = sb_start sb then fill_buffer (sb\<lparr>sb_end := 0, sb_start := 0\<rparr>) sk else Some (1, sb, sk))"
  from read_fetch [OF wf fetch_def] show ?thesis
  proof (elim disjE exE conjE)
    fix sb1 sk1 assume "fetch = Some (- 1, sb1, sk1)" "sb_wf sb1" "pending sb = []" "feed (incoming sk) = []"
      "feed_end (incoming sk) = Error"
    then show ?thesis by (intro exI [of _ False]) (simp add: jk_sb_read_def flip: fetch_def)
  next
    fix ret sb1 sk1
    assume a: "fetch = Some (ret, sb1, sk1)" "ret \<ge> 0" "sb_wf sb1"
      "pending sb1 @ feed (incoming sk1) = pending sb @ feed (incoming sk)"
      "pending sb1 = [] \<longrightarrow> pending sb @ feed (incoming sk) = []"
    define ac where "ac = (if sb_end sb1 - sb_start sb1 > sz then sz else sb_end sb1 - sb_start sb1)"
    have "jk_sb_read sb sz sk = Some (True, Some (unat (sb_start sb1)), ac, sb1\<lparr>sb_start := sb_start sb1 + ac\<rparr>, sk1)"
      using a(1,2) by (simp add: jk_sb_read_def ac_def Let_def flip: fetch_def)
    with read_take [OF a(3) ac_def] a(4,5) show ?thesis by (auto simp flip: append_assoc)
  qed
qed

theorem sb_read_stream_witness:
  "\<exists>ok k ac sb' sk'. jk_sb_read demo_sb 2 (demo_sock [Data (CHR ''G'') ''ET'']) = Some (ok, k, ac, sb', sk') \<and> ok"
  using sb_read_stream [of demo_sb 2 "demo_sock [Data (CHR ''G'') ''ET'']"] demo_sb
  by (fastforce simp: demo_sock_def split: if_splits)

theorem sb_write_stream_witness:
  "\<exists>ok sb1 sk1. put_all sb_put (demo_sb, demo_sock []) [''ab'', ''c''] = Some (ok, sb1, sk1) \<and>
     (\<exists>ok2 sb2 sk2. jk_sb_flush sb1 sk1 = Some (ok2, sb2, sk2) \<and> ok \<and> ok2 \<and> outgoing sk2 = ''abc'')"
  using sb_write_stream [of demo_sb "[''ab'', ''c'']" "demo_sock []"] demo_sb
  by (fastforce simp: demo_sock_def)

theorem sb_gets_line_witness:
  "\<exists>k sb' sk' t. jk_sb_gets demo_sb (demo_sock [Data (CHR ''G'') ''E'', Data (CHR ''T'') [JK_CR, JK_LF, CHR ''x'']]) =
        Some (Some (True, Some k, sb', sk')) \<and> sb_wf sb'
     \<and> pending sb' @ feed (incoming sk') = ''x'' \<and> drop k (sb_buf sb') = ''GET'' @ NUL # t"
  using sb_gets_line [of demo_sb "demo_sock [Data (CHR ''G'') ''E'', Data (CHR ''T'') [JK_CR, JK_LF, CHR ''x'']]"
      "''GET'' @ [JK_CR]" "''x''"] demo_sb
  by (simp add: demo_sock_def SOCKBUF_SIZE_def strip_cr_def)

theorem sb_gets_diverges_witness:
  "jk_sb_gets demo_sb (demo_sock [Data (CHR ''x'') (replicate SOCKBUF_SIZE (CHR ''x''))]) = None"
proof -
  have "JK_LF \<notin> set (take SOCKBUF_SIZE (CHR ''x'' # replicate SOCKBUF_SIZE (CHR ''x'')))"
    by (auto dest: in_set_takeD)
  then show ?thesis
    using sb_gets_diverges [of demo_sb "demo_sock [Data (CHR ''x'') (replicate SOCKBUF_SIZE (CHR ''x''))]"] demo_sb
    by (simp add: demo_sock_def)
qed

theorem sb_gets_last_witness:
  "\<exists>sb' sk' k t. jk_sb_gets demo_sb (demo_sock [Data (CHR ''G'') ''E'', Eof]) = Some (Some (True, Some k, sb', sk'))
     \<and> drop k (sb_buf sb') = ''GE'' @ NUL # t"
  using sb_gets_last [of demo_sb "demo_sock [Data (CHR ''G'') ''E'', Eof]"] demo_sb
  by (fastforce simp: demo_sock_def SOCKBUF_SIZE_def)

end
