(* ===== verification/Jk_Uri.thy ===== *)
theory Jk_Uri
  imports Jk_Prelude
begin

text \<open>
  The URI functions of \<open>jk_util.c\<close>: \<open>jk_wildchar_match\<close>, \<open>jk_servlet_normalize\<close> and
  \<open>jk_strip_session_id\<close>.

  The matcher walks the suffixes of its two strings. The normaliser and the stripper rewrite a
  buffer in place with a read index \<open>l\<close> and a write index \<open>w\<close>; they are modelled on the buffer, and
  an access outside it is undefined. The theorems: the matcher decides a declarative glob relation;
  the four in-place passes compute the segment-wise normal form of the path, and report a traversal
  exactly when the path leaves the root.
\<close>

section \<open>The matcher\<close>

definition same_char :: "bool \<Rightarrow> char \<Rightarrow> char \<Rightarrow> bool" where
  "same_char icase a b = (if icase then tolower a = tolower b else a = b)"

text \<open>\<open>jk_wildchar_match\<close> is the \<open>for\<close> loop; \<open>wildchar_star\<close> is the inner loop over the suffixes of
  the string behind a star.\<close>

function jk_wildchar_match :: "string \<Rightarrow> string \<Rightarrow> bool \<Rightarrow> int"
  and wildchar_star :: "string \<Rightarrow> string \<Rightarrow> bool \<Rightarrow> int" where
  "jk_wildchar_match str [] icase = (if str \<noteq> [] then 1 else 0)"
| "jk_wildchar_match str (e # es) icase =
     (if str = [] \<and> e \<noteq> CHR ''*'' then - 1
      else if e = CHR ''*'' then
        let es' = dropWhile (\<lambda>c. c = CHR ''*'') es in
        if es' = [] then 0 else wildchar_star str es' icase
      else if e \<noteq> CHR ''?'' \<and> \<not> same_char icase (hd str) e then 1
      else jk_wildchar_match (tl str) es icase)"
| "wildchar_star [] es icase = - 1"
| "wildchar_star (c # str) es icase =
     (let ret = jk_wildchar_match (c # str) es icase in
      if ret \<noteq> 1 then ret else wildchar_star str es icase)"
  by pat_completeness auto
termination
  by (relation "inv_image (less_than <*lex*> less_than <*lex*> less_than)
       (case_sum (\<lambda>(s, e, i). (length e, length s, 0)) (\<lambda>(s, e, i). (length e, length s, Suc 0)))")
    (auto simp: le_imp_less_Suc length_dropWhile_le)

section \<open>The normaliser\<close>

abbreviation JK_NORMALIZE_BAD_PATH :: int where
  "JK_NORMALIZE_BAD_PATH \<equiv> - 1"

abbreviation JK_NORMALIZE_TRAVERSAL :: int where
  "JK_NORMALIZE_TRAVERSAL \<equiv> - 2"

text \<open>First pass: \<open>skip_param\<close> is its inner loop.\<close>

function skip_param :: "string \<Rightarrow> nat \<Rightarrow> nat ub" where
  "skip_param path l =
     do { c \<leftarrow> rd path l;
          if c \<noteq> CHR ''/'' \<and> c \<noteq> NUL then skip_param path (l + 1) else Some l }"
  by pat_completeness auto
termination
  by (relation "measure (\<lambda>(path, l). length path - l)") (auto simp: ub_simps)

lemma skip_param_ge: "skip_param path l = Some l' \<Longrightarrow> l \<le> l'"
proof (induction path l rule: skip_param.induct)
  case (1 path l)
  show ?case
  proof (cases "l < length path \<and> path ! l \<noteq> CHR ''/'' \<and> path ! l \<noteq> NUL")
    case True
    then have "skip_param path l = skip_param path (l + 1)" by (subst skip_param.simps) simp
    with 1 True show ?thesis by (fastforce simp: rd_Some simp del: skip_param.simps)
  next
    case False
    with 1(2) show ?thesis by (auto simp: ub_simps split: if_splits)
  qed
qed

function pass_params :: "string \<Rightarrow> nat \<Rightarrow> nat \<Rightarrow> string ub" where
  "pass_params path l w =
     do { c \<leftarrow> rd path l;
          if c = NUL then wr path w NUL
          else if c = CHR '';'' then do { l' \<leftarrow> skip_param path (l + 1); pass_params path l' w }
          else do { path' \<leftarrow> wr path w c; pass_params path' (l + 1) (w + 1) } }"
  by pat_completeness auto
termination
  by (relation "measure (\<lambda>(path, l, w). length path - l)")
    (auto simp: ub_simps simp del: skip_param.simps dest!: skip_param_ge)

function pass_slashes :: "string \<Rightarrow> nat \<Rightarrow> nat \<Rightarrow> string ub" where
  "pass_slashes path l w =
     do { c \<leftarrow> rd path l;
          if c = NUL then wr path w NUL
          else do {
            p \<leftarrow> rdi path (int w - 1);
            if p = CHR ''/'' \<and> c = CHR ''/'' then pass_slashes path (l + 1) w
            else do { path' \<leftarrow> wr path w c; pass_slashes path' (l + 1) (w + 1) } } }"
  by pat_completeness auto
termination
  by (relation "measure (\<lambda>(path, l, w). length path - l)") (auto simp: ub_simps)

text \<open>Third pass: the condition is evaluated from left to right, so that a byte is read only when
  the bytes before it matched.\<close>

definition dot_at :: "string \<Rightarrow> nat \<Rightarrow> bool ub" where
  "dot_at path l =
     do { c \<leftarrow> rd path l;
          if c \<noteq> CHR ''.'' then Some False
          else do {
            d \<leftarrow> rd path (l + 1);
            if d \<noteq> CHR ''/'' \<and> d \<noteq> NUL then Some False
            else if l = 0 then Some True
            else do { p \<leftarrow> rd path (l - 1); Some (p = CHR ''/'') } } }"

function pass_dots :: "string \<Rightarrow> nat \<Rightarrow> nat \<Rightarrow> string ub" where
  "pass_dots path l w =
     do { c \<leftarrow> rd path l;
          if c = NUL then wr path w NUL
          else do {
            dot \<leftarrow> dot_at path l;
            if dot then
              do { d \<leftarrow> rd path (l + 1);
                   pass_dots path (if d = CHR ''/'' then l + 1 + 1 else l + 1) w }
            else do { path' \<leftarrow> wr path w c; pass_dots path' (l + 1) (w + 1) } } }"
  by pat_completeness auto
termination
  by (relation "measure (\<lambda>(path, l, w). length path - l)") (auto simp: ub_simps)

definition dotdot_at :: "string \<Rightarrow> nat \<Rightarrow> bool ub" where
  "dotdot_at path l =
     do { c \<leftarrow> rd path l;
          if c \<noteq> CHR ''.'' then Some False
          else do {
            d \<leftarrow> rd path (l + 1);
            if d \<noteq> CHR ''.'' then Some False
            else do {
              e \<leftarrow> rd path (l + 2);
              if e \<noteq> CHR ''/'' \<and> e \<noteq> NUL then Some False
              else if l = 0 then Some True
              else do { p \<leftarrow> rd path (l - 1); Some (p = CHR ''/'') } } } }"

text \<open>The \<open>do ... while\<close> loop that winds \<open>w\<close> back: the body first decrements.\<close>

fun wind_back :: "string \<Rightarrow> nat \<Rightarrow> nat ub" where
  "wind_back path 0 = None"
| "wind_back path (Suc w) =
     (if w = 0 then Some w
      else do { c \<leftarrow> rd path (w - 1); if c \<noteq> CHR ''/'' then wind_back path w else Some w })"

function pass_dotdots :: "string \<Rightarrow> nat \<Rightarrow> nat \<Rightarrow> (int \<times> string) ub" where
  "pass_dotdots path l w =
     do { c \<leftarrow> rd path l;
          if c = NUL then do { path' \<leftarrow> wr path w NUL; Some (0, path') }
          else do {
            dotdot \<leftarrow> dotdot_at path l;
            if dotdot then
              if w = 1 then Some (JK_NORMALIZE_TRAVERSAL, path)
              else do {
                w' \<leftarrow> wind_back path w;
                d \<leftarrow> rd path (l + 2);
                pass_dotdots path (if d = CHR ''/'' then l + 2 + 1 else l + 2) w' }
            else do { path' \<leftarrow> wr path w c; pass_dotdots path' (l + 1) (w + 1) } } }"
  by pat_completeness auto
termination
  by (relation "measure (\<lambda>(path, l, w). length path - l)") (auto simp: ub_simps)

definition jk_servlet_normalize :: "string \<Rightarrow> (int \<times> string) ub" where
  "jk_servlet_normalize path =
     do {
       c \<leftarrow> rd path 0;
       if c \<noteq> CHR ''/'' then
         do {
           options \<leftarrow> (if c = CHR ''*'' then do { d \<leftarrow> rd path 1; Some (d = NUL) } else Some False);
           Some (if options then 0 else JK_NORMALIZE_BAD_PATH, path)
         }
       else do {
         path1 \<leftarrow> pass_params path 1 1;
         path2 \<leftarrow> pass_slashes path1 1 1;
         path3 \<leftarrow> pass_dots path2 1 1;
         pass_dotdots path3 1 1
       }
     }"

section \<open>Stripping the session identifier\<close>

text \<open>\<open>k\<close> is the index of \<open>jsessionid\<close> in the buffer, \<open>i\<close> and \<open>j\<close> count from there.\<close>

function skip_session :: "string \<Rightarrow> nat \<Rightarrow> nat \<Rightarrow> nat ub" where
  "skip_session path k i =
     do { c \<leftarrow> rd path (k + i);
          if c \<noteq> NUL \<and> c \<noteq> CHR '';'' \<and> c \<noteq> CHR ''/'' then skip_session path k (i + 1) else Some i }"
  by pat_completeness auto
termination
  by (relation "measure (\<lambda>(path, k, i). length path - (k + i))") (auto simp: ub_simps)

function copy_down :: "string \<Rightarrow> nat \<Rightarrow> nat \<Rightarrow> nat \<Rightarrow> string ub" where
  "copy_down path k i j =
     do { c \<leftarrow> rd path (k + i);
          if c = NUL then wr path (k + j) NUL
          else do { path' \<leftarrow> wr path (k + j) c; copy_down path' k (i + 1) (j + 1) } }"
  by pat_completeness auto
termination
  by (relation "measure (\<lambda>(path, k, i, j). length path - (k + i))") (auto simp: ub_simps)

definition jk_strip_session_id :: "string \<Rightarrow> string \<Rightarrow> (int \<times> string) ub" where
  "jk_strip_session_id path session_name =
     (case c_strstr (cstring_of path) session_name of
        None \<Rightarrow> Some (0, path)
      | Some k \<Rightarrow>
          do {
            i \<leftarrow> skip_session path k (length session_name);
            path' \<leftarrow> copy_down path k i 0;
            Some (1, path')
          })"

section \<open>The matcher decides a glob\<close>

fun glob :: "bool \<Rightarrow> string \<Rightarrow> string \<Rightarrow> bool" where
  "glob icase s [] = (s = [])"
| "glob icase s (e # es) =
     (if e = CHR ''*'' then \<exists>n \<in> {0..length s}. glob icase (drop n s) es
      else s \<noteq> [] \<and> (e = CHR ''?'' \<or> same_char icase (hd s) e) \<and> glob icase (tl s) es)"

definition some_suffix :: "bool \<Rightarrow> string \<Rightarrow> string \<Rightarrow> bool" where
  "some_suffix icase s es \<longleftrightarrow> (\<exists>n. glob icase (drop n s) es)"

lemma glob_star: "glob icase s (CHR ''*'' # es) = some_suffix icase s es"
proof
  assume "some_suffix icase s es"
  then obtain n where "glob icase (drop n s) es" by (auto simp: some_suffix_def)
  then have "glob icase (drop (min n (length s)) s) es" by (cases "n \<le> length s") (simp_all add: min_def)
  then show "glob icase s (CHR ''*'' # es)" by force
qed (auto simp: some_suffix_def)

lemma some_suffix_drop: "some_suffix icase (drop k s) es \<Longrightarrow> some_suffix icase s es"
  by (auto simp: some_suffix_def)

lemma some_suffix_Cons: "some_suffix icase (c # s) es \<longleftrightarrow> glob icase (c # s) es \<or> some_suffix icase s es"
  unfolding some_suffix_def by (metis drop0 drop_Suc_Cons not0_implies_Suc)

lemma some_suffix_refl: "glob icase s es \<Longrightarrow> some_suffix icase s es"
  unfolding some_suffix_def by (intro exI [of _ 0]) simp

lemma some_suffix_stars: "some_suffix icase s (dropWhile (\<lambda>c. c = CHR ''*'') es) = some_suffix icase s es"
proof (induction es arbitrary: s)
  case (Cons e es)
  have "some_suffix icase s (CHR ''*'' # es) \<longleftrightarrow> some_suffix icase s es"
    using some_suffix_drop some_suffix_refl unfolding some_suffix_def [of icase s "CHR ''*'' # es"] glob_star by (metis drop0)
  with Cons show ?case by simp
qed simp

lemma some_suffix_Nil: "some_suffix icase s []"
  unfolding some_suffix_def by (intro exI [of _ "length s"]) simp

lemma wildchar_glob:
  shows "(jk_wildchar_match s e icase = 0) = glob icase s e \<and>
      (jk_wildchar_match s e icase = - 1 \<longrightarrow> \<not> some_suffix icase s e) \<and>
      jk_wildchar_match s e icase \<in> {0, 1, - 1}"
    and "es \<noteq> [] \<Longrightarrow> hd es \<noteq> CHR ''*'' \<Longrightarrow>
      wildchar_star t es icase = (if some_suffix icase t es then 0 else - 1)"
proof (induction s e icase and t es icase rule: jk_wildchar_match_wildchar_star.induct)
  case (1 str icase)
  then show ?case by simp
next
  case (2 str e es icase)
  show ?case
  proof (cases "e = CHR ''*''")
    case True
    define es' where es': "es' = dropWhile (\<lambda>c. c = CHR ''*'') es"
    have h: "es' \<noteq> [] \<Longrightarrow> hd es' \<noteq> CHR ''*''" unfolding es' by (rule hd_dropWhile)
    have g: "glob icase str (e # es) = some_suffix icase str es'"
      using True glob_star some_suffix_stars unfolding es' by simp
    have ss: "some_suffix icase str (e # es) = some_suffix icase str es'"
      using some_suffix_stars [of icase str "e # es"] True unfolding es' by simp
    have w: "jk_wildchar_match str (e # es) icase = (if es' = [] then 0 else wildchar_star str es' icase)"
      using True unfolding es' by (simp add: Let_def)
    have "wildchar_star str es' icase = (if some_suffix icase str es' then 0 else - 1)" if "es' \<noteq> []"
      using 2(1)[of es'] True that h unfolding es' by simp
    then show ?thesis using w g ss some_suffix_Nil by (cases "es' = []") (simp_all del: glob.simps)
  next
    case False
    have none: "\<not> some_suffix icase [] (e # es)" using False by (simp add: some_suffix_def)
    show ?thesis
    proof (cases str)
      case Nil
      then show ?thesis using False none by simp
    next
      case (Cons c s)
      have shorter: "some_suffix icase (c # s) (e # es) \<Longrightarrow> some_suffix icase s es"
        using False unfolding some_suffix_def by (auto simp: tl_drop)
      show ?thesis
        using 2(2) False Cons shorter by (cases "e \<noteq> CHR ''?'' \<and> \<not> same_char icase c e") auto
    qed
  qed
next
  case (3 es icase)
  then show ?case by (cases es) (simp_all add: some_suffix_def)
next
  case (4 c str es icase)
  then show ?case by (auto simp: Let_def some_suffix_Cons)
qed


section \<open>The passes as list functions\<close>

function strip_params :: "string \<Rightarrow> string" where
  "strip_params [] = []"
| "strip_params (c # s) =
     (if c = CHR '';'' then strip_params (dropWhile (\<lambda>d. d \<noteq> CHR ''/'') s) else c # strip_params s)"
  by pat_completeness auto
termination
  by (relation "measure length") (auto simp: le_imp_less_Suc length_dropWhile_le)

fun collapse :: "char \<Rightarrow> string \<Rightarrow> string" where
  "collapse p [] = []"
| "collapse p (c # s) = (if p = CHR ''/'' \<and> c = CHR ''/'' then collapse p s else c # collapse c s)"

fun undot :: "char \<Rightarrow> string \<Rightarrow> string" where
  "undot p [] = []"
| "undot p [c] = (if c = CHR ''.'' \<and> p = CHR ''/'' then [] else [c])"
| "undot p (c # d # s) =
     (if c = CHR ''.'' \<and> d = CHR ''/'' \<and> p = CHR ''/'' then undot d s else c # undot c (d # s))"

definition unwind :: "string \<Rightarrow> string" where
  "unwind out = rev (dropWhile (\<lambda>c. c \<noteq> CHR ''/'') (tl (rev out)))"

fun undotdot :: "string \<Rightarrow> char \<Rightarrow> string \<Rightarrow> string option" where
  "undotdot out p [] = Some out"
| "undotdot out p [c] = Some (out @ [c])"
| "undotdot out p [c, d] =
     (if c = CHR ''.'' \<and> d = CHR ''.'' \<and> p = CHR ''/'' then
        if length out = 1 then None else Some (unwind out)
      else undotdot (out @ [c]) c [d])"
| "undotdot out p (c # d # e # s) =
     (if c = CHR ''.'' \<and> d = CHR ''.'' \<and> e = CHR ''/'' \<and> p = CHR ''/'' then
        if length out = 1 then None else undotdot (unwind out) e s
      else undotdot (out @ [c]) c (d # e # s))"

section \<open>The passes on the buffer\<close>

text \<open>The state of a pass: the first \<open>w\<close> bytes are written, the string from \<open>l\<close> on is still to be read
  and \<open>p\<close> is the byte in front of it.\<close>

definition pass_inv :: "string \<Rightarrow> nat \<Rightarrow> nat \<Rightarrow> string \<Rightarrow> char \<Rightarrow> string \<Rightarrow> bool" where
  "pass_inv b l w out p s \<longleftrightarrow> 0 < l \<and> w \<le> l \<and> take w b = out \<and> length out = w \<and> b ! (l - 1) = p \<and> is_cstr s
     \<and> l + length s < length b \<and> take (length s + 1) (drop l b) = s @ [NUL]"

definition holds :: "string \<Rightarrow> string \<Rightarrow> bool" where
  "holds b s \<longleftrightarrow> is_cstr s \<and> take (length s + 1) b = s @ [NUL]"

lemma pass_read:
  assumes "pass_inv b l w out p s"
  shows "rd b (l + i) = (if i < length s then Some (s ! i) else if i = length s then Some NUL else rd b (l + i))"
    and "rd b (l - 1) = Some p"
proof -
  have l: "l + length s < length b" "take (length s + 1) (drop l b) = s @ [NUL]" "b ! (l - 1) = p"
    using assms by (simp_all add: pass_inv_def)
  have "b ! (l + i) = (s @ [NUL]) ! i" if "i \<le> length s"
    using that l(1) by (subst l(2) [symmetric]) simp
  then show "rd b (l + i) = (if i < length s then Some (s ! i) else if i = length s then Some NUL else rd b (l + i))"
    using l(1) by (auto simp: nth_append)
  show "rd b (l - 1) = Some p" using l by simp
qed

lemma pass_read_0:
  assumes "pass_inv b l w out p s"
  shows "rd b l = Some (if s = [] then NUL else hd s)"
  using pass_read(1) [OF assms, of 0] by (cases s) auto

lemma pass_copy:
  assumes "pass_inv b l w out p (c # s)"
  shows "wr b w c = Some (b[w := c])" and "pass_inv (b[w := c]) (l + 1) (w + 1) (out @ [c]) c s"
proof -
  have b: "w \<le> l" "l < length b" "w < length b" using assms by (auto simp: pass_inv_def)
  then show "wr b w c = Some (b[w := c])" by simp
  have bl: "b ! l = c" using pass_read_0 [OF assms] b by simp
  have "take (length s + 1) (drop (l + 1) (b[w := c])) = take (length s + 1) (drop 1 (drop l b))"
    using b by simp
  also have "\<dots> = drop 1 (take (length (c # s) + 1) (drop l b))" by (simp add: drop_take)
  finally have "take (length s + 1) (drop (l + 1) (b[w := c])) = s @ [NUL]"
    using assms by (simp add: pass_inv_def)
  moreover have "take (w + 1) (b[w := c]) = out @ [c]"
    using assms b by (simp add: pass_inv_def take_Suc_conv_app_nth)
  moreover have "b[w := c] ! l = c" using bl b by (cases "w = l") simp_all
  ultimately show "pass_inv (b[w := c]) (l + 1) (w + 1) (out @ [c]) c s"
    using assms b by (simp add: pass_inv_def is_cstr_def)
qed

lemma pass_skip:
  assumes "pass_inv b l w out p (u @ s)" and "u \<noteq> []"
  shows "pass_inv b (l + length u) w out (last u) s"
proof -
  have i: "take (length (u @ s) + 1) (drop l b) = (u @ s) @ [NUL]" "l + length (u @ s) < length b"
    using assms(1) by (simp_all only: pass_inv_def)
  have "take (length s + 1) (drop (l + length u) b) = drop (length u) (take (length (u @ s) + 1) (drop l b))"
    by (simp add: drop_take add.commute)
  also have "\<dots> = s @ [NUL]" unfolding i(1) by simp
  finally have "take (length s + 1) (drop (l + length u) b) = s @ [NUL]" .
  moreover have "b ! (l + length u - 1) = last u"
  proof -
    have last: "length u - 1 < length (u @ s)" using assms(2) by (cases u) simp_all
    have "rd b (l + (length u - 1)) = Some ((u @ s) ! (length u - 1))"
      using pass_read(1) [OF assms(1), of "length u - 1"] last by simp
    moreover have "l + (length u - 1) = l + length u - 1" using assms(2) by (cases u) simp_all
    ultimately show ?thesis using assms(2) by (simp add: rd_Some nth_append last_conv_nth)
  qed
  ultimately show ?thesis using assms i(2) by (auto simp: pass_inv_def is_cstr_def)
qed

lemma pass_finish:
  assumes "pass_inv b l w out p []" and "is_cstr out"
  shows "wr b w NUL = Some (b[w := NUL])" and "holds (b[w := NUL]) out"
  using assms by (auto simp: pass_inv_def holds_def take_Suc_conv_app_nth)

lemma holds_pass:
  assumes "holds b (out @ u @ s)" and "u \<noteq> []"
  shows "pass_inv b (length out + length u) (length out) out (last u) s"
proof -
  let ?p = "out @ u @ s"
  have h: "take (length ?p + 1) b = ?p @ [NUL]" and c: "is_cstr ?p" using assms(1) by (simp_all add: holds_def)
  have "length (take (length ?p + 1) b) = length ?p + 1" using h by simp
  then have l: "length ?p < length b" by (simp add: min_def split: if_splits)
  have "take (length out) (take (length ?p + 1) b) = out" unfolding h by simp
  then have t: "take (length out) b = out" by (simp add: min_def)
  have "take (length s + 1) (drop (length out + length u) b) = drop (length out + length u) (take (length ?p + 1) b)"
    by (simp add: drop_take)
  also have "\<dots> = s @ [NUL]" unfolding h by simp
  finally have d: "take (length s + 1) (drop (length out + length u) b) = s @ [NUL]" .
  have k: "length out + (length u - 1) < length ?p + 1" by simp
  have "b ! (length out + (length u - 1)) = (?p @ [NUL]) ! (length out + (length u - 1))"
    using nth_take [OF k, of b] unfolding h by simp
  also have "\<dots> = u ! (length u - 1)"
    using assms(2) by (simp add: nth_append)
  also have "\<dots> = last u" using assms(2) by (simp add: last_conv_nth)
  finally have "b ! (length out + (length u - 1)) = last u" .
  moreover have "length out + (length u - 1) = length out + length u - 1" using assms(2) by (cases u) simp_all
  ultimately show ?thesis using t d l c assms(2) by (simp add: pass_inv_def is_cstr_def)
qed

lemma pass_start: "holds b (CHR ''/'' # s) \<Longrightarrow> pass_inv b 1 1 ''/'' (CHR ''/'') s"
proof -
  assume h: "holds b (CHR ''/'' # s)"
  then have "pass_inv b 1 0 [] (CHR ''/'') s" using holds_pass [of b "[]" "''/''" s] by simp
  moreover have "take 1 b = ''/''" using h by (cases b) (simp_all add: holds_def)
  ultimately show ?thesis by (simp add: pass_inv_def)
qed

declare skip_param.simps [simp del] pass_params.simps [simp del] pass_slashes.simps [simp del]
  pass_dots.simps [simp del] pass_dotdots.simps [simp del] skip_session.simps [simp del] copy_down.simps [simp del]

lemma pass_inv_tl: "pass_inv b l w out p (c # s) \<Longrightarrow> pass_inv b (Suc l) w out c s"
  using pass_skip [of b l w out p "[c]" s] by simp

lemma pass_inv_cstr: "pass_inv b l w out p (c # s) \<Longrightarrow> c \<noteq> NUL"
  by (auto simp: pass_inv_def is_cstr_def)

lemma skip_param_spec:
  "pass_inv b l w out p s \<Longrightarrow> skip_param b l = Some (l + length (takeWhile (\<lambda>c. c \<noteq> CHR ''/'') s))"
proof (induction s arbitrary: l p)
  case Nil
  then show ?case using pass_read_0 [OF Nil] by (subst skip_param.simps) simp
next
  case (Cons c s)
  show ?case
    using pass_read_0 [OF Cons.prems] Cons.IH [OF pass_inv_tl [OF Cons.prems]] pass_inv_cstr [OF Cons.prems]
    by (subst skip_param.simps) simp
qed

lemma pass_params_spec:
  "pass_inv b l w out p s \<Longrightarrow> is_cstr out \<Longrightarrow> \<exists>b'. pass_params b l w = Some b' \<and> holds b' (out @ strip_params s)"
proof (induction s arbitrary: b l w out p rule: strip_params.induct)
  case 1
  then show ?case using pass_read_0 [OF 1(1)] pass_finish [OF 1] by (subst pass_params.simps) simp
next
  case (2 c s)
  have c: "c \<noteq> NUL" using 2(3) by (rule pass_inv_cstr)
  show ?case
  proof (cases "c = CHR '';''")
    case False
    have "pass_params b l w = pass_params (b[w := c]) (l + 1) (w + 1)"
      using pass_read_0 [OF 2(3)] c False pass_copy(1) [OF 2(3)] by (subst pass_params.simps) simp
    with 2(2)[OF False pass_copy(2) [OF 2(3)]] 2(4) c False show ?thesis by (simp add: is_cstr_def)
  next
    case True
    let ?t = "takeWhile (\<lambda>d. d \<noteq> CHR ''/'') s"
    have k: "skip_param b (l + 1) = Some (l + length (c # ?t))"
      using skip_param_spec [OF pass_inv_tl [OF 2(3)]] by simp
    have "pass_inv b (l + length (c # ?t)) w out (last (c # ?t)) (dropWhile (\<lambda>d. d \<noteq> CHR ''/'') s)"
      using 2(3) by (intro pass_skip) simp_all
    from 2(1)[OF True this 2(4)] k True pass_read_0 [OF 2(3)] show ?thesis
      by (subst pass_params.simps) simp
  qed
qed

lemma pass_slashes_spec:
  "pass_inv b l w out p s \<Longrightarrow> is_cstr out \<Longrightarrow> out \<noteq> [] \<Longrightarrow>
   \<exists>b'. pass_slashes b l w = Some b' \<and> holds b' (out @ collapse (last out) s)"
proof (induction s arbitrary: b l w out p)
  case Nil
  then show ?case using pass_read_0 [OF Nil(1)] pass_finish [OF Nil(1,2)] by (subst pass_slashes.simps) simp
next
  case (Cons c s)
  have c: "c \<noteq> NUL" using Cons(2) by (rule pass_inv_cstr)
  have w: "take w b = out" "length out = w" "w \<le> length b" using Cons(2) by (auto simp: pass_inv_def)
  then have "rdi b (int w - 1) = Some (last out)"
    using Cons(4) by (cases w) (auto simp: rdi_def last_conv_nth nat_diff_distrib)
  note step = pass_read_0 [OF Cons(2)] c this
  show ?case
  proof (cases "last out = CHR ''/'' \<and> c = CHR ''/''")
    case True
    with Cons.IH [OF pass_inv_tl [OF Cons(2)] Cons(3,4)] step show ?thesis
      by (subst pass_slashes.simps) simp
  next
    case False
    have "pass_slashes b l w = pass_slashes (b[w := c]) (l + 1) (w + 1)"
      using step False pass_copy(1) [OF Cons(2)] by (subst pass_slashes.simps) auto
    with Cons.IH [OF pass_copy(2) [OF Cons(2)]] Cons(3) c False show ?thesis by (auto simp: is_cstr_def)
  qed
qed

lemma pass_inv_pos: "pass_inv b l w out p s \<Longrightarrow> l \<noteq> 0"
  by (simp add: pass_inv_def)

lemma dot_at_spec:
  assumes "pass_inv b l w out p (c # s)"
  shows "dot_at b l = Some (c = CHR ''.'' \<and> (s = [] \<or> hd s = CHR ''/'') \<and> p = CHR ''/'')"
proof -
  note tl = pass_inv_tl [OF assms]
  have "s \<noteq> [] \<Longrightarrow> hd s \<noteq> NUL" using tl pass_inv_cstr by (cases s) auto
  then show ?thesis
    using pass_read_0 [OF assms] pass_read_0 [OF tl] pass_read(2) [OF assms] pass_inv_pos [OF assms]
    by (simp add: dot_at_def)
qed

lemma pass_dots_spec:
  "pass_inv b l w out p s \<Longrightarrow> is_cstr out \<Longrightarrow> \<exists>b'. pass_dots b l w = Some b' \<and> holds b' (out @ undot p s)"
proof (induction p s arbitrary: b l w out rule: undot.induct)
  case (1 p)
  then show ?case using pass_read_0 [OF 1(1)] pass_finish [OF 1] by (subst pass_dots.simps) simp
next
  case (2 p c)
  note step = pass_read_0 [OF 2(1)] pass_inv_cstr [OF 2(1)] dot_at_spec [OF 2(1)]
  have tl: "pass_inv b (Suc l) w out c []" using 2(1) by (rule pass_inv_tl)
  show ?case
  proof (cases "c = CHR ''.'' \<and> p = CHR ''/''")
    case True
    have "pass_dots b l w = pass_dots b (Suc l) w"
      using step True pass_read_0 [OF tl] by (subst pass_dots.simps) simp
    also have "\<dots> = Some (b[w := NUL])"
      using pass_read_0 [OF tl] pass_finish(1) [OF tl 2(2)] by (subst pass_dots.simps) simp
    finally show ?thesis using pass_finish(2) [OF tl 2(2)] True by simp
  next
    case False
    note cp = pass_copy [OF 2(1)]
    have "pass_dots b l w = pass_dots (b[w := c]) (l + 1) (w + 1)"
      using step False cp(1) by (subst pass_dots.simps) auto
    also have "\<dots> = Some ((b[w := c])[w + 1 := NUL])"
      using pass_read_0 [OF cp(2)] pass_finish(1) [OF cp(2)] 2(2) step(2) by (subst pass_dots.simps) (simp add: is_cstr_def)
    finally show ?thesis using pass_finish(2) [OF cp(2)] 2(2) step(2) False by (auto simp: is_cstr_def)
  qed
next
  case (3 p c d s)
  note step = pass_read_0 [OF 3(3)] pass_inv_cstr [OF 3(3)] dot_at_spec [OF 3(3)]
  have tl: "pass_inv b (Suc l) w out c (d # s)" using 3(3) by (rule pass_inv_tl)
  show ?case
  proof (cases "c = CHR ''.'' \<and> d = CHR ''/'' \<and> p = CHR ''/''")
    case True
    have "pass_dots b l w = pass_dots b (Suc (Suc l)) w"
      using step True pass_read_0 [OF tl] by (subst pass_dots.simps) simp
    with 3(1)[OF True pass_inv_tl [OF tl] 3(4)] True show ?thesis by simp
  next
    case False
    have "pass_dots b l w = pass_dots (b[w := c]) (l + 1) (w + 1)"
      using step False pass_copy(1) [OF 3(3)] by (subst pass_dots.simps) auto
    with 3(2)[OF False pass_copy(2) [OF 3(3)]] 3(4) step(2) False show ?thesis by (auto simp: is_cstr_def)
  qed
qed


lemma dotdot_at_spec:
  assumes "pass_inv b l w out p (c # s)"
  shows "dotdot_at b l = Some (c = CHR ''.'' \<and> s \<noteq> [] \<and> hd s = CHR ''.'' \<and> (tl s = [] \<or> hd (tl s) = CHR ''/'') \<and> p = CHR ''/'')"
proof (cases s)
  case Nil
  then show ?thesis using pass_read_0 [OF assms] pass_read_0 [OF pass_inv_tl [OF assms]] by (simp add: dotdot_at_def)
next
  case (Cons d t)
  have i1: "pass_inv b (Suc l) w out c (d # t)" using pass_inv_tl [OF assms] Cons by simp
  have i2: "pass_inv b (Suc (Suc l)) w out d t" using i1 by (rule pass_inv_tl)
  have "t \<noteq> [] \<Longrightarrow> hd t \<noteq> NUL" using i2 pass_inv_cstr by (cases t) auto
  then show ?thesis
    using pass_read_0 [OF assms] pass_read_0 [OF i1] pass_read_0 [OF i2] pass_read(2) [OF assms]
      pass_inv_pos [OF assms] Cons
    by (simp add: dotdot_at_def)
qed

lemma wind_back_spec:
  "0 < w \<Longrightarrow> w \<le> length b \<Longrightarrow> wind_back b w = Some (length (unwind (take w b)))"
proof (induction b w rule: wind_back.induct)
  case (2 b w)
  show ?case
  proof (cases w)
    case 0
    then show ?thesis using 2(3) by (cases b) (simp_all add: unwind_def)
  next
    case (Suc v)
    have "rev (take w b) = b ! v # rev (take v b)" "rev (take (Suc w) b) = b ! w # rev (take w b)"
      using Suc 2(3) by (simp_all add: take_Suc_conv_app_nth)
    then show ?thesis using 2 Suc by (auto simp: unwind_def)
  qed
qed simp

lemma unwind_prefix: "\<exists>t. out = unwind out @ t"
proof (cases "rev out")
  case (Cons x xs)
  let ?P = "\<lambda>c. c \<noteq> CHR ''/''"
  have "out = rev xs @ [x]" using Cons by (metis rev.simps(2) rev_rev_ident)
  moreover have "rev xs = rev (dropWhile ?P xs) @ rev (takeWhile ?P xs)"
    by (metis rev_append takeWhile_dropWhile_id)
  ultimately have "out = unwind out @ rev (takeWhile ?P xs) @ [x]" using Cons by (simp add: unwind_def)
  then show ?thesis ..
qed (simp add: unwind_def)

lemma pass_unwind:
  assumes "pass_inv b l w out p s" and "0 < w"
  shows "wind_back b w = Some (length (unwind out))" and "pass_inv b l (length (unwind out)) (unwind out) p s"
proof -
  have w: "take w b = out" "length out = w" "w \<le> length b" "w \<le> l" using assms(1) by (auto simp: pass_inv_def)
  then show "wind_back b w = Some (length (unwind out))" using assms(2) wind_back_spec [of w b] by simp
  obtain t where t: "out = unwind out @ t" using unwind_prefix by blast
  then have le: "length (unwind out) \<le> w" using w(2) by (metis le_add1 length_append)
  moreover have "take (length (unwind out)) b = unwind out"
    using le w(1) t by (metis append_eq_conv_conj min.absorb1 take_take)
  ultimately show "pass_inv b l (length (unwind out)) (unwind out) p s" using assms(1) by (simp add: pass_inv_def)
qed

lemma is_cstr_unwind: "is_cstr out \<Longrightarrow> is_cstr (unwind out)"
  using unwind_prefix [of out] by (metis UnI1 is_cstr_def set_append)

lemma pass_dotdots_copy:
  assumes "pass_inv b l w out p (c # s)"
    and "\<not> (c = CHR ''.'' \<and> s \<noteq> [] \<and> hd s = CHR ''.'' \<and> (tl s = [] \<or> hd (tl s) = CHR ''/'') \<and> p = CHR ''/'')"
  shows "pass_dotdots b l w = pass_dotdots (b[w := c]) (l + 1) (w + 1)"
  using assms(2) pass_read_0 [OF assms(1)] pass_inv_cstr [OF assms(1)] dotdot_at_spec [OF assms(1)] pass_copy(1) [OF assms(1)]
  by (subst pass_dotdots.simps) auto

lemma pass_dotdots_pop:
  assumes "pass_inv b l w out p (c # d # s)" and "c = CHR ''.''" and "d = CHR ''.''" and "s = [] \<or> hd s = CHR ''/''"
    and "p = CHR ''/''" and "0 < w"
  shows "pass_dotdots b l w =
     (if w = 1 then Some (JK_NORMALIZE_TRAVERSAL, b)
      else pass_dotdots b (if s = [] then l + 2 else l + 3) (length (unwind out)))"
proof -
  have i2: "pass_inv b (l + 2) w out d s" using pass_inv_tl [OF pass_inv_tl [OF assms(1)]] by simp
  have "rd b (l + 2) = Some (if s = [] then NUL else CHR ''/'')" using pass_read_0 [OF i2] assms(4) by auto
  with pass_read_0 [OF assms(1)] dotdot_at_spec [OF assms(1)] pass_unwind(1) [OF assms(1,6)] assms(2-5)
  show ?thesis by (subst pass_dotdots.simps) (auto simp: numeral_3_eq_3)
qed

lemma pass_dotdots_finish:
  assumes "pass_inv b l w out p []" and "is_cstr out"
  shows "\<exists>b'. pass_dotdots b l w = Some (0, b') \<and> holds b' out"
  using pass_read_0 [OF assms(1)] pass_finish [OF assms] by (subst pass_dotdots.simps) simp

lemma unwind_nonempty: "1 < length out \<Longrightarrow> hd out = CHR ''/'' \<Longrightarrow> unwind out \<noteq> [] \<and> hd (unwind out) = CHR ''/''"
proof -
  assume a: "1 < length out" "hd out = CHR ''/''"
  then obtain x m y where o: "out = x # m @ [y]"
    by (metis append_butlast_last_id length_greater_0_conv less_nat_zero_code list.collapse list.size(3) One_nat_def length_Cons less_not_refl less_one not_less_iff_gr_or_eq Suc_lessD list.size(4) add_0)
  then have "unwind out = rev (dropWhile (\<lambda>c. c \<noteq> CHR ''/'') (rev m @ [CHR ''/'']))" using a by (simp add: unwind_def)
  then have "unwind out \<noteq> []" by simp
  moreover obtain t where "out = unwind out @ t" using unwind_prefix by blast
  ultimately show ?thesis using a(2) by (metis hd_append2)
qed

lemma pass_dotdots_spec:
  "pass_inv b l w out p s \<Longrightarrow> is_cstr out \<Longrightarrow> out \<noteq> [] \<Longrightarrow> hd out = CHR ''/'' \<Longrightarrow>
   (case undotdot out p s of
      None \<Rightarrow> \<exists>b'. pass_dotdots b l w = Some (JK_NORMALIZE_TRAVERSAL, b')
    | Some r \<Rightarrow> \<exists>b'. pass_dotdots b l w = Some (0, b') \<and> holds b' r)"
proof (induction out p s arbitrary: b l w rule: undotdot.induct)
  case (1 out p)
  then show ?case using pass_dotdots_finish by simp
next
  case (2 out p c)
  note i = 2(1)
  have "is_cstr (out @ [c])" using 2(2) pass_inv_cstr [OF i] by (simp add: is_cstr_def)
  with pass_dotdots_finish [OF pass_copy(2) [OF i]] pass_dotdots_copy [OF i] show ?case by simp
next
  case (3 out p c d)
  note i = 3(2)
  have w: "length out = w" "0 < w" using i 3(4) by (auto simp: pass_inv_def)
  show ?case
  proof (cases "c = CHR ''.'' \<and> d = CHR ''.'' \<and> p = CHR ''/''")
    case True
    show ?thesis
    proof (cases "w = 1")
      case True
      then show ?thesis using \<open>c = _ \<and> _\<close> w pass_dotdots_pop [OF i] by simp
    next
      case False
      have "pass_inv b (l + 2) w out d []" using pass_inv_tl [OF pass_inv_tl [OF i]] by simp
      from pass_dotdots_finish [OF pass_unwind(2) [OF this w(2)] is_cstr_unwind [OF 3(3)]]
      show ?thesis using True False w pass_dotdots_pop [OF i] by simp
    qed
  next
    case False
    have c: "is_cstr (out @ [c])" using 3(3) pass_inv_cstr [OF i] by (simp add: is_cstr_def)
    have e: "pass_dotdots b l w = pass_dotdots (b[w := c]) (l + 1) (w + 1)" using False pass_dotdots_copy [OF i] by auto
    have u: "undotdot out p [c, d] = undotdot (out @ [c]) c [d]" using False by auto
    show ?thesis unfolding e u using 3(1)[OF False pass_copy(2) [OF i] c] 3(4,5) by simp
  qed
next
  case (4 out p c d e s)
  note i = 4(3)
  have w: "length out = w" "0 < w" using i 4(5) by (auto simp: pass_inv_def)
  show ?case
  proof (cases "c = CHR ''.'' \<and> d = CHR ''.'' \<and> e = CHR ''/'' \<and> p = CHR ''/''")
    case True
    show ?thesis
    proof (cases "w = 1")
      case True
      then show ?thesis using \<open>c = _ \<and> _\<close> w pass_dotdots_pop [OF i] by simp
    next
      case False
      have l1: "length out \<noteq> 1" "1 < length out" using False w by auto
      have "pass_inv b (l + 3) w out e s" using pass_inv_tl [OF pass_inv_tl [OF pass_inv_tl [OF i]]] by (simp add: numeral_3_eq_3)
      from 4(1)[OF True l1(1) pass_unwind(2) [OF this w(2)] is_cstr_unwind [OF 4(4)]] unwind_nonempty [OF l1(2) 4(6)]
      show ?thesis using True False w pass_dotdots_pop [OF i] by (simp split: option.splits)
    qed
  next
    case False
    have c: "is_cstr (out @ [c])" using 4(4) pass_inv_cstr [OF i] by (simp add: is_cstr_def)
    have e: "pass_dotdots b l w = pass_dotdots (b[w := c]) (l + 1) (w + 1)" using False pass_dotdots_copy [OF i] by auto
    have u: "undotdot out p (c # d # e # s) = undotdot (out @ [c]) c (d # e # s)" using False by auto
    show ?thesis unfolding e u using 4(2)[OF False pass_copy(2) [OF i] c] 4(5,6) by simp
  qed
qed


section \<open>The passes on the segments of the path\<close>

definition join :: "string list \<Rightarrow> string" where
  "join segs = concat (map (\<lambda>x. CHR ''/'' # x) segs)"

fun segments :: "string \<Rightarrow> string list" where
  "segments [] = [[]]"
| "segments (c # s) =
     (if c = CHR ''/'' then [] # segments s
      else (case segments s of [] \<Rightarrow> [[c]] | x # xs \<Rightarrow> (c # x) # xs))"

definition no_slash :: "string \<Rightarrow> bool" where
  "no_slash x \<longleftrightarrow> CHR ''/'' \<notin> set x"

definition no_param :: "string \<Rightarrow> string" where
  "no_param x = takeWhile (\<lambda>c. c \<noteq> CHR '';'') x"

text \<open>The normal form of a path, segment by segment: parameters are cut off; empty segments and \<open>.\<close> are
  dropped; \<open>..\<close> removes the segment before it, and there must be one. The last segment may be empty (a
  trailing slash), which is also what a last \<open>.\<close> or \<open>..\<close> leaves.\<close>

fun resolve_path :: "string list \<Rightarrow> string list \<Rightarrow> string list option" where
  "resolve_path st [] = Some (rev st)"
| "resolve_path st [x] =
     (if no_param x = ''..'' then (case st of [] \<Rightarrow> None | _ # st' \<Rightarrow> Some (rev st' @ [[]]))
      else if no_param x = ''.'' then Some (rev st @ [[]])
      else Some (rev st @ [no_param x]))"
| "resolve_path st (x # y # ys) =
     (if no_param x = ''..'' then (case st of [] \<Rightarrow> None | _ # st' \<Rightarrow> resolve_path st' (y # ys))
      else if no_param x = ''.'' \<or> no_param x = [] then resolve_path st (y # ys)
      else resolve_path (no_param x # st) (y # ys))"

lemma segments_nonempty [simp]: "segments s \<noteq> []"
  by (induction s) (auto split: list.splits)

lemma join_Cons [simp]: "join [] = []" "join (x # xs) = CHR ''/'' # x @ join xs"
  by (simp_all add: join_def)

lemma join_append [simp]: "join (xs @ ys) = join xs @ join ys"
  by (simp add: join_def)

lemma join_segments: "join (segments s) = CHR ''/'' # s"
  by (induction s) (auto split: list.splits)

lemma segments_no_slash: "x \<in> set (segments s) \<Longrightarrow> no_slash x"
  by (induction s arbitrary: x) (auto simp: no_slash_def split: list.splits if_splits)

lemma no_slash_no_param: "no_slash x \<Longrightarrow> no_slash (no_param x)"
  by (auto simp: no_slash_def no_param_def dest: set_takeWhileD)

lemma strip_params_segment:
  "no_slash x \<Longrightarrow> strip_params (x @ join ys) = no_param x @ strip_params (join ys)"
proof (induction x)
  case (Cons c x)
  have "dropWhile (\<lambda>d. d \<noteq> CHR ''/'') (x @ join ys) = join ys"
    using Cons.prems by (cases ys) (auto simp: no_slash_def dropWhile_append3)
  with Cons show ?case by (simp add: no_slash_def no_param_def)
qed (simp add: no_param_def)

lemma strip_params_join:
  "\<forall>x \<in> set xs. no_slash x \<Longrightarrow> strip_params (join xs) = join (map no_param xs)"
  by (induction xs) (simp_all add: strip_params_segment)

fun squeeze :: "string list \<Rightarrow> string list" where
  "squeeze [] = []"
| "squeeze [x] = [x]"
| "squeeze (x # y # ys) = (if x = [] then squeeze (y # ys) else x # squeeze (y # ys))"

lemma collapse_copy: "no_slash x \<Longrightarrow> x \<noteq> [] \<Longrightarrow> collapse p (x @ s) = x @ collapse (last x) s"
proof (induction x arbitrary: p)
  case (Cons c x)
  then show ?case by (cases x) (auto simp: no_slash_def)
qed simp

lemma collapse_join:
  "\<forall>x \<in> set xs. no_slash x \<Longrightarrow> xs \<noteq> [] \<Longrightarrow> CHR ''/'' # collapse (CHR ''/'') (tl (join xs)) = join (squeeze xs)"
proof (induction xs rule: squeeze.induct)
  case (3 x y ys)
  show ?case
  proof (cases "x = []")
    case True
    with 3 show ?thesis by simp
  next
    case False
    have "no_slash x" using 3 by simp
    then have "last x \<noteq> CHR ''/''" using False by (metis last_in_set no_slash_def)
    with 3(2) 3(3) False collapse_copy [OF \<open>no_slash x\<close> False] show ?thesis by simp
  qed
next
  case (2 v)
  then show ?case using collapse_copy [of v "CHR ''/''" "[]"] by (cases "v = []") simp_all
qed simp

fun undot_segs :: "string list \<Rightarrow> string list" where
  "undot_segs [] = []"
| "undot_segs [x] = (if x = ''.'' then [[]] else [x])"
| "undot_segs (x # y # ys) = (if x = ''.'' then undot_segs (y # ys) else x # undot_segs (y # ys))"

lemma undot_plain: "c \<noteq> CHR ''.'' \<or> p \<noteq> CHR ''/'' \<Longrightarrow> undot p (c # s) = c # undot c s"
  by (cases s) auto

lemma undot_copy: "no_slash x \<Longrightarrow> p \<noteq> CHR ''/'' \<Longrightarrow> undot p (x @ s) = x @ undot (last (p # x)) s"
proof (induction x arbitrary: p)
  case (Cons c x)
  have "undot p (c # x @ s) = c # undot c (x @ s)" using Cons.prems(2) by (intro undot_plain) simp
  moreover have "no_slash x" "c \<noteq> CHR ''/''" using Cons.prems(1) by (auto simp: no_slash_def)
  ultimately show ?case using Cons.IH [of c] by simp
qed simp

lemma undot_segment:
  assumes "no_slash x" and "x \<noteq> ''.''"
  shows "\<exists>q. undot (CHR ''/'') (x @ join ys) = x @ undot q (join ys)"
proof (cases x)
  case Nil
  then show ?thesis by auto
next
  case (Cons c t)
  have "undot (CHR ''/'') (c # t @ join ys) = c # undot c (t @ join ys)"
    using assms Cons by (cases t) (auto simp: undot_plain no_slash_def)
  moreover have "c \<noteq> CHR ''/''" "no_slash t" using assms(1) Cons by (auto simp: no_slash_def)
  ultimately show ?thesis using Cons undot_copy [of t c "join ys"] by auto
qed

lemma undot_join:
  "\<forall>x \<in> set xs. no_slash x \<Longrightarrow> xs \<noteq> [] \<Longrightarrow> CHR ''/'' # undot (CHR ''/'') (tl (join xs)) = join (undot_segs xs)"
proof (induction xs rule: undot_segs.induct)
  case (2 x)
  then show ?case using undot_segment [of x "[]"] by (cases "x = ''.''") auto
next
  case (3 x y ys)
  show ?case
  proof (cases "x = ''.''")
    case True
    with 3 show ?thesis by simp
  next
    case False
    with 3(3) obtain q where "undot (CHR ''/'') (x @ join (y # ys)) = x @ undot q (join (y # ys))"
      using undot_segment by (metis list.set_intros(1))
    with 3(2)[OF False] 3(3) False show ?thesis by (simp add: undot_plain)
  qed
qed simp


fun pop_segs :: "string list \<Rightarrow> string list \<Rightarrow> string list option" where
  "pop_segs st [] = Some (rev st)"
| "pop_segs st [x] =
     (if x = ''..'' then (case st of [] \<Rightarrow> None | _ # st' \<Rightarrow> Some (rev st' @ [[]])) else Some (rev st @ [x]))"
| "pop_segs st (x # y # ys) =
     (if x = ''..'' then (case st of [] \<Rightarrow> None | _ # st' \<Rightarrow> pop_segs st' (y # ys))
      else pop_segs (x # st) (y # ys))"

lemma undotdot_plain: "c \<noteq> CHR ''.'' \<or> p \<noteq> CHR ''/'' \<Longrightarrow> undotdot out p (c # s) = undotdot (out @ [c]) c s"
proof (cases s)
  case (Cons d t)
  then show "c \<noteq> CHR ''.'' \<or> p \<noteq> CHR ''/'' \<Longrightarrow> undotdot out p (c # s) = undotdot (out @ [c]) c s"
    by (cases t) auto
qed simp

lemma undotdot_copy:
  "no_slash x \<Longrightarrow> p \<noteq> CHR ''/'' \<Longrightarrow> undotdot out p (x @ s) = undotdot (out @ x) (last (p # x)) s"
proof (induction x arbitrary: p out)
  case (Cons c x)
  have "undotdot out p (c # x @ s) = undotdot (out @ [c]) c (x @ s)"
    using Cons.prems(2) by (intro undotdot_plain) simp
  moreover have "no_slash x" "c \<noteq> CHR ''/''" using Cons.prems(1) by (auto simp: no_slash_def)
  ultimately show ?case using Cons.IH [of c "out @ [c]"] by simp
qed simp

lemma undotdot_segment:
  assumes "no_slash x" and "x \<noteq> ''..''"
  shows "\<exists>q. undotdot out (CHR ''/'') (x @ join ys) = undotdot (out @ x) q (join ys)"
proof (cases x)
  case Nil
  then show ?thesis by auto
next
  case (Cons c t)
  have c: "c \<noteq> CHR ''/''" "no_slash t" using assms(1) Cons by (auto simp: no_slash_def)
  have "undotdot out (CHR ''/'') (c # t @ join ys) = undotdot (out @ [c]) c (t @ join ys)"
  proof (cases "c = CHR ''.''")
    case True
    consider "t = []" | "t = [CHR ''.'']" | d where "t = [d]" "d \<noteq> CHR ''.''" | d e u where "t = d # e # u" "e \<noteq> CHR ''/''"
      using c(2) by (cases t; cases "tl t") (auto simp: no_slash_def)
    then show ?thesis
    proof cases
      case 1
      then show ?thesis by (cases ys; cases "tl (join ys)") auto
    next
      case 2
      then show ?thesis using assms(2) Cons True by simp
    next
      case 3
      then show ?thesis by (cases "join ys") auto
    next
      case 4
      then show ?thesis by simp
    qed
  next
    case False
    then show ?thesis by (intro undotdot_plain) simp
  qed
  then show ?thesis using Cons undotdot_copy [OF c(2,1), of "out @ [c]" "join ys"] by auto
qed

lemma unwind_join: "no_slash x \<Longrightarrow> unwind (join (rev (x # st)) @ ''/'') = join (rev st) @ ''/''"
proof -
  assume "no_slash x"
  then have "dropWhile (\<lambda>c. c \<noteq> CHR ''/'') (rev x @ CHR ''/'' # r) = CHR ''/'' # r" for r
    by (auto simp: no_slash_def dropWhile_append3)
  then show ?thesis by (simp add: unwind_def)
qed

lemma join_empty [simp]: "join xs = [] \<longleftrightarrow> xs = []"
  by (cases xs) auto

lemma undotdot_join:
  "\<forall>x \<in> set xs. no_slash x \<Longrightarrow> \<forall>x \<in> set st. no_slash x \<Longrightarrow> xs \<noteq> [] \<Longrightarrow>
   undotdot (join (rev st) @ ''/'') (CHR ''/'') (tl (join xs)) = map_option join (pop_segs st xs)"
proof (induction st xs rule: pop_segs.induct)
  case (2 st x)
  show ?case
  proof (cases "x = ''..''")
    case True
    then show ?thesis using 2(2) unwind_join by (cases st) auto
  next
    case False
    then show ?thesis using undotdot_segment [of x "join (rev st) @ ''/''" "[]"] 2(1) by auto
  qed
next
  case (3 st x y ys)
  show ?case
  proof (cases "x = ''..''")
    case True
    show ?thesis
    proof (cases st)
      case Nil
      then show ?thesis using True by simp
    next
      case (Cons z st')
      have "unwind (join (rev (z # st')) @ ''/'') = join (rev st') @ ''/''"
        using 3(4) Cons by (intro unwind_join) simp
      moreover have "undotdot (join (rev st') @ ''/'') (CHR ''/'') (y @ join ys) = map_option join (pop_segs st' (y # ys))"
        using 3(1)[OF True Cons] 3(3,4) Cons by simp
      ultimately show ?thesis using True Cons by simp
    qed
  next
    case False
    obtain q where "undotdot (join (rev st) @ ''/'') (CHR ''/'') (x @ join (y # ys)) =
        undotdot ((join (rev st) @ ''/'') @ x) q (join (y # ys))"
      using undotdot_segment [OF _ False] 3(3) by (metis list.set_intros(1))
    moreover have "undotdot ((join (rev st) @ ''/'') @ x) q (join (y # ys)) =
        undotdot (join (rev (x # st)) @ ''/'') (CHR ''/'') (y @ join ys)"
      by (simp add: undotdot_plain)
    moreover have "\<dots> = map_option join (pop_segs (x # st) (y # ys))"
      using 3(2)[OF False] 3(3,4) by simp
    ultimately show ?thesis using False by simp
  qed
qed simp

text \<open>The three passes over segments are one resolution.\<close>

lemma undot_segs_squeeze:
  "xs \<noteq> [] \<Longrightarrow> pop_segs st (undot_segs (squeeze (map no_param xs))) = resolve_path st xs"
proof (induction st xs rule: resolve_path.induct)
  case (3 st x y ys)
  have "undot_segs (squeeze (map no_param (y # ys))) \<noteq> []" (is "?r \<noteq> []")
  proof -
    have "zs \<noteq> [] \<Longrightarrow> undot_segs zs \<noteq> []" for zs by (induction zs rule: undot_segs.induct) auto
    moreover have "zs \<noteq> [] \<Longrightarrow> squeeze zs \<noteq> []" for zs by (induction zs rule: squeeze.induct) auto
    ultimately show ?thesis by (metis list.map_disc_iff list.discI)
  qed
  then obtain z zs where r: "?r = z # zs" by (cases ?r) auto
  have q: "undot_segs (squeeze (map no_param (x # y # ys))) =
      (if no_param x = [] \<or> no_param x = ''.'' then ?r else no_param x # ?r)"
    using r by (cases "squeeze (map no_param (y # ys))") auto
  show ?case
    using 3 unfolding q r by (auto split: list.splits)
qed (auto split: list.splits)


lemma holds_rd_0: "holds b p \<Longrightarrow> rd b 0 = Some (if p = [] then NUL else hd p)"
  by (cases b; cases p) (auto simp: holds_def)

lemma is_cstr_join: "is_cstr (join xs) \<longleftrightarrow> (\<forall>x \<in> set xs. is_cstr x)"
  by (induction xs) (auto simp: is_cstr_def)

lemma no_slash_squeeze: "\<forall>x \<in> set xs. no_slash x \<Longrightarrow> \<forall>x \<in> set (squeeze xs). no_slash x"
  by (induction xs rule: squeeze.induct) auto

lemma no_slash_undot_segs: "\<forall>x \<in> set xs. no_slash x \<Longrightarrow> \<forall>x \<in> set (undot_segs xs). no_slash x"
  by (induction xs rule: undot_segs.induct) (auto simp: no_slash_def)

lemma squeeze_nonempty: "xs \<noteq> [] \<Longrightarrow> squeeze xs \<noteq> []"
  by (induction xs rule: squeeze.induct) auto

lemma undot_segs_nonempty: "xs \<noteq> [] \<Longrightarrow> undot_segs xs \<noteq> []"
  by (induction xs rule: undot_segs.induct) auto

lemma normalize_segs:
  assumes h: "holds b (CHR ''/'' # s)"
  shows "case resolve_path [] (segments s) of
      None \<Rightarrow> \<exists>b'. jk_servlet_normalize b = Some (JK_NORMALIZE_TRAVERSAL, b')
    | Some segs \<Rightarrow> \<exists>b'. jk_servlet_normalize b = Some (0, b') \<and> holds b' (join segs)"
proof -
  define x1 where "x1 = map no_param (segments s)"
  define x2 where "x2 = squeeze x1"
  define x3 where "x3 = undot_segs x2"
  have n1: "\<forall>x \<in> set x1. no_slash x" "x1 \<noteq> []"
    using segments_no_slash no_slash_no_param by (auto simp: x1_def)
  then have n2: "\<forall>x \<in> set x2. no_slash x" "x2 \<noteq> []"
    using no_slash_squeeze squeeze_nonempty by (auto simp: x2_def)
  then have n3: "\<forall>x \<in> set x3. no_slash x" "x3 \<noteq> []"
    using no_slash_undot_segs undot_segs_nonempty by (auto simp: x3_def)
  have slash: "is_cstr ''/''" by (simp add: is_cstr_def)
  have root: "join x = CHR ''/'' # tl (join x)" if "x \<noteq> []" for x using that by (cases x) auto
  have "CHR ''/'' # strip_params s = join x1"
    using strip_params_join [of "segments s"] segments_no_slash by (simp add: join_segments x1_def)
  with pass_params_spec [OF pass_start [OF h] slash] obtain b1 where
    b1: "pass_params b 1 1 = Some b1" "holds b1 (join x1)" by auto
  have "holds b1 (CHR ''/'' # tl (join x1))" using b1(2) root [OF n1(2)] by simp
  from pass_slashes_spec [OF pass_start [OF this] slash] collapse_join [OF n1] obtain b2 where
    b2: "pass_slashes b1 1 1 = Some b2" "holds b2 (join x2)" by (auto simp: x2_def)
  have "holds b2 (CHR ''/'' # tl (join x2))" using b2(2) root [OF n2(2)] by simp
  from pass_dots_spec [OF pass_start [OF this] slash] undot_join [OF n2] obtain b3 where
    b3: "pass_dots b2 1 1 = Some b3" "holds b3 (join x3)" by (auto simp: x3_def)
  have "holds b3 (CHR ''/'' # tl (join x3))" using b3(2) root [OF n3(2)] by simp
  from pass_dotdots_spec [OF pass_start [OF this] slash] have
    "case undotdot ''/'' (CHR ''/'') (tl (join x3)) of
      None \<Rightarrow> \<exists>b'. pass_dotdots b3 1 1 = Some (JK_NORMALIZE_TRAVERSAL, b')
    | Some r \<Rightarrow> \<exists>b'. pass_dotdots b3 1 1 = Some (0, b') \<and> holds b' r" by simp
  moreover have "undotdot ''/'' (CHR ''/'') (tl (join x3)) = map_option join (resolve_path [] (segments s))"
    using undotdot_join [of x3 "[]"] n3 undot_segs_squeeze [of "segments s" "[]"] by (simp add: x1_def x2_def x3_def)
  moreover have "jk_servlet_normalize b = pass_dotdots b3 1 1"
    using holds_rd_0 [OF h] b1(1) b2(1) b3(1) by (simp add: jk_servlet_normalize_def)
  ultimately show ?thesis by (auto split: option.splits)
qed

text \<open>The segments of a resolved path.\<close>

definition clean :: "string \<Rightarrow> bool" where
  "clean x \<longleftrightarrow> no_slash x \<and> CHR '';'' \<notin> set x \<and> x \<noteq> ''.'' \<and> x \<noteq> ''..''"

definition canonical :: "string list \<Rightarrow> bool" where
  "canonical segs \<longleftrightarrow> segs \<noteq> [] \<and> (\<forall>x \<in> set segs. clean x) \<and> (\<forall>x \<in> set (butlast segs). x \<noteq> [])"

lemma no_param_clean: "no_slash x \<Longrightarrow> no_param x \<noteq> ''.'' \<Longrightarrow> no_param x \<noteq> ''..'' \<Longrightarrow> clean (no_param x)"
  using no_slash_no_param by (auto simp: clean_def no_param_def dest: set_takeWhileD)

lemma clean_no_param: "clean x \<Longrightarrow> no_param x = x"
  by (auto simp: clean_def no_param_def takeWhile_eq_all_conv)

lemma resolve_canonical:
  "resolve_path st xs = Some segs \<Longrightarrow> xs \<noteq> [] \<Longrightarrow> \<forall>x \<in> set xs. no_slash x \<Longrightarrow> \<forall>x \<in> set st. clean x \<and> x \<noteq> [] \<Longrightarrow>
   canonical segs"
proof (induction st xs rule: resolve_path.induct)
  case (2 st x)
  moreover have "clean []" by (simp add: clean_def no_slash_def)
  moreover have "no_slash x" using 2 by simp
  ultimately show ?case using no_param_clean [of x]
    by (auto simp: canonical_def butlast_append split: if_splits list.splits)
next
  case (3 st x y ys)
  then show ?case using no_param_clean [of x] by (auto split: if_splits list.splits)
qed simp

lemma resolve_canonical_id:
  "canonical xs \<Longrightarrow> resolve_path st xs = Some (rev st @ xs)"
proof (induction st xs rule: resolve_path.induct)
  case (2 st x)
  then show ?case by (auto simp: canonical_def clean_no_param clean_def)
next
  case (3 st x y ys)
  then show ?case by (auto simp: canonical_def clean_no_param clean_def)
qed (simp add: canonical_def)

lemma segments_join: "\<forall>x \<in> set xs. no_slash x \<Longrightarrow> xs \<noteq> [] \<Longrightarrow> segments (tl (join xs)) = xs"
proof (induction xs)
  case (Cons x xs)
  then have "no_slash x" by simp
  then show ?case
  proof (induction x)
    case Nil
    then show ?case using Cons by (cases xs) auto
  next
    case (Cons c x)
    then show ?case using Cons by (auto simp: no_slash_def split: list.splits)
  qed
qed simp


section \<open>Stripping a session identifier\<close>

lemma skip_session_spec:
  "pass_inv b (k + i) w out p s \<Longrightarrow>
   skip_session b k i = Some (i + length (takeWhile (\<lambda>c. c \<noteq> CHR '';'' \<and> c \<noteq> CHR ''/'') s))"
proof (induction s arbitrary: i p)
  case Nil
  then show ?case using pass_read_0 [OF Nil] by (subst skip_session.simps) simp
next
  case (Cons c s)
  show ?case
    using pass_read_0 [OF Cons.prems] Cons.IH [of "i + 1" c] pass_inv_tl [OF Cons.prems] pass_inv_cstr [OF Cons.prems]
    by (subst skip_session.simps) simp
qed

lemma copy_down_spec:
  "pass_inv b (k + i) (k + j) out p s \<Longrightarrow> is_cstr out \<Longrightarrow> \<exists>b'. copy_down b k i j = Some b' \<and> holds b' (out @ s)"
proof (induction s arbitrary: b i j out p)
  case Nil
  then show ?case using pass_read_0 [OF Nil(1)] pass_finish [OF Nil] by (subst copy_down.simps) simp
next
  case (Cons c s)
  have c: "c \<noteq> NUL" using Cons(2) by (rule pass_inv_cstr)
  have "copy_down b k i j = copy_down (b[k + j := c]) k (i + 1) (j + 1)"
    using pass_read_0 [OF Cons(2)] pass_copy(1) [OF Cons(2)] c by (subst copy_down.simps) simp
  moreover have "pass_inv (b[k + j := c]) (k + (i + 1)) (k + (j + 1)) (out @ [c]) c s"
    using pass_copy(2) [OF Cons(2)] by simp
  moreover have "is_cstr (out @ [c])" using Cons(3) c by (simp add: is_cstr_def)
  ultimately show ?case using Cons.IH by (metis append_Cons append_Nil append_assoc)
qed

lemma holds_cstring_of: "holds b p \<Longrightarrow> cstring_of b = p"
  by (auto simp: holds_def intro: cstring_of_take)

section \<open>The theorems\<close>

text \<open>Claim C30: \<open>jk_wildchar_match\<close> returns 0 exactly when the string matches the pattern, where \<open>*\<close>
  stands for any string and \<open>?\<close> for any character; otherwise it returns 1 or -1, and after -1 no
  suffix of the string matches either, which justifies that the search behind a star is abandoned.\<close>

theorem wildchar_match_glob:
  "(jk_wildchar_match s e icase = 0 \<longleftrightarrow> glob icase s e)
   \<and> jk_wildchar_match s e icase \<in> {0, 1, - 1}
   \<and> \<not> (jk_wildchar_match s e icase = - 1 \<and> some_suffix icase s e)"
  using wildchar_glob(1) [of s e icase] by blast

text \<open>Claim C5: for every string in a buffer, \<open>jk_servlet_normalize\<close> has a defined result: \<open>*\<close> is left
  alone, a path that does not start with a slash is a bad path, and any other path is replaced by its
  normal form over segments, or reported as a traversal exactly when a \<open>..\<close> has no segment to remove.\<close>

theorem normalize_correct:
  assumes "holds b p"
  shows "if p = ''*'' then jk_servlet_normalize b = Some (0, b)
     else if p = [] \<or> hd p \<noteq> CHR ''/'' then jk_servlet_normalize b = Some (JK_NORMALIZE_BAD_PATH, b)
     else (case resolve_path [] (segments (tl p)) of
             None \<Rightarrow> \<exists>b'. jk_servlet_normalize b = Some (JK_NORMALIZE_TRAVERSAL, b')
           | Some segs \<Rightarrow> \<exists>b'. jk_servlet_normalize b = Some (0, b') \<and> holds b' (join segs))"
proof (cases "p \<noteq> [] \<and> hd p = CHR ''/''")
  case True
  then have "p = CHR ''/'' # tl p" by (cases p) auto
  with normalize_segs [of b "tl p"] assms True show ?thesis by auto
next
  case False
  have r: "rd b 0 = Some (if p = [] then NUL else hd p)" using assms by (rule holds_rd_0)
  have "rd b 1 = Some (if tl p = [] then NUL else hd (tl p))" if "p \<noteq> []"
    using pass_read_0 [OF holds_pass [of b "[]" "[hd p]" "tl p"]] assms that by simp
  moreover have "tl p \<noteq> [] \<Longrightarrow> hd (tl p) \<noteq> NUL"
    using assms by (cases p; cases "tl p") (auto simp: holds_def is_cstr_def)
  moreover have "p = ''*'' \<longleftrightarrow> p \<noteq> [] \<and> hd p = CHR ''*'' \<and> tl p = []" by (cases p) auto
  ultimately show ?thesis using r False by (cases "p = []") (auto simp: jk_servlet_normalize_def)
qed

theorem normalize_correct_witness:
  "\<exists>b'. jk_servlet_normalize (''/a;x/./b/../c'' @ [NUL]) = Some (0, b') \<and> holds b' ''/a/c''"
proof -
  have "holds (''/a;x/./b/../c'' @ [NUL]) ''/a;x/./b/../c''" by (simp add: holds_def is_cstr_def)
  from normalize_correct [OF this] show ?thesis by (simp add: no_param_def)
qed

text \<open>Claim C20: a path that \<open>jk_servlet_normalize\<close> accepts is safe: the result is made of segments without
  slash and semicolon, none of them is \<open>.\<close> or \<open>..\<close>, and none but the last is empty; and normalising
  it again changes nothing.\<close>

theorem normalize_safe:
  assumes "holds b (CHR ''/'' # s)" and "jk_servlet_normalize b = Some (0, b')"
  shows "\<exists>segs b''. cstring_of b' = join segs \<and> canonical segs
     \<and> jk_servlet_normalize b' = Some (0, b'') \<and> cstring_of b'' = cstring_of b'"
proof -
  have "\<forall>x \<in> set (segments s). no_slash x" using segments_no_slash by blast
  with normalize_segs [OF assms(1)] assms(2) obtain segs where
    r: "resolve_path [] (segments s) = Some segs" "holds b' (join segs)" "canonical segs"
    using resolve_canonical [of "[]" "segments s"] by (auto split: option.splits)
  then have n: "\<forall>x \<in> set segs. no_slash x" "segs \<noteq> []" by (simp_all add: canonical_def clean_def)
  have "holds b' (CHR ''/'' # tl (join segs))" using r(2) n(2) by (cases segs) auto
  from normalize_segs [OF this] segments_join [OF n] resolve_canonical_id [OF r(3), of "[]"] obtain b'' where
    b'': "jk_servlet_normalize b' = Some (0, b'')" "holds b'' (join segs)" by auto
  with r(3) b''(1) holds_cstring_of [OF r(2)] holds_cstring_of [OF b''(2)] show ?thesis by (intro exI [of _ segs] exI [of _ b'']) simp
qed

theorem normalize_safe_witness:
  "\<exists>b' segs b''. jk_servlet_normalize (''/a/../b'' @ [NUL]) = Some (0, b') \<and> cstring_of b' = join segs \<and> canonical segs
     \<and> jk_servlet_normalize b' = Some (0, b'') \<and> cstring_of b'' = cstring_of b'"
proof -
  have h: "holds (''/a/../b'' @ [NUL]) (CHR ''/'' # ''a/../b'')" by (simp add: holds_def is_cstr_def)
  from normalize_segs [OF h] obtain b' where "jk_servlet_normalize (''/a/../b'' @ [NUL]) = Some (0, b')"
    by (auto simp: no_param_def)
  with normalize_safe [OF h] show ?thesis by blast
qed

text \<open>\<open>jk_strip_session_id\<close> removes the first occurrence of the session parameter up to the next
  semicolon, slash or the end, keeps the rest of the path, and reports whether there was one.\<close>

theorem strip_session_exact:
  assumes "holds b p" and "name \<noteq> []"
  shows "case c_strstr p name of
      None \<Rightarrow> jk_strip_session_id b name = Some (0, b)
    | Some k \<Rightarrow> \<exists>b'. jk_strip_session_id b name = Some (1, b') \<and>
        holds b' (take k p @ dropWhile (\<lambda>c. c \<noteq> CHR '';'' \<and> c \<noteq> CHR ''/'') (drop (k + length name) p))"
proof (cases "c_strstr p name")
  case None
  then show ?thesis using holds_cstring_of [OF assms(1)] by (simp add: jk_strip_session_id_def)
next
  case (Some k)
  let ?P = "\<lambda>c. c \<noteq> CHR '';'' \<and> c \<noteq> CHR ''/''"
  let ?r = "drop (k + length name) p"
  have k: "k \<le> length p" "take (length name) (drop k p) = name"
    using c_strstr_Some [OF Some] by (simp_all add: starts_with_iff)
  have d: "name @ ?r = drop k p"
    using append_take_drop_id [of "length name" "drop k p"] unfolding k(2) by (simp add: add.commute)
  have h: "holds b (take k p @ name @ ?r)" unfolding d using assms(1) by simp
  have i0: "pass_inv b (k + length name) k (take k p) (last name) ?r"
    using holds_pass [OF h assms(2)] k(1) by (simp add: min_absorb2)
  have s: "skip_session b k (length name) = Some (length name + length (takeWhile ?P ?r))"
    using skip_session_spec [OF i0] .
  have "holds b (take k p @ (name @ takeWhile ?P ?r) @ dropWhile ?P ?r)" using h by simp
  note hp = holds_pass [OF this]
  have lk: "length (take k p) = k" using k(1) by simp
  have "pass_inv b (k + (length name + length (takeWhile ?P ?r))) (k + 0) (take k p)
      (last (name @ takeWhile ?P ?r)) (dropWhile ?P ?r)"
    using hp assms(2) unfolding lk by simp
  moreover have "is_cstr (take k p)" using assms(1) by (auto simp: holds_def is_cstr_def dest: in_set_takeD)
  ultimately obtain b' where "copy_down b k (length name + length (takeWhile ?P ?r)) 0 = Some b'"
      "holds b' (take k p @ dropWhile ?P ?r)" using copy_down_spec by blast
  then show ?thesis using Some s holds_cstring_of [OF assms(1)] by (simp add: jk_strip_session_id_def)
qed

theorem strip_session_exact_witness:
  "\<exists>b'. jk_strip_session_id (''/a;s=1/b'' @ [NUL]) '';s='' = Some (1, b') \<and> holds b' ''/a/b''"
proof -
  have "holds (''/a;s=1/b'' @ [NUL]) ''/a;s=1/b''" by (simp add: holds_def is_cstr_def)
  from strip_session_exact [OF this, of "'';s=''"] show ?thesis by simp
qed

end
