(* ===== verification/Jk_Map.thy ===== *)
theory Jk_Map
  imports Jk_Pool
begin

text \<open>
  The property map (\<open>jk_map.c\<close>): an association table of three parallel arrays in a pool, the
  typed readers on top of it, the reader of property files and the expansion of references.

  The map is a record over the type of its values; its pool is a field and the C heap is threaded
  through the operations. A null entry in \<open>names\<close> is what a failed \<open>jk_pool_strdup\<close> leaves: comparing
  it is undefined. The counters are naturals, and exceeding the range of \<open>int\<close> when the arrays
  grow is undefined. The process environment is a parameter.
\<close>

section \<open>Library functions\<close>

definition c_strcasecmp_eq :: "string \<Rightarrow> string \<Rightarrow> bool" where
  "c_strcasecmp_eq a b \<longleftrightarrow> map tolower a = map tolower b"

text \<open>\<open>atoi\<close>: leading white space, a sign, digits up to the first other character. A value outside the
  range of \<open>int\<close> is undefined.\<close>

definition digits_value :: "string \<Rightarrow> nat" where
  "digits_value ds = foldl (\<lambda>n c. 10 * n + (code c - 48)) 0 ds"

definition int_range :: "int \<Rightarrow> bool" where
  "int_range i \<longleftrightarrow> - (2 ^ 31) \<le> i \<and> i < 2 ^ 31"

definition c_atoi :: "string \<Rightarrow> int ub" where
  "c_atoi s =
     (let t = dropWhile jk_isspace s;
          neg = (t \<noteq> [] \<and> hd t = CHR ''-'');
          u = (if t \<noteq> [] \<and> (hd t = CHR ''-'' \<or> hd t = CHR ''+'') then tl t else t);
          n = int (digits_value (takeWhile isdigit u));
          i = (if neg then - n else n)
      in do { guard (int_range i); Some i })"

text \<open>\<open>sprintf\<close> with \<open>%d\<close>.\<close>

fun dec_digits :: "nat \<Rightarrow> string" where
  "dec_digits n = (if n < 10 then [char_of (48 + n)] else dec_digits (n div 10) @ [char_of (48 + n mod 10)])"

definition c_itoa :: "int \<Rightarrow> string" where
  "c_itoa i = (if i < 0 then CHR ''-'' # dec_digits (nat (- i)) else dec_digits (nat i))"

text \<open>\<open>strtok_r\<close>: the maximal runs of characters that are no separators.\<close>

function tokens :: "(char \<Rightarrow> bool) \<Rightarrow> string \<Rightarrow> string list" where
  "tokens sep s =
     (let t = dropWhile sep s in
      if t = [] then [] else takeWhile (\<lambda>c. \<not> sep c) t # tokens sep (dropWhile (\<lambda>c. \<not> sep c) t))"
  by pat_completeness auto
termination
proof (relation "measure (\<lambda>(sep, s). length s)")
  fix sep :: "char \<Rightarrow> bool" and s t :: string
  assume t: "t = dropWhile sep s" and "t \<noteq> []"
  then obtain c u where c: "t = c # u" "\<not> sep c" by (metis hd_dropWhile list.collapse list.sel(1))
  then have "length (dropWhile (\<lambda>c. \<not> sep c) t) \<le> length u" by (simp add: length_dropWhile_le)
  also have "\<dots> < length t" using c by simp
  also have "\<dots> \<le> length s" using t by (simp add: length_dropWhile_le)
  finally show "((sep, dropWhile (\<lambda>c. \<not> sep c) t), sep, s) \<in> measure (\<lambda>(sep, s). length s)" by simp
qed simp

declare tokens.simps [simp del]

section \<open>The table\<close>

definition CAPACITY_INC_SIZE :: nat where
  "CAPACITY_INC_SIZE = 50"

definition LENGTH_OF_LINE :: nat where
  "LENGTH_OF_LINE = 8192"

definition JK_MAP_RECURSION :: nat where
  "JK_MAP_RECURSION = 20"

definition JK_MAP_REFERENCE :: string where
  "JK_MAP_REFERENCE = ''.reference''"

definition SMALL_POOL_SIZE :: u64 where
  "SMALL_POOL_SIZE = 512"

definition COMPUTE_KEY_HASH :: "string \<Rightarrow> u32" where
  "COMPUTE_KEY_HASH key = foldl (\<lambda>hash c. hash * 33 + of_nat (code c)) 0 key"

record 'v jk_map =
  m_p :: jk_pool
  m_names :: "string option list option"
  m_values :: "'v option list option"
  m_keys :: "u32 list option"
  m_capacity :: nat
  m_size :: nat

definition arr :: "'a list option \<Rightarrow> nat \<Rightarrow> 'a ub" where
  "arr a i = (case a of None \<Rightarrow> None | Some xs \<Rightarrow> rd xs i)"

definition arr_set :: "'a list option \<Rightarrow> nat \<Rightarrow> 'a \<Rightarrow> 'a list option ub" where
  "arr_set a i v = (case a of None \<Rightarrow> None | Some xs \<Rightarrow> map_option Some (wr xs i v))"

text \<open>An operation of the map's pool.\<close>

definition in_pool :: "(mem \<Rightarrow> ('r \<times> mem) ub) \<Rightarrow> 'v jk_map \<Rightarrow> heap \<Rightarrow> ('r \<times> 'v jk_map \<times> heap) ub" where
  "in_pool f m h = do { (r, (p', h')) \<leftarrow> f (m_p m, h); Some (r, m\<lparr>m_p := p'\<rparr>, h') }"

definition jk_map_open :: "'v jk_map" where
  "jk_map_open =
     \<lparr>m_p = jk_open_pool (8 * SMALL_POOL_SIZE), m_names = None, m_values = None, m_keys = None,
      m_capacity = 0, m_size = 0\<rparr>"

definition jk_map_close :: "'v jk_map \<Rightarrow> heap \<Rightarrow> (bool \<times> 'v jk_map \<times> heap) ub" where
  "jk_map_close m h = do { (p', h') \<leftarrow> jk_close_pool (m_p m, h); Some (True, m\<lparr>m_p := p'\<rparr>, h') }"

text \<open>\<open>jk_map_alloc\<close> and \<open>jk_map_free\<close>: the block of the map itself is a heap block.\<close>

definition jk_map_alloc :: "nat \<Rightarrow> heap \<Rightarrow> bool \<times> (nat \<times> 'v jk_map) option \<times> heap" where
  "jk_map_alloc sz h =
     (case c_malloc h sz of
        (None, h') \<Rightarrow> (False, None, h')
      | (Some b, h') \<Rightarrow> (True, Some (b, jk_map_open), h'))"

definition jk_map_free :: "(nat \<times> 'v jk_map) option \<Rightarrow> heap \<Rightarrow> (bool \<times> (nat \<times> 'v jk_map) option \<times> heap) ub" where
  "jk_map_free m h =
     (case m of
        None \<Rightarrow> Some (False, None, h)
      | Some (b, mp) \<Rightarrow>
          do {
            (_, _, h1) \<leftarrow> jk_map_close mp h;
            h2 \<leftarrow> c_free h1 b;
            Some (False, None, h2)
          })"

text \<open>The search loop that the readers share: the first index with the same hash and the same name.
  Names are compared only when the hashes agree.\<close>

fun find_key :: "'v jk_map \<Rightarrow> u32 \<Rightarrow> string \<Rightarrow> nat list \<Rightarrow> nat option ub" where
  "find_key m hash name [] = Some None"
| "find_key m hash name (i # is) =
     do {
       k \<leftarrow> arr (m_keys m) i;
       if k = hash then
         do {
           n \<leftarrow> arr (m_names m) i;
           (case n of
              None \<Rightarrow> None
            | Some n' \<Rightarrow> if n' = name then Some (Some i) else find_key m hash name is)
         }
       else find_key m hash name is
     }"

definition map_find :: "'v jk_map \<Rightarrow> string \<Rightarrow> nat option ub" where
  "map_find m name = find_key m (COMPUTE_KEY_HASH name) name [0..<m_size m]"

definition jk_map_get :: "'v jk_map \<Rightarrow> string option \<Rightarrow> 'v option \<Rightarrow> 'v option ub" where
  "jk_map_get m name dflt =
     (case name of
        None \<Rightarrow> Some dflt
      | Some n \<Rightarrow>
          do { r \<leftarrow> map_find m n;
               (case r of None \<Rightarrow> Some dflt | Some i \<Rightarrow> arr (m_values m) i) })"

definition jk_map_get_id :: "'v jk_map \<Rightarrow> string option \<Rightarrow> int ub" where
  "jk_map_get_id m name =
     (case name of
        None \<Rightarrow> Some (- 1)
      | Some n \<Rightarrow> do { r \<leftarrow> map_find m n; Some (case r of None \<Rightarrow> - 1 | Some i \<Rightarrow> int i) })"

definition jk_map_get_string :: "string jk_map \<Rightarrow> string option \<Rightarrow> string option \<Rightarrow> string option ub" where
  "jk_map_get_string m name dflt =
     (case name of
        None \<Rightarrow> Some dflt
      | Some n \<Rightarrow>
          do { r \<leftarrow> map_find m n;
               (case r of None \<Rightarrow> Some dflt | Some i \<Rightarrow> arr (m_values m) i) })"

definition map_realloc :: "'v jk_map \<Rightarrow> heap \<Rightarrow> (bool \<times> 'v jk_map \<times> heap) ub" where
  "map_realloc m h =
     (if m_size m = m_capacity m then
        do {
          guard (m_capacity m + CAPACITY_INC_SIZE < 2 ^ 31);
          let capacity = m_capacity m + CAPACITY_INC_SIZE;
              old_sz = of_nat (m_capacity m * 8) :: u64;
              new_sz = of_nat (capacity * 8) :: u64
          in do {
            (names, m1, h1) \<leftarrow> in_pool (\<lambda>p. jk_pool_realloc None 8 p new_sz (m_names m) old_sz) m h;
            (values, m2, h2) \<leftarrow> in_pool (\<lambda>p. jk_pool_realloc None 8 p new_sz (m_values m) old_sz) m1 h1;
            (keys, m3, h3) \<leftarrow> in_pool (\<lambda>p. jk_pool_realloc 0 4 p new_sz (m_keys m) old_sz) m2 h2;
            if values \<noteq> None \<and> names \<noteq> None \<and> keys \<noteq> None then
              Some (True, m3\<lparr>m_names := names, m_values := values, m_keys := keys, m_capacity := capacity\<rparr>, h3)
            else Some (False, m3, h3)
          }
        }
      else Some (False, m, h))"

definition jk_map_add :: "'v jk_map \<Rightarrow> heap \<Rightarrow> string option \<Rightarrow> 'v option \<Rightarrow> (bool \<times> 'v jk_map \<times> heap) ub" where
  "jk_map_add m h name value =
     (case name of
        None \<Rightarrow> Some (False, m, h)
      | Some n \<Rightarrow>
          do {
            (_, m1, h1) \<leftarrow> map_realloc m h;
            if m_size m1 < m_capacity m1 then
              do {
                vs \<leftarrow> arr_set (m_values m1) (m_size m1) value;
                (dup, m2, h2) \<leftarrow> in_pool (\<lambda>p. jk_pool_strdup p (Some n)) (m1\<lparr>m_values := vs\<rparr>) h1;
                ns \<leftarrow> arr_set (m_names m2) (m_size m2) dup;
                ks \<leftarrow> arr_set (m_keys m2) (m_size m2) (COMPUTE_KEY_HASH n);
                Some (True, m2\<lparr>m_names := ns, m_keys := ks, m_size := m_size m2 + 1\<rparr>, h2)
              }
            else Some (False, m1, h1)
          })"

text \<open>The third component of the result is the value stored through \<open>old\<close>, when there is one.\<close>

definition jk_map_put :: "'v jk_map \<Rightarrow> heap \<Rightarrow> string option \<Rightarrow> 'v option
     \<Rightarrow> (bool \<times> 'v option option \<times> 'v jk_map \<times> heap) ub" where
  "jk_map_put m h name value =
     (case name of
        None \<Rightarrow> Some (False, None, m, h)
      | Some n \<Rightarrow>
          do {
            r \<leftarrow> map_find m n;
            (case r of
               Some i \<Rightarrow>
                 do {
                   old \<leftarrow> arr (m_values m) i;
                   vs \<leftarrow> arr_set (m_values m) i value;
                   Some (True, Some old, m\<lparr>m_values := vs\<rparr>, h)
                 }
             | None \<Rightarrow> do { (rc, m', h') \<leftarrow> jk_map_add m h name value; Some (rc, None, m', h') })
          })"

definition jk_map_size :: "'v jk_map \<Rightarrow> int" where
  "jk_map_size m = int (m_size m)"

definition jk_map_name_at :: "'v jk_map \<Rightarrow> int \<Rightarrow> string option ub" where
  "jk_map_name_at m idex = (if idex \<ge> 0 then arr (m_names m) (nat idex) else Some None)"

definition jk_map_value_at :: "'v jk_map \<Rightarrow> int \<Rightarrow> 'v option ub" where
  "jk_map_value_at m idex = (if idex \<ge> 0 then arr (m_values m) (nat idex) else Some None)"

fun map_copy_loop :: "string jk_map \<Rightarrow> string jk_map \<Rightarrow> heap \<Rightarrow> nat list \<Rightarrow> (bool \<times> string jk_map \<times> heap) ub" where
  "map_copy_loop src dst h [] = Some (True, dst, h)"
| "map_copy_loop src dst h (i # is) =
     do {
       name \<leftarrow> jk_map_name_at src (int i);
       v \<leftarrow> jk_map_get dst name None;
       if v = None then
         do {
           sv \<leftarrow> jk_map_get_string src name None;
           (dup, dst1, h1) \<leftarrow> in_pool (\<lambda>p. jk_pool_strdup p sv) dst h;
           (rc, _, dst2, h2) \<leftarrow> jk_map_put dst1 h1 name dup;
           if \<not> rc then Some (False, dst2, h2) else map_copy_loop src dst2 h2 is
         }
       else map_copy_loop src dst h is
     }"

definition jk_map_copy :: "string jk_map \<Rightarrow> string jk_map \<Rightarrow> heap \<Rightarrow> (bool \<times> string jk_map \<times> heap) ub" where
  "jk_map_copy src dst h = map_copy_loop src dst h [0..<m_size src]"

section \<open>Typed readers\<close>

definition jk_get_bool_code :: "string option \<Rightarrow> int \<Rightarrow> int" where
  "jk_get_bool_code v dflt =
     (case v of
        None \<Rightarrow> dflt
      | Some s \<Rightarrow>
          if c_strcasecmp_eq s ''off'' \<or> (s \<noteq> [] \<and> hd s \<in> set ''FfNn'') \<or> s = ''0'' then 0
          else if c_strcasecmp_eq s ''on'' \<or> (s \<noteq> [] \<and> hd s \<in> set ''TtYy'') \<or> s = ''1'' then 1
          else dflt)"

definition jk_map_get_int :: "string jk_map \<Rightarrow> string option \<Rightarrow> int \<Rightarrow> int ub" where
  "jk_map_get_int m name dflt =
     do {
       r \<leftarrow> jk_map_get_string m name (Some (c_itoa dflt));
       (case r of
          None \<Rightarrow> None
        | Some rc \<Rightarrow>
            if rc \<noteq> [] then
              let multit = (if last rc \<in> set ''mM'' then 1024 * 1024
                            else if last rc \<in> set ''kK'' then 1024 else 1)
              in do {
                   i \<leftarrow> c_atoi rc;
                   guard (int_range (i * multit));
                   Some (i * multit)
                 }
            else Some dflt)
     }"

definition jk_map_get_bool :: "string jk_map \<Rightarrow> string option \<Rightarrow> int \<Rightarrow> int ub" where
  "jk_map_get_bool m name dflt =
     do { rc \<leftarrow> jk_map_get_string m name (Some (c_itoa dflt)); Some (jk_get_bool_code rc dflt) }"

definition list_sep :: "char \<Rightarrow> bool" where
  "list_sep c \<longleftrightarrow> c = CHR '' '' \<or> c = CHR 0x09 \<or> c = CHR '',''"

text \<open>The loop over the tokens: the array grows by five elements.\<close>

fun string_list_loop :: "string jk_map \<Rightarrow> heap \<Rightarrow> string list \<Rightarrow> string option list option \<Rightarrow> nat \<Rightarrow> nat
     \<Rightarrow> (string option list option \<times> nat \<times> string jk_map \<times> heap) ub" where
  "string_list_loop m h [] ar idex capacity = Some (ar, idex, m, h)"
| "string_list_loop m h (p # ps) ar idex capacity =
     do {
       (ar1, capacity1, m1, h1) \<leftarrow>
         (if idex = capacity then
            do { (a, m1, h1) \<leftarrow> in_pool (\<lambda>q. jk_pool_realloc None 8 q (of_nat (8 * (capacity + 5))) ar
                                   (of_nat (8 * capacity))) m h;
                 Some (a, capacity + 5, m1, h1) }
          else Some (ar, capacity, m, h));
       (case ar1 of
          None \<Rightarrow> Some (None, 0, m1, h1)
        | Some xs \<Rightarrow>
            do {
              (dup, m2, h2) \<leftarrow> in_pool (\<lambda>q. jk_pool_strdup q (Some p)) m1 h1;
              xs' \<leftarrow> wr xs idex dup;
              string_list_loop m2 h2 ps (Some xs') (idex + 1) capacity1
            })
     }"

definition jk_map_get_string_list :: "string jk_map \<Rightarrow> heap \<Rightarrow> string option \<Rightarrow> string option
     \<Rightarrow> (string option list option \<times> nat \<times> string jk_map \<times> heap) ub" where
  "jk_map_get_string_list m h name dflt =
     do {
       l \<leftarrow> jk_map_get_string m name dflt;
       (case l of
          None \<Rightarrow> Some (None, 0, m, h)
        | Some s \<Rightarrow>
            do {
              (v, m1, h1) \<leftarrow> in_pool (\<lambda>q. jk_pool_strdup q (Some s)) m h;
              (case v of
                 None \<Rightarrow> Some (None, 0, m1, h1)
               | Some v' \<Rightarrow> string_list_loop m1 h1 (tokens list_sep v') None 0 0)
            })
     }"

fun int_list_loop :: "string jk_map \<Rightarrow> heap \<Rightarrow> string list \<Rightarrow> int list option \<Rightarrow> nat \<Rightarrow> nat
     \<Rightarrow> (int list option \<times> nat option \<times> string jk_map \<times> heap) ub" where
  "int_list_loop m h [] ar idex capacity = Some (ar, Some idex, m, h)"
| "int_list_loop m h (p # ps) ar idex capacity =
     do {
       (ar1, capacity1, m1, h1) \<leftarrow>
         (if idex = capacity then
            do { (a, m1, h1) \<leftarrow> in_pool (\<lambda>q. jk_pool_realloc 0 4 q (of_nat (4 * (capacity + 5))) ar
                                   (of_nat (4 * capacity))) m h;
                 Some (a, capacity + 5, m1, h1) }
          else Some (ar, capacity, m, h));
       (case ar1 of
          None \<Rightarrow> Some (None, None, m1, h1)
        | Some xs \<Rightarrow>
            do {
              v \<leftarrow> c_atoi p;
              xs' \<leftarrow> wr xs idex v;
              int_list_loop m1 h1 ps (Some xs') (idex + 1) capacity1
            })
     }"

text \<open>\<open>*list_len\<close> is written only when the loop ends: the second component is \<open>None\<close> when it is left
  as the caller had it.\<close>

definition jk_map_get_int_list :: "string jk_map \<Rightarrow> heap \<Rightarrow> string option \<Rightarrow> string option
     \<Rightarrow> (int list option \<times> nat option \<times> string jk_map \<times> heap) ub" where
  "jk_map_get_int_list m h name dflt =
     do {
       l \<leftarrow> jk_map_get_string m name dflt;
       (case l of
          None \<Rightarrow> Some (None, None, m, h)
        | Some s \<Rightarrow>
            do {
              (v, m1, h1) \<leftarrow> in_pool (\<lambda>q. jk_pool_strdup q (Some s)) m h;
              (case v of
                 None \<Rightarrow> Some (None, None, m1, h1)
               | Some v' \<Rightarrow> int_list_loop m1 h1 (tokens list_sep v') None 0 0)
            })
     }"

section \<open>The table as an association list\<close>

definition cells_of :: "'a list option \<Rightarrow> 'a list" where
  "cells_of a = (case a of None \<Rightarrow> [] | Some xs \<Rightarrow> xs)"

abbreviation nlist :: "'v jk_map \<Rightarrow> string option list" where
  "nlist m \<equiv> cells_of (m_names m)"

abbreviation vlist :: "'v jk_map \<Rightarrow> 'v option list" where
  "vlist m \<equiv> cells_of (m_values m)"

abbreviation klist :: "'v jk_map \<Rightarrow> u32 list" where
  "klist m \<equiv> cells_of (m_keys m)"

definition map_wf :: "'v jk_map \<Rightarrow> bool" where
  "map_wf m \<longleftrightarrow> m_size m \<le> m_capacity m
     \<and> length (nlist m) = m_capacity m \<and> length (vlist m) = m_capacity m \<and> length (klist m) = 2 * m_capacity m
     \<and> (\<forall>i < m_size m. \<exists>n. nlist m ! i = Some n \<and> klist m ! i = COMPUTE_KEY_HASH n)"

definition entries :: "'v jk_map \<Rightarrow> (string \<times> 'v option) list" where
  "entries m = zip (map the (take (m_size m) (nlist m))) (take (m_size m) (vlist m))"

definition map_inv :: "'v jk_map \<Rightarrow> heap \<Rightarrow> bool" where
  "map_inv m h \<longleftrightarrow> map_wf m \<and> pool_inv (m_p m, h)"

lemma cells_simps [simp]: "cells_of (Some xs) = xs" "cells_of None = []"
  by (simp_all add: cells_of_def)

lemma arr_cells [simp]: "i < length (cells_of a) \<Longrightarrow> arr a i = Some (cells_of a ! i)"
  by (cases a) (simp_all add: arr_def)

lemma arr_set_cells: "i < length (cells_of a) \<Longrightarrow> arr_set a i v = Some (Some ((cells_of a)[i := v]))"
  by (cases a) (simp_all add: arr_set_def)

lemma map_wf_pool [simp]: "map_wf (m\<lparr>m_p := p\<rparr>) = map_wf m" "entries (m\<lparr>m_p := p\<rparr>) = entries m"
  by (simp_all add: map_wf_def entries_def)

lemma map_wf_lengths:
  assumes "map_wf m"
  shows "m_size m \<le> length (nlist m)" "m_size m \<le> length (vlist m)" "m_size m \<le> length (klist m)"
    "length (entries m) = m_size m"
  using assms by (auto simp: map_wf_def entries_def)

lemma entries_nth: "map_wf m \<Longrightarrow> i < m_size m \<Longrightarrow> entries m ! i = (the (nlist m ! i), vlist m ! i)"
  using map_wf_lengths [of m] by (simp add: entries_def)

subsection \<open>Searching\<close>

lemma find_key_spec:
  assumes "map_wf m" and "\<forall>i \<in> set is. i < m_size m"
  shows "find_key m (COMPUTE_KEY_HASH name) name is = Some (List.find (\<lambda>i. fst (entries m ! i) = name) is)"
  using assms(2)
proof (induction "is")
  case (Cons i "is")
  then have i: "i < m_size m" by simp
  obtain n where n: "nlist m ! i = Some n" "klist m ! i = COMPUTE_KEY_HASH n"
    using assms(1) i by (auto simp: map_wf_def)
  have "i < length (nlist m)" "i < length (klist m)" using i map_wf_lengths [OF assms(1)] by auto
  then show ?case using Cons n i entries_nth [OF assms(1) i] by auto
qed simp

lemma map_of_first:
  "map_of xs n = (case List.find (\<lambda>i. fst (xs ! i) = n) [0..<length xs] of None \<Rightarrow> None | Some i \<Rightarrow> Some (snd (xs ! i)))"
proof (induction xs)
  case (Cons x xs)
  have f: "List.find P (map Suc is) = map_option Suc (List.find (\<lambda>i. P (Suc i)) is)" for P "is"
    by (induction "is") auto
  have "[0..<length (x # xs)] = 0 # map Suc [0..<length xs]" by (simp add: map_Suc_upt upt_conv_Cons del: upt_Suc)
  then show ?case using Cons by (cases x) (simp add: f option.case_eq_if option.map_sel del: upt_Suc)
qed simp

lemma map_find_spec:
  assumes "map_wf m"
  shows "map_find m name = Some (List.find (\<lambda>i. fst (entries m ! i) = name) [0..<m_size m])"
  unfolding map_find_def by (rule find_key_spec [OF assms]) simp

lemma map_find_None: "map_wf m \<Longrightarrow> map_find m name = Some None \<longleftrightarrow> map_of (entries m) name = None"
  by (simp add: map_find_spec map_of_first [of "entries m"] map_wf_lengths split: option.splits)

lemma map_find_Some:
  assumes "map_wf m" and "map_find m name = Some (Some i)"
  shows "i < m_size m" "fst (entries m ! i) = name" "map_of (entries m) name = Some (vlist m ! i)"
    "\<And>j. j < i \<Longrightarrow> fst (entries m ! j) \<noteq> name"
proof -
  have f: "List.find (\<lambda>i. fst (entries m ! i) = name) [0..<m_size m] = Some i"
    using assms by (simp add: map_find_spec)
  then obtain k where "k < m_size m" "i = k" "fst (entries m ! k) = name" "\<forall>j < k. fst (entries m ! j) \<noteq> name"
    by (auto simp: find_Some_iff)
  then show "i < m_size m" "fst (entries m ! i) = name" "\<And>j. j < i \<Longrightarrow> fst (entries m ! j) \<noteq> name" by auto
  then show "map_of (entries m) name = Some (vlist m ! i)"
    using f entries_nth [OF assms(1)] by (simp add: map_of_first [of "entries m"] map_wf_lengths [OF assms(1)])
qed

lemma jk_map_get_spec:
  assumes "map_wf m"
  shows "jk_map_get m (Some name) d = Some (case map_of (entries m) name of None \<Rightarrow> d | Some v \<Rightarrow> v)"
proof -
  obtain r where r: "map_find m name = Some r" using assms by (simp add: map_find_spec)
  show ?thesis
  proof (cases r)
    case None
    then show ?thesis using r map_find_None [OF assms, of name] by (simp add: jk_map_get_def)
  next
    case (Some i)
    then show ?thesis using r map_find_Some [OF assms, of name i] map_wf_lengths(2) [OF assms]
      by (simp add: jk_map_get_def)
  qed
qed

lemma jk_map_get_string_is_get: "jk_map_get_string = jk_map_get"
  by (intro ext) (simp add: jk_map_get_string_def jk_map_get_def)

lemma jk_map_get_id_spec:
  assumes "map_wf m"
  shows "\<exists>k. jk_map_get_id m (Some name) = Some k \<and> (k < 0 \<longleftrightarrow> map_of (entries m) name = None)"
proof -
  obtain r where r: "map_find m name = Some r" using assms by (simp add: map_find_spec)
  show ?thesis
    using r map_find_None [OF assms, of name] map_find_Some(3) [OF assms, of name] by (cases r) (auto simp: jk_map_get_id_def)
qed


subsection \<open>Storing\<close>

text \<open>What growing the arrays costs, and that it keeps the table.\<close>

definition grow_cost :: "'v jk_map \<Rightarrow> nat" where
  "grow_cost m = 3 * (8 * (m_capacity m + 50) + 24)"

lemma in_pool_credit:
  assumes "\<exists>r' p' h'. f (m_p m, h) = Some (r', (p', h')) \<and> pool_credit c (p', h') \<and> P r'"
  shows "\<exists>r' p' h'. in_pool f m h = Some (r', m\<lparr>m_p := p'\<rparr>, h') \<and> pool_credit c (p', h') \<and> P r'"
  using assms by (auto simp: in_pool_def)

lemma grow_array:
  fixes z :: 'a
  assumes "pool_credit (c + 8 * (cap + 50) + 24) (m_p m, h)" and "cap + 50 < 2 ^ 31"
    and "length (cells_of a) * unat esz = 8 * cap" and "esz = 8 \<or> esz = 4"
  shows "\<exists>xs p' h'. in_pool (\<lambda>q. jk_pool_realloc z esz q (of_nat ((cap + 50) * 8)) a (of_nat (cap * 8))) m h =
      Some (Some xs, m\<lparr>m_p := p'\<rparr>, h') \<and> pool_credit c (p', h') \<and> xs = cells_of a @ replicate (400 div unat esz) z"
proof -
  have u: "unat (of_nat ((cap + 50) * 8) :: u64) = (cap + 50) * 8" "unat (of_nat (cap * 8) :: u64) = cap * 8"
    using assms(2) by (intro unat_u64_of_nat; simp)+
  have nz: "(of_nat ((cap + 50) * 8) :: u64) \<noteq> 0" using u(1) by (metis add_is_0 mult_is_0 unat_0 zero_neq_numeral)
  have le: "(of_nat (cap * 8) :: u64) \<le> of_nat ((cap + 50) * 8)" unfolding word_le_nat_alt u by simp
  have cr: "pool_credit (c + unat (of_nat ((cap + 50) * 8) :: u64) + 24) (m_p m, h)"
    unfolding u using assms(1) by (simp add: mult.commute)
  have old: "unat (of_nat (cap * 8) :: u64) \<le> length xs * unat esz" if "a = Some xs" for xs
    unfolding u using assms(3) that by (simp add: mult.commute)
  obtain ys q where r: "jk_pool_realloc z esz (m_p m, h) (of_nat ((cap + 50) * 8)) a (of_nat (cap * 8)) = Some (Some ys, q)"
      "pool_credit c q" and ys: "ys = (case a of None \<Rightarrow> replicate ((cap + 50) * 8 div unat esz) z
             | Some xs \<Rightarrow> take (cap * 8 div unat esz) xs @ replicate (((cap + 50) * 8 - cap * 8) div unat esz) z)"
    using realloc_credit [OF cr nz le old, where z = z] unfolding u by blast
  have "ys = cells_of a @ replicate (400 div unat esz) z"
  proof (cases a)
    case None
    then have "cap = 0" using assms(3) by simp
    then show ?thesis using None ys by simp
  next
    case (Some xs)
    then have "length xs = cap * 8 div unat esz" using assms(3,4) by auto
    moreover have "(cap + 50) * 8 - cap * 8 = 400" by simp
    ultimately show ?thesis using Some ys by simp
  qed
  with r show ?thesis by (cases q) (auto simp: in_pool_def)
qed

lemma nth_append_left: "i < length xs \<Longrightarrow> (xs @ ys) ! i = xs ! i"
  by (simp add: nth_append)

lemma map_realloc_ok:
  assumes wf: "map_wf m" and cr: "pool_credit (c + grow_cost m) (m_p m, h)" and small: "m_capacity m + 50 < 2 ^ 31"
  shows "\<exists>rc m' h'. map_realloc m h = Some (rc, m', h') \<and> map_wf m' \<and> entries m' = entries m \<and> m_size m' = m_size m
     \<and> m_size m' < m_capacity m' \<and> pool_credit c (m_p m', h')
     \<and> m_capacity m' \<le> max (m_capacity m) (m_size m + 50)"
proof (cases "m_size m = m_capacity m")
  case False
  then show ?thesis using wf pool_credit_mono [OF cr] by (intro exI [of _ False]) (simp add: map_realloc_def map_wf_def)
next
  case True
  let ?cap = "m_capacity m"
  have len: "length (nlist m) = ?cap" "length (vlist m) = ?cap" "length (klist m) = 2 * ?cap" using wf by (simp_all add: map_wf_def)
  have c1: "pool_credit ((c + 2 * (8 * (?cap + 50) + 24)) + 8 * (?cap + 50) + 24) (m_p m, h)"
    using cr by (simp add: grow_cost_def algebra_simps)
  obtain p1 h1 where r1: "in_pool (\<lambda>q. jk_pool_realloc None 8 q (of_nat ((?cap + 50) * 8)) (m_names m) (of_nat (?cap * 8))) m h =
      Some (Some (nlist m @ replicate 50 None), m\<lparr>m_p := p1\<rparr>, h1)" "pool_credit (c + 2 * (8 * (?cap + 50) + 24)) (p1, h1)"
    using grow_array [OF c1 small, of "m_names m" 8 None] len by auto
  have c2: "pool_credit ((c + (8 * (?cap + 50) + 24)) + 8 * (?cap + 50) + 24) (m_p (m\<lparr>m_p := p1\<rparr>), h1)"
    using r1(2) by (simp add: algebra_simps)
  obtain p2 h2 where r2: "in_pool (\<lambda>q. jk_pool_realloc None 8 q (of_nat ((?cap + 50) * 8)) (m_values m) (of_nat (?cap * 8))) (m\<lparr>m_p := p1\<rparr>) h1 =
      Some (Some (vlist m @ replicate 50 None), m\<lparr>m_p := p2\<rparr>, h2)" "pool_credit (c + (8 * (?cap + 50) + 24)) (p2, h2)"
    using grow_array [OF c2 small, of "m_values m" 8 None] len by auto
  have c3: "pool_credit (c + 8 * (?cap + 50) + 24) (m_p (m\<lparr>m_p := p2\<rparr>), h2)" using r2(2) by (simp add: algebra_simps)
  obtain p3 h3 where r3: "in_pool (\<lambda>q. jk_pool_realloc 0 4 q (of_nat ((?cap + 50) * 8)) (m_keys m) (of_nat (?cap * 8))) (m\<lparr>m_p := p2\<rparr>) h2 =
      Some (Some (klist m @ replicate 100 0), m\<lparr>m_p := p3\<rparr>, h3)" "pool_credit c (p3, h3)"
    using grow_array [OF c3 small, of "m_keys m" 4 0] len by auto
  let ?m = "m\<lparr>m_p := p3, m_names := Some (nlist m @ replicate 50 None), m_values := Some (vlist m @ replicate 50 None),
      m_keys := Some (klist m @ replicate 100 0), m_capacity := ?cap + 50\<rparr>"
  have "map_realloc m h = Some (True, ?m, h3)"
    using True small r1(1) r2(1) r3(1) by (simp add: map_realloc_def Let_def CAPACITY_INC_SIZE_def)
  moreover have "map_wf ?m" using wf len True by (auto simp: map_wf_def nth_append_left)
  moreover have "entries ?m = entries m" using len True by (simp add: entries_def)
  ultimately show ?thesis using True r3(2) by (intro exI [of _ True] exI [of _ ?m] exI [of _ h3]) simp
qed


lemma zip_snoc: "length xs = length ys \<Longrightarrow> zip (xs @ [x]) (ys @ [y]) = zip xs ys @ [(x, y)]"
  by simp

lemma jk_map_add_ok:
  assumes wf: "map_wf m" and cr: "pool_credit (c + grow_cost m + length name + 25) (m_p m, h)"
    and small: "m_capacity m + 50 < 2 ^ 31"
  shows "\<exists>m' h'. jk_map_add m h (Some name) v = Some (True, m', h') \<and> map_wf m' \<and> entries m' = entries m @ [(name, v)]
     \<and> m_size m' = m_size m + 1 \<and> pool_credit c (m_p m', h') \<and> m_capacity m' \<le> max (m_capacity m) (m_size m + 50)"
proof -
  have "pool_credit ((c + length name + 25) + grow_cost m) (m_p m, h)" using cr by (simp add: algebra_simps)
  from map_realloc_ok [OF wf this small] obtain rc m1 h1 where
    r: "map_realloc m h = Some (rc, m1, h1)" "map_wf m1" "entries m1 = entries m" "m_size m1 = m_size m"
      "m_size m1 < m_capacity m1" "pool_credit (c + length name + 25) (m_p m1, h1)"
      "m_capacity m1 \<le> max (m_capacity m) (m_size m + 50)" by blast
  obtain p2 h2 where d: "jk_pool_strdup (m_p m1, h1) (Some name) = Some (Some name, (p2, h2))" "pool_credit c (p2, h2)"
    using strdup_credit [OF r(6)] by auto
  let ?i = "m_size m1"
  have len: "?i < length (nlist m1)" "?i < length (vlist m1)" "?i < length (klist m1)"
    using r(2,5) by (simp_all add: map_wf_def)
  let ?m = "m1\<lparr>m_p := p2, m_values := Some ((vlist m1)[?i := v]), m_names := Some ((nlist m1)[?i := Some name]),
      m_keys := Some ((klist m1)[?i := COMPUTE_KEY_HASH name]), m_size := ?i + 1\<rparr>"
  have "jk_map_add m h (Some name) v = Some (True, ?m, h2)"
    using r(1,5) d(1) len by (simp add: jk_map_add_def arr_set_cells in_pool_def)
  moreover have "map_wf ?m" using r(2,5) by (auto simp: map_wf_def nth_list_update less_Suc_eq)
  moreover have "entries ?m = entries m1 @ [(name, v)]"
    using len r(2) by (simp add: entries_def take_Suc_conv_app_nth map_wf_def)
  ultimately show ?thesis using r(3,4,7) d(2) by (intro exI [of _ ?m] exI [of _ h2]) simp
qed

lemma map_of_update_first:
  assumes "i < length xs" and "fst (xs ! i) = n" and "\<And>j. j < i \<Longrightarrow> fst (xs ! j) \<noteq> n"
  shows "map_of (xs[i := (n, v)]) = (map_of xs)(n \<mapsto> v)"
  using assms
proof (induction xs arbitrary: i)
  case (Cons x xs)
  show ?case
  proof (cases i)
    case 0
    then show ?thesis using Cons.prems by (cases x) auto
  next
    case (Suc j)
    have "fst x \<noteq> n" using Cons.prems(3) [of 0] Suc by simp
    moreover have "map_of (xs[j := (n, v)]) = (map_of xs)(n \<mapsto> v)"
      using Cons.prems Suc by (intro Cons.IH) fastforce+
    ultimately show ?thesis using Suc by (cases x) (auto simp: fun_upd_twist)
  qed
qed simp

lemma jk_map_put_ok:
  assumes wf: "map_wf m" and cr: "pool_credit (c + grow_cost m + length name + 25) (m_p m, h)"
    and small: "m_capacity m + 50 < 2 ^ 31"
  shows "\<exists>old m' h'. jk_map_put m h (Some name) v = Some (True, old, m', h') \<and> map_wf m'
     \<and> map_of (entries m') = (map_of (entries m))(name \<mapsto> v) \<and> old = map_of (entries m) name
     \<and> m_size m' \<le> m_size m + 1 \<and> m_size m \<le> m_size m' \<and> pool_credit c (m_p m', h')
     \<and> m_capacity m' \<le> max (m_capacity m) (m_size m' + 50)"
proof -
  obtain r where r: "map_find m name = Some r" using wf by (simp add: map_find_spec)
  show ?thesis
  proof (cases r)
    case None
    then have n: "map_of (entries m) name = None" using r map_find_None [OF wf] by simp
    from jk_map_add_ok [OF assms, of v] obtain m' h' where
      a: "jk_map_add m h (Some name) v = Some (True, m', h')" "map_wf m'" "entries m' = entries m @ [(name, v)]"
        "m_size m' = m_size m + 1" "pool_credit c (m_p m', h')" "m_capacity m' \<le> max (m_capacity m) (m_size m + 50)" by blast
    have "map_of (entries m @ [(name, v)]) = (map_of (entries m))(name \<mapsto> v)"
      using n by (auto simp: map_add_def split: option.splits)
    with a n None r show ?thesis by (simp add: jk_map_put_def)
  next
    case (Some i)
    note f = map_find_Some [OF wf r [unfolded Some]]
    let ?m = "m\<lparr>m_values := Some ((vlist m)[i := v])\<rparr>"
    have len: "i < length (vlist m)" using f(1) map_wf_lengths(2) [OF wf] by simp
    have "jk_map_put m h (Some name) v = Some (True, Some (vlist m ! i), ?m, h)"
      using r Some len by (simp add: jk_map_put_def arr_set_cells)
    moreover have "map_wf ?m" using wf by (simp add: map_wf_def)
    moreover have "entries ?m = (entries m)[i := (name, v)]"
    proof -
      have "map the (take (m_size m) (nlist m)) ! i = name"
        using f(1,2) entries_nth [OF wf f(1)] map_wf_lengths(1) [OF wf] by simp
      then have "map the (take (m_size m) (nlist m)) = (map the (take (m_size m) (nlist m)))[i := name]"
        by (metis list_update_id)
      then show ?thesis unfolding entries_def by (simp add: take_update_swap zip_update [symmetric])
    qed
    ultimately show ?thesis
      using f(3) map_of_update_first [of i "entries m" name v] f(1,2,4) map_wf_lengths(4) [OF wf] pool_credit_mono [OF cr]
      by simp
  qed
qed


subsection \<open>The table as an interface\<close>

text \<open>A table that has room for \<open>k\<close> more entries: lookups see the last value stored.\<close>

primrec store_all :: "('s \<Rightarrow> string \<Rightarrow> 'v \<Rightarrow> (bool \<times> 's) ub) \<Rightarrow> 's \<Rightarrow> (string \<times> 'v) list \<Rightarrow> (bool \<times> 's) ub" where
  "store_all store s [] = Some (True, s)"
| "store_all store s (kv # kvs) =
     do { (ok, s') \<leftarrow> store s (fst kv) (snd kv); if ok then store_all store s' kvs else Some (False, s') }"

locale table =
  fixes ready :: "nat \<Rightarrow> 's \<Rightarrow> bool"
    and accepts :: "string \<Rightarrow> bool"
    and view :: "'s \<Rightarrow> string \<Rightarrow> 'v option"
    and store :: "'s \<Rightarrow> string \<Rightarrow> 'v \<Rightarrow> (bool \<times> 's) ub"
  assumes store_ok: "ready (Suc k) s \<Longrightarrow> accepts n \<Longrightarrow>
      \<exists>s'. store s n v = Some (True, s') \<and> ready k s' \<and> view s' = (view s)(n \<mapsto> v)"
begin

lemma store_all_ok:
  "ready (length kvs + k) s \<Longrightarrow> list_all (\<lambda>kv. accepts (fst kv)) kvs \<Longrightarrow>
   \<exists>s'. store_all store s kvs = Some (True, s') \<and> ready k s' \<and> view s' = view s ++ map_of (rev kvs)"
proof (induction kvs arbitrary: s)
  case (Cons kv kvs)
  then obtain s1 where s1: "store s (fst kv) (snd kv) = Some (True, s1)" "ready (length kvs + k) s1"
      "view s1 = (view s)(fst kv \<mapsto> snd kv)"
    using store_ok [of "length kvs + k" s "fst kv" "snd kv"] by auto
  with Cons obtain s' where "store_all store s1 kvs = Some (True, s')" "ready k s'" "view s' = view s1 ++ map_of (rev kvs)"
    by fastforce
  moreover have "view s1 ++ map_of (rev kvs) = view s ++ map_of (rev (kv # kvs))"
    using s1(3) by (cases kv) simp
  ultimately show ?case using s1(1) by auto
qed simp

end

definition NAME_LIMIT :: nat where
  "NAME_LIMIT = LENGTH_OF_LINE"

text \<open>Room for \<open>k\<close> more entries that need \<open>e\<close> bytes each beside the growth of the arrays.\<close>

definition map_room :: "nat \<Rightarrow> nat \<Rightarrow> 'v jk_map \<times> heap \<Rightarrow> bool" where
  "map_room e k s \<longleftrightarrow> map_wf (fst s) \<and> m_capacity (fst s) \<le> m_size (fst s) + 50 \<and> m_size (fst s) + k + 100 < 2 ^ 31
     \<and> pool_credit (k * (24 * (m_size (fst s) + k + 100) + e)) (m_p (fst s), snd s)"

definition map_ready :: "nat \<Rightarrow> 'v jk_map \<times> heap \<Rightarrow> bool" where
  "map_ready k s \<longleftrightarrow> map_room (NAME_LIMIT + 97) k s"

definition map_store :: "'v jk_map \<times> heap \<Rightarrow> string \<Rightarrow> 'v option \<Rightarrow> (bool \<times> 'v jk_map \<times> heap) ub" where
  "map_store s n v = do { (ok, _, m', h') \<leftarrow> jk_map_put (fst s) (snd s) (Some n) v; Some (ok, m', h') }"

definition map_view :: "'v jk_map \<times> heap \<Rightarrow> string \<Rightarrow> 'v option option" where
  "map_view s = map_of (entries (fst s))"

lemma map_roomD:
  assumes "map_room e (Suc k) (m, h)" and "x + length n + 97 \<le> e"
  shows "map_wf m" "m_capacity m \<le> m_size m + 50" "m_size m + Suc k + 100 < 2 ^ 31"
    "pool_credit ((k * (24 * (m_size m + Suc k + 100) + e) + grow_cost m + length n + 25) + x) (m_p m, h)"
proof -
  show r: "map_wf m" "m_capacity m \<le> m_size m + 50" "m_size m + Suc k + 100 < 2 ^ 31"
    using assms(1) by (simp_all add: map_room_def)
  have "pool_credit (Suc k * (24 * (m_size m + Suc k + 100) + e)) (m_p m, h)" using assms(1) by (simp add: map_room_def)
  moreover have "grow_cost m + length n + 25 + x \<le> 24 * (m_size m + Suc k + 100) + e"
    using r(2) assms(2) by (simp add: grow_cost_def)
  then have "(k * (24 * (m_size m + Suc k + 100) + e) + grow_cost m + length n + 25) + x
      \<le> Suc k * (24 * (m_size m + Suc k + 100) + e)" by simp
  ultimately show "pool_credit ((k * (24 * (m_size m + Suc k + 100) + e) + grow_cost m + length n + 25) + x) (m_p m, h)"
    by (rule pool_credit_mono)
qed

lemma room_put:
  assumes "map_wf m" "m_capacity m \<le> m_size m + 50" "m_size m + Suc k + 100 < 2 ^ 31"
    and "pool_credit (k * (24 * (m_size m + Suc k + 100) + e) + grow_cost m + length n + 25) (m_p m, h)"
  shows "\<exists>old m' h'. jk_map_put m h (Some n) v = Some (True, old, m', h') \<and> map_room e k (m', h')
     \<and> map_of (entries m') = (map_of (entries m))(n \<mapsto> v)"
proof -
  let ?c = "k * (24 * (m_size m + Suc k + 100) + e)"
  have "m_capacity m + 50 < 2 ^ 31" using assms(2,3) by simp
  from jk_map_put_ok [OF assms(1,4) this, of v] obtain old m' h' where
    p: "jk_map_put m h (Some n) v = Some (True, old, m', h')" "map_wf m'"
      "map_of (entries m') = (map_of (entries m))(n \<mapsto> v)" "m_size m' \<le> m_size m + 1" "m_size m \<le> m_size m'"
      "pool_credit ?c (m_p m', h')" "m_capacity m' \<le> max (m_capacity m) (m_size m' + 50)" by auto
  have "k * (24 * (m_size m' + k + 100) + e) \<le> ?c" using p(4) by (intro mult_le_mono2) simp
  from pool_credit_mono [OF p(6) this] have "map_room e k (m', h')" using p assms(2,3) by (auto simp: map_room_def)
  with p show ?thesis by blast
qed

lemma map_store_ok:
  assumes "map_ready (Suc k) s" and "length n \<le> NAME_LIMIT"
  shows "\<exists>s'. map_store s n v = Some (True, s') \<and> map_ready k s' \<and> map_view s' = (map_view s)(n \<mapsto> v)"
proof (cases s)
  case (Pair m h)
  have "map_room (NAME_LIMIT + 97) (Suc k) (m, h)" using assms(1) Pair by (simp add: map_ready_def)
  note r = map_roomD [OF this, of 0 n]
  have le: "0 + length n + 97 \<le> NAME_LIMIT + 97" using assms(2) by simp
  obtain old m' h' where "jk_map_put m h (Some n) v = Some (True, old, m', h')" "map_room (NAME_LIMIT + 97) k (m', h')"
      "map_of (entries m') = (map_of (entries m))(n \<mapsto> v)"
    using room_put [OF r(1) [OF le] r(2) [OF le] r(3) [OF le], of "NAME_LIMIT + 97" n h v] r(4) [OF le] by auto
  then show ?thesis using Pair by (simp add: map_store_def map_view_def map_ready_def)
qed

interpretation props: table map_ready "\<lambda>n. length n \<le> NAME_LIMIT" map_view map_store
  by unfold_locales (rule map_store_ok)

section \<open>Numbers in decimal\<close>

lemma isdigit_char: "n < 10 \<Longrightarrow> isdigit (char_of (48 + n)) \<and> code (char_of (48 + n)) - 48 = n"
  by (simp add: isdigit_def)

lemma dec_digits_isdigit: "list_all isdigit (dec_digits n)"
proof (induction n rule: dec_digits.induct)
  case (1 n)
  then show ?case by (subst dec_digits.simps) (use isdigit_char [of n] isdigit_char [of "n mod 10"] in auto)
qed

declare dec_digits.simps [simp del]

lemma dec_digits_nonempty: "dec_digits n \<noteq> []"
  by (subst dec_digits.simps) simp

lemma digits_value_snoc: "digits_value (ds @ [c]) = 10 * digits_value ds + (code c - 48)"
  by (simp add: digits_value_def)

lemma digits_value_dec: "digits_value (dec_digits n) = n"
proof (induction n rule: dec_digits.induct)
  case (1 n)
  show ?case
  proof (cases "n < 10")
    case True
    then show ?thesis using isdigit_char [of n] by (subst dec_digits.simps) (simp add: digits_value_def)
  next
    case False
    with 1 have "digits_value (dec_digits (n div 10)) = n div 10" by simp
    then show ?thesis using False isdigit_char [of "n mod 10"] by (subst dec_digits.simps) (simp add: digits_value_snoc)
  qed
qed

lemma digit_not_special: "isdigit c \<Longrightarrow> \<not> jk_isspace c \<and> c \<noteq> CHR ''-'' \<and> c \<noteq> CHR ''+'' \<and> c \<notin> set ''mMkK''"
  by (auto simp: isdigit_def jk_isspace_def code_def)

lemma takeWhile_dec: "takeWhile isdigit (dec_digits n) = dec_digits n"
  using dec_digits_isdigit [of n] by (simp add: takeWhile_eq_all_conv list_all_iff)

lemma atoi_dec:
  assumes "int_range (int n)"
  shows "c_atoi (dec_digits n) = Some (int n)"
proof -
  have d: "list_all isdigit (dec_digits n)" by (rule dec_digits_isdigit)
  obtain c ds where c: "dec_digits n = c # ds" using dec_digits_nonempty by (cases "dec_digits n") auto
  then have "isdigit c" using d by simp
  then have "dropWhile jk_isspace (dec_digits n) = dec_digits n" "hd (dec_digits n) \<noteq> CHR ''-''" "hd (dec_digits n) \<noteq> CHR ''+''"
    using c digit_not_special by auto
  then show ?thesis using assms by (simp add: c_atoi_def Let_def takeWhile_dec digits_value_dec)
qed

lemma atoi_itoa:
  assumes "int_range i"
  shows "c_atoi (c_itoa i) = Some i"
proof (cases "i < 0")
  case False
  then show ?thesis using atoi_dec [of "nat i"] assms by (simp add: c_itoa_def)
next
  case True
  have "\<not> jk_isspace (CHR ''-'')" by (simp add: jk_isspace_def code_def)
  then show ?thesis using True assms by (simp add: c_itoa_def c_atoi_def Let_def digits_value_dec takeWhile_dec)
qed

lemma itoa_last: "c_itoa i \<noteq> [] \<and> isdigit (last (c_itoa i))"
proof -
  have "isdigit (last (dec_digits n))" for n
    using dec_digits_isdigit [of n] dec_digits_nonempty [of n] by (metis last_in_set list_all_iff)
  then show ?thesis using dec_digits_nonempty by (simp add: c_itoa_def)
qed


section \<open>The theorems\<close>

text \<open>Claim C21: the map behaves as a finite map: after any sequence of \<open>jk_map_put\<close> calls for which there
  is memory, every call has succeeded, and \<open>jk_map_get\<close> returns the last value stored under a name,
  else what the map held before, else the default. Growth of the arrays, hash collisions and repeated
  names do not matter.\<close>

theorem map_last_write_wins:
  assumes "map_ready (length kvs) (m, h)" and "list_all (\<lambda>kv. length (fst kv) \<le> NAME_LIMIT) kvs"
  shows "\<exists>m' h'. store_all map_store (m, h) kvs = Some (True, m', h') \<and>
     (\<forall>name d. jk_map_get m' (Some name) d =
        (case map_of (rev kvs) name of Some v \<Rightarrow> Some v | None \<Rightarrow> jk_map_get m (Some name) d))"
proof -
  obtain m' h' where s: "store_all map_store (m, h) kvs = Some (True, m', h')" "map_ready 0 (m', h')"
      "map_view (m', h') = map_view (m, h) ++ map_of (rev kvs)"
    using props.store_all_ok [of kvs 0 "(m, h)"] assms by auto
  have "map_wf m" "map_wf m'" using assms(1) s(2) by (simp_all add: map_ready_def map_room_def)
  with s show ?thesis by (auto simp: jk_map_get_spec map_view_def map_add_def split: option.splits)
qed

definition demo_map :: "string jk_map" where
  "demo_map = jk_map_open"

lemma demo_map_wf: "map_wf demo_map" "entries demo_map = []" "m_size demo_map = 0" "m_capacity demo_map = 0"
  "m_p demo_map = jk_open_pool (8 * SMALL_POOL_SIZE)"
  by (simp_all add: demo_map_def jk_map_open_def map_wf_def entries_def)

definition big_heap :: heap where
  "big_heap = \<lparr>live = [], next_id = 0, limit = 1048576\<rparr>"

lemma big_credit: "c \<le> 1000000 \<Longrightarrow> pool_credit c (jk_open_pool sz, big_heap)"
  by (simp add: pool_credit_def pool_inv_unfold jk_open_pool_def big_heap_def heap_inv_def heap_used_def live_ids_def)

lemma demo_map_ready: "map_ready 3 (demo_map, big_heap)"
  using big_credit [of "3 * (24 * 103 + NAME_LIMIT + 97)"]
  by (simp add: map_ready_def map_room_def demo_map_wf NAME_LIMIT_def LENGTH_OF_LINE_def)

theorem map_last_write_wins_witness:
  "\<exists>m' h'. store_all map_store (demo_map, big_heap) [(''a'', Some ''1''), (''b'', Some ''2''), (''a'', Some ''3'')] =
      Some (True, m', h') \<and> jk_map_get m' (Some ''a'') None = Some (Some ''3'')"
proof -
  let ?kvs = "[(''a'', Some ''1''), (''b'', Some ''2''), (''a'', Some ''3'')]"
  have "map_ready (length ?kvs) (demo_map, big_heap)" using demo_map_ready by (simp add: numeral_3_eq_3)
  from map_last_write_wins [OF this] obtain m' h' where "store_all map_store (demo_map, big_heap) ?kvs = Some (True, m', h')"
    and "\<forall>name d. jk_map_get m' (Some name) d =
        (case map_of (rev ?kvs) name of Some v \<Rightarrow> Some v | None \<Rightarrow> jk_map_get demo_map (Some name) d)"
    by (auto simp: NAME_LIMIT_def LENGTH_OF_LINE_def)
  then show ?thesis by (intro exI [of _ m'] exI [of _ h']) simp
qed

text \<open>\<open>jk_map_get_int\<close> returns its default for a missing name, for every 32-bit default: printing
  the default and parsing it back is the identity, and no printed number ends in a size suffix.\<close>

theorem map_get_int_default:
  assumes "map_wf m" and "int_range d" and "map_of (entries m) name = None"
  shows "jk_map_get_int m (Some name) d = Some d"
proof -
  have "jk_map_get_string m (Some name) (Some (c_itoa d)) = Some (Some (c_itoa d))"
    using assms by (simp add: jk_map_get_string_is_get jk_map_get_spec)
  moreover have "last (c_itoa d) \<notin> set ''mMkK''" "c_itoa d \<noteq> []" using itoa_last digit_not_special by blast+
  ultimately show ?thesis using atoi_itoa [OF assms(2)] assms(2) by (simp add: jk_map_get_int_def Let_def)
qed

theorem map_get_int_default_witness: "jk_map_get_int demo_map (Some ''port'') (- 2147483648) = Some (- 2147483648)"
  by (rule map_get_int_default) (simp_all add: demo_map_wf int_range_def)

text \<open>When \<open>jk_pool_strdup\<close> fails, \<open>jk_map_add\<close> reports success with a null name in the table, and
  the next lookup of that name dereferences it.\<close>

theorem map_add_null_name:
  assumes "map_wf m" and "m_size m < m_capacity m" and "map_of (entries m) name = None"
    and "jk_pool_strdup (m_p m, h) (Some name) = Some (None, (p', h'))"
  shows "\<exists>m'. jk_map_add m h (Some name) v = Some (True, m', h') \<and> jk_map_get m' (Some name) d = None"
proof -
  let ?i = "m_size m"
  have len: "?i < length (nlist m)" "?i < length (vlist m)" "?i < length (klist m)" "?i \<noteq> m_capacity m"
    using assms(1,2) by (simp_all add: map_wf_def)
  let ?m = "m\<lparr>m_p := p', m_values := Some ((vlist m)[?i := v]), m_names := Some ((nlist m)[?i := None]),
      m_keys := Some ((klist m)[?i := COMPUTE_KEY_HASH name]), m_size := ?i + 1\<rparr>"
  have "jk_map_add m h (Some name) v = Some (True, ?m, h')"
    using assms(2,4) len by (simp add: jk_map_add_def map_realloc_def arr_set_cells in_pool_def)
  moreover have "find_key ?m (COMPUTE_KEY_HASH name) name (is @ [?i]) = None" if "\<forall>i \<in> set is. i < ?i" for "is"
    using that
  proof (induction "is")
    case Nil
    then show ?case using len by (simp add: arr_def)
  next
    case (Cons i "is")
    then have i: "i < ?i" by simp
    obtain n where n: "nlist m ! i = Some n" "klist m ! i = COMPUTE_KEY_HASH n" using assms(1) i by (auto simp: map_wf_def)
    have "n \<noteq> name"
      using assms(3) entries_nth [OF assms(1) i] n(1) nth_mem [of i "entries m"] map_wf_lengths(4) [OF assms(1)] i
      by (auto simp: map_of_eq_None_iff image_iff)
    then show ?case using Cons n i len by (simp add: arr_def nth_list_update)
  qed
  from this [of "[0..<?i]"] have "jk_map_get ?m (Some name) d = None" by (simp add: jk_map_get_def map_find_def)
  ultimately show ?thesis by blast
qed

definition tight_map :: "string jk_map" where
  "tight_map = \<lparr>m_p = jk_open_pool 0, m_names = Some [None], m_values = Some [None], m_keys = Some [0, 0],
     m_capacity = 1, m_size = 0\<rparr>"

theorem map_add_null_name_witness:
  "\<exists>m'. jk_map_add tight_map \<lparr>live = [], next_id = 0, limit = 0\<rparr> (Some ''a'') (Some ''1'') =
      Some (True, m', \<lparr>live = [], next_id = 0, limit = 0\<rparr>) \<and> jk_map_get m' (Some ''a'') None = None"
proof (rule map_add_null_name)
  show "jk_pool_strdup (m_p tight_map, \<lparr>live = [], next_id = 0, limit = 0\<rparr>) (Some ''a'') =
      Some (None, (jk_open_pool 0, \<lparr>live = [], next_id = 0, limit = 0\<rparr>))"
    by (simp add: tight_map_def jk_pool_strdup_def jk_pool_alloc_def JK_ALIGN_DEFAULT_def JK_ALIGN_def jk_open_pool_def
        jk_pool_grow_def c_realloc_def c_malloc_def heap_used_def DEFAULT_DYNAMIC_def Let_def)
qed (simp_all add: tight_map_def map_wf_def entries_def)

end
