(* ===== verification/Jk_Props.thy ===== *)
theory Jk_Props
  imports Jk_Prelude
begin

text \<open>
  The attribute names of the worker properties and the predicates on property names
  (\<open>jk_util.c\<close>): which attributes exist, which hold lists, which may be given once, which are
  deprecated.
\<close>

section \<open>Attribute names\<close>

abbreviation SYSPROPS_OF_WORKER :: string where
  "SYSPROPS_OF_WORKER \<equiv> ''sysprops''"

abbreviation STDERR_OF_WORKER :: string where
  "STDERR_OF_WORKER \<equiv> ''stderr''"

abbreviation STDOUT_OF_WORKER :: string where
  "STDOUT_OF_WORKER \<equiv> ''stdout''"

abbreviation SECRET_OF_WORKER :: string where
  "SECRET_OF_WORKER \<equiv> ''secret''"

abbreviation MX_OF_WORKER :: string where
  "MX_OF_WORKER \<equiv> ''mx''"

abbreviation MS_OF_WORKER :: string where
  "MS_OF_WORKER \<equiv> ''ms''"

abbreviation CP_OF_WORKER :: string where
  "CP_OF_WORKER \<equiv> ''class_path''"

abbreviation BRIDGE_OF_WORKER :: string where
  "BRIDGE_OF_WORKER \<equiv> ''bridge''"

abbreviation JVM_OF_WORKER :: string where
  "JVM_OF_WORKER \<equiv> ''jvm_lib''"

abbreviation LIBPATH_OF_WORKER :: string where
  "LIBPATH_OF_WORKER \<equiv> ''ld_path''"

abbreviation CMD_LINE_OF_WORKER :: string where
  "CMD_LINE_OF_WORKER \<equiv> ''cmd_line''"

abbreviation NATIVE_LIB_OF_WORKER :: string where
  "NATIVE_LIB_OF_WORKER \<equiv> ''native_lib''"

abbreviation REFERENCE_OF_WORKER :: string where
  "REFERENCE_OF_WORKER \<equiv> ''reference''"

abbreviation HOST_OF_WORKER :: string where
  "HOST_OF_WORKER \<equiv> ''host''"

abbreviation SOURCE_OF_WORKER :: string where
  "SOURCE_OF_WORKER \<equiv> ''source''"

abbreviation PORT_OF_WORKER :: string where
  "PORT_OF_WORKER \<equiv> ''port''"

abbreviation TYPE_OF_WORKER :: string where
  "TYPE_OF_WORKER \<equiv> ''type''"

abbreviation CACHE_OF_WORKER_DEPRECATED :: string where
  "CACHE_OF_WORKER_DEPRECATED \<equiv> ''cachesize''"

abbreviation CACHE_OF_WORKER :: string where
  "CACHE_OF_WORKER \<equiv> ''connection_pool_size''"

abbreviation CACHE_OF_WORKER_MIN :: string where
  "CACHE_OF_WORKER_MIN \<equiv> ''connection_pool_minsize''"

abbreviation CACHE_TIMEOUT_DEPRECATED :: string where
  "CACHE_TIMEOUT_DEPRECATED \<equiv> ''cache_timeout''"

abbreviation CACHE_TIMEOUT_OF_WORKER :: string where
  "CACHE_TIMEOUT_OF_WORKER \<equiv> ''connection_pool_timeout''"

abbreviation CACHE_ACQUIRE_OF_WORKER :: string where
  "CACHE_ACQUIRE_OF_WORKER \<equiv> ''connection_acquire_timeout''"

abbreviation RECOVERY_OPTS_OF_WORKER :: string where
  "RECOVERY_OPTS_OF_WORKER \<equiv> ''recovery_options''"

abbreviation CONNECT_TIMEOUT_OF_WORKER :: string where
  "CONNECT_TIMEOUT_OF_WORKER \<equiv> ''connect_timeout''"

abbreviation PREPOST_TIMEOUT_OF_WORKER :: string where
  "PREPOST_TIMEOUT_OF_WORKER \<equiv> ''prepost_timeout''"

abbreviation REPLY_TIMEOUT_OF_WORKER :: string where
  "REPLY_TIMEOUT_OF_WORKER \<equiv> ''reply_timeout''"

abbreviation SOCKET_TIMEOUT_OF_WORKER :: string where
  "SOCKET_TIMEOUT_OF_WORKER \<equiv> ''socket_timeout''"

abbreviation SOCKET_CONNECT_TIMEOUT_OF_WORKER :: string where
  "SOCKET_CONNECT_TIMEOUT_OF_WORKER \<equiv> ''socket_connect_timeout''"

abbreviation PING_TIMEOUT_OF_WORKER :: string where
  "PING_TIMEOUT_OF_WORKER \<equiv> ''ping_timeout''"

abbreviation PING_MODE_OF_WORKER :: string where
  "PING_MODE_OF_WORKER \<equiv> ''ping_mode''"

abbreviation SOCKET_BUFFER_OF_WORKER :: string where
  "SOCKET_BUFFER_OF_WORKER \<equiv> ''socket_buffer''"

abbreviation SOCKET_KEEPALIVE_OF_WORKER :: string where
  "SOCKET_KEEPALIVE_OF_WORKER \<equiv> ''socket_keepalive''"

abbreviation CONN_PING_INTERVAL_OF_WORKER :: string where
  "CONN_PING_INTERVAL_OF_WORKER \<equiv> ''connection_ping_interval''"

abbreviation RECYCLE_TIMEOUT_DEPRECATED :: string where
  "RECYCLE_TIMEOUT_DEPRECATED \<equiv> ''recycle_timeout''"

abbreviation LOAD_FACTOR_OF_WORKER :: string where
  "LOAD_FACTOR_OF_WORKER \<equiv> ''lbfactor''"

abbreviation DISTANCE_OF_WORKER :: string where
  "DISTANCE_OF_WORKER \<equiv> ''distance''"

abbreviation BALANCED_WORKERS_DEPRECATED :: string where
  "BALANCED_WORKERS_DEPRECATED \<equiv> ''balanced_workers''"

abbreviation BALANCE_WORKERS :: string where
  "BALANCE_WORKERS \<equiv> ''balance_workers''"

abbreviation STICKY_SESSION :: string where
  "STICKY_SESSION \<equiv> ''sticky_session''"

abbreviation STICKY_SESSION_FORCE :: string where
  "STICKY_SESSION_FORCE \<equiv> ''sticky_session_force''"

abbreviation SESSION_COOKIE_OF_WORKER :: string where
  "SESSION_COOKIE_OF_WORKER \<equiv> ''session_cookie''"

abbreviation SESSION_PATH_OF_WORKER :: string where
  "SESSION_PATH_OF_WORKER \<equiv> ''session_path''"

abbreviation SET_SESSION_COOKIE :: string where
  "SET_SESSION_COOKIE \<equiv> ''set_session_cookie''"

abbreviation SESSION_COOKIE_PATH_OF_WORKER :: string where
  "SESSION_COOKIE_PATH_OF_WORKER \<equiv> ''session_cookie_path''"

abbreviation LOCAL_WORKER_DEPRECATED :: string where
  "LOCAL_WORKER_DEPRECATED \<equiv> ''local_worker''"

abbreviation LOCAL_WORKER_ONLY_DEPRECATED :: string where
  "LOCAL_WORKER_ONLY_DEPRECATED \<equiv> ''local_worker_only''"

abbreviation JVM_ROUTE_OF_WORKER_DEPRECATED :: string where
  "JVM_ROUTE_OF_WORKER_DEPRECATED \<equiv> ''jvm_route''"

abbreviation ROUTE_OF_WORKER :: string where
  "ROUTE_OF_WORKER \<equiv> ''route''"

abbreviation DOMAIN_OF_WORKER :: string where
  "DOMAIN_OF_WORKER \<equiv> ''domain''"

abbreviation REDIRECT_OF_WORKER :: string where
  "REDIRECT_OF_WORKER \<equiv> ''redirect''"

abbreviation MOUNT_OF_WORKER :: string where
  "MOUNT_OF_WORKER \<equiv> ''mount''"

abbreviation METHOD_OF_WORKER :: string where
  "METHOD_OF_WORKER \<equiv> ''method''"

abbreviation LOCK_OF_WORKER :: string where
  "LOCK_OF_WORKER \<equiv> ''lock''"

abbreviation IS_WORKER_DISABLED_DEPRECATED :: string where
  "IS_WORKER_DISABLED_DEPRECATED \<equiv> ''disabled''"

abbreviation IS_WORKER_STOPPED_DEPRECATED :: string where
  "IS_WORKER_STOPPED_DEPRECATED \<equiv> ''stopped''"

abbreviation ACTIVATION_OF_WORKER :: string where
  "ACTIVATION_OF_WORKER \<equiv> ''activation''"

abbreviation WORKER_RECOVER_TIME :: string where
  "WORKER_RECOVER_TIME \<equiv> ''recover_time''"

abbreviation WORKER_ERROR_ESCALATION_TIME :: string where
  "WORKER_ERROR_ESCALATION_TIME \<equiv> ''error_escalation_time''"

abbreviation MAX_REPLY_TIMEOUTS_OF_WORKER :: string where
  "MAX_REPLY_TIMEOUTS_OF_WORKER \<equiv> ''max_reply_timeouts''"

abbreviation RETRY_INTERVAL_OF_WORKER :: string where
  "RETRY_INTERVAL_OF_WORKER \<equiv> ''retry_interval''"

abbreviation BUSY_LIMIT_OF_WORKER :: string where
  "BUSY_LIMIT_OF_WORKER \<equiv> ''busy_limit''"

abbreviation WORKER_MAX_PACKET_SIZE :: string where
  "WORKER_MAX_PACKET_SIZE \<equiv> ''max_packet_size''"

abbreviation STYLE_SHEET_OF_WORKER :: string where
  "STYLE_SHEET_OF_WORKER \<equiv> ''css''"

abbreviation NAMESPACE_OF_WORKER :: string where
  "NAMESPACE_OF_WORKER \<equiv> ''ns''"

abbreviation XML_NAMESPACE_OF_WORKER :: string where
  "XML_NAMESPACE_OF_WORKER \<equiv> ''xmlns''"

abbreviation XML_DOCTYPE_OF_WORKER :: string where
  "XML_DOCTYPE_OF_WORKER \<equiv> ''doctype''"

abbreviation PROP_PREFIX_OF_WORKER :: string where
  "PROP_PREFIX_OF_WORKER \<equiv> ''prefix''"

abbreviation READ_ONLY_OF_WORKER :: string where
  "READ_ONLY_OF_WORKER \<equiv> ''read_only''"

abbreviation USER_OF_WORKER :: string where
  "USER_OF_WORKER \<equiv> ''user''"

abbreviation USER_CASE_OF_WORKER :: string where
  "USER_CASE_OF_WORKER \<equiv> ''user_case_insensitive''"

abbreviation GOOD_RATING_OF_WORKER :: string where
  "GOOD_RATING_OF_WORKER \<equiv> ''good''"

abbreviation BAD_RATING_OF_WORKER :: string where
  "BAD_RATING_OF_WORKER \<equiv> ''bad''"

abbreviation PREFER_IPV6_ADDRESS :: string where
  "PREFER_IPV6_ADDRESS \<equiv> ''prefer_ipv6''"

abbreviation SECRET_KEY_OF_WORKER :: string where
  "SECRET_KEY_OF_WORKER \<equiv> ''secretkey''"

abbreviation RETRIES_OF_WORKER :: string where
  "RETRIES_OF_WORKER \<equiv> ''retries''"

abbreviation LB_RETRIES_OF_WORKER :: string where
  "LB_RETRIES_OF_WORKER \<equiv> ''lb_retries''"

abbreviation STATUS_FAIL_OF_WORKER :: string where
  "STATUS_FAIL_OF_WORKER \<equiv> ''fail_on_status''"

abbreviation WORKER_LIST_PROPERTY_NAME :: string where
  "WORKER_LIST_PROPERTY_NAME \<equiv> ''worker.list''"

abbreviation LIST_PROPERTY_NAME :: string where
  "LIST_PROPERTY_NAME \<equiv> ''list''"

abbreviation WORKER_MAINTAIN_PROPERTY_NAME :: string where
  "WORKER_MAINTAIN_PROPERTY_NAME \<equiv> ''worker.maintain''"

abbreviation MAINTAIN_PROPERTY_NAME :: string where
  "MAINTAIN_PROPERTY_NAME \<equiv> ''maintain''"

section \<open>The tables\<close>

definition list_properties :: "string list" where
  "list_properties = [
    BALANCE_WORKERS, MOUNT_OF_WORKER, USER_OF_WORKER, GOOD_RATING_OF_WORKER, BAD_RATING_OF_WORKER,
    STATUS_FAIL_OF_WORKER, LIST_PROPERTY_NAME]"

definition unique_properties :: "string list" where
  "unique_properties = [
    SECRET_OF_WORKER, REFERENCE_OF_WORKER, HOST_OF_WORKER, SOURCE_OF_WORKER, PORT_OF_WORKER,
    TYPE_OF_WORKER, CACHE_OF_WORKER_DEPRECATED, CACHE_OF_WORKER, CACHE_OF_WORKER_MIN,
    CACHE_TIMEOUT_DEPRECATED, CACHE_TIMEOUT_OF_WORKER, CACHE_ACQUIRE_OF_WORKER,
    RECOVERY_OPTS_OF_WORKER, CONNECT_TIMEOUT_OF_WORKER, PREPOST_TIMEOUT_OF_WORKER,
    PING_TIMEOUT_OF_WORKER, PING_MODE_OF_WORKER, REPLY_TIMEOUT_OF_WORKER, SOCKET_TIMEOUT_OF_WORKER,
    SOCKET_CONNECT_TIMEOUT_OF_WORKER, SOCKET_BUFFER_OF_WORKER, SOCKET_KEEPALIVE_OF_WORKER,
    CONN_PING_INTERVAL_OF_WORKER, RECYCLE_TIMEOUT_DEPRECATED, LOAD_FACTOR_OF_WORKER,
    STICKY_SESSION, STICKY_SESSION_FORCE, SESSION_COOKIE_OF_WORKER, SESSION_PATH_OF_WORKER,
    SET_SESSION_COOKIE, SESSION_COOKIE_PATH_OF_WORKER, LOCAL_WORKER_DEPRECATED,
    LOCAL_WORKER_ONLY_DEPRECATED, JVM_ROUTE_OF_WORKER_DEPRECATED, ROUTE_OF_WORKER,
    DOMAIN_OF_WORKER, REDIRECT_OF_WORKER, METHOD_OF_WORKER, LOCK_OF_WORKER,
    IS_WORKER_DISABLED_DEPRECATED, IS_WORKER_STOPPED_DEPRECATED, ACTIVATION_OF_WORKER,
    WORKER_RECOVER_TIME, WORKER_ERROR_ESCALATION_TIME, MAX_REPLY_TIMEOUTS_OF_WORKER,
    RETRY_INTERVAL_OF_WORKER, BUSY_LIMIT_OF_WORKER, WORKER_MAX_PACKET_SIZE, STYLE_SHEET_OF_WORKER,
    READ_ONLY_OF_WORKER, RETRIES_OF_WORKER, LB_RETRIES_OF_WORKER, WORKER_MAINTAIN_PROPERTY_NAME,
    NAMESPACE_OF_WORKER, XML_NAMESPACE_OF_WORKER, XML_DOCTYPE_OF_WORKER, PROP_PREFIX_OF_WORKER,
    USER_CASE_OF_WORKER, PREFER_IPV6_ADDRESS]"

definition deprecated_properties :: "string list" where
  "deprecated_properties = [
    SYSPROPS_OF_WORKER, STDERR_OF_WORKER, STDOUT_OF_WORKER, MX_OF_WORKER, MS_OF_WORKER,
    CP_OF_WORKER, BRIDGE_OF_WORKER, JVM_OF_WORKER, LIBPATH_OF_WORKER, CMD_LINE_OF_WORKER,
    NATIVE_LIB_OF_WORKER, CACHE_OF_WORKER_DEPRECATED, CACHE_TIMEOUT_DEPRECATED,
    RECYCLE_TIMEOUT_DEPRECATED, BALANCED_WORKERS_DEPRECATED, JVM_ROUTE_OF_WORKER_DEPRECATED,
    LOCAL_WORKER_DEPRECATED, LOCAL_WORKER_ONLY_DEPRECATED, IS_WORKER_DISABLED_DEPRECATED,
    IS_WORKER_STOPPED_DEPRECATED]"

definition supported_properties :: "string list" where
  "supported_properties = [
    SYSPROPS_OF_WORKER, STDERR_OF_WORKER, STDOUT_OF_WORKER, SECRET_OF_WORKER, MX_OF_WORKER,
    MS_OF_WORKER, CP_OF_WORKER, BRIDGE_OF_WORKER, JVM_OF_WORKER, LIBPATH_OF_WORKER,
    CMD_LINE_OF_WORKER, NATIVE_LIB_OF_WORKER, REFERENCE_OF_WORKER, HOST_OF_WORKER,
    SOURCE_OF_WORKER, PORT_OF_WORKER, TYPE_OF_WORKER, CACHE_OF_WORKER_DEPRECATED, CACHE_OF_WORKER,
    CACHE_OF_WORKER_MIN, CACHE_TIMEOUT_DEPRECATED, CACHE_TIMEOUT_OF_WORKER,
    CACHE_ACQUIRE_OF_WORKER, RECOVERY_OPTS_OF_WORKER, CONNECT_TIMEOUT_OF_WORKER,
    PREPOST_TIMEOUT_OF_WORKER, PING_TIMEOUT_OF_WORKER, PING_MODE_OF_WORKER,
    REPLY_TIMEOUT_OF_WORKER, SOCKET_TIMEOUT_OF_WORKER, SOCKET_CONNECT_TIMEOUT_OF_WORKER,
    SOCKET_BUFFER_OF_WORKER, SOCKET_KEEPALIVE_OF_WORKER, CONN_PING_INTERVAL_OF_WORKER,
    RECYCLE_TIMEOUT_DEPRECATED, LOAD_FACTOR_OF_WORKER, DISTANCE_OF_WORKER,
    BALANCED_WORKERS_DEPRECATED, BALANCE_WORKERS, STICKY_SESSION, STICKY_SESSION_FORCE,
    SESSION_COOKIE_OF_WORKER, SESSION_PATH_OF_WORKER, SET_SESSION_COOKIE,
    SESSION_COOKIE_PATH_OF_WORKER, LOCAL_WORKER_DEPRECATED, LOCAL_WORKER_ONLY_DEPRECATED,
    JVM_ROUTE_OF_WORKER_DEPRECATED, ROUTE_OF_WORKER, DOMAIN_OF_WORKER, REDIRECT_OF_WORKER,
    MOUNT_OF_WORKER, METHOD_OF_WORKER, LOCK_OF_WORKER, IS_WORKER_DISABLED_DEPRECATED,
    IS_WORKER_STOPPED_DEPRECATED, ACTIVATION_OF_WORKER, WORKER_RECOVER_TIME,
    WORKER_ERROR_ESCALATION_TIME, MAX_REPLY_TIMEOUTS_OF_WORKER, RETRY_INTERVAL_OF_WORKER,
    BUSY_LIMIT_OF_WORKER, WORKER_MAX_PACKET_SIZE, STYLE_SHEET_OF_WORKER, NAMESPACE_OF_WORKER,
    XML_NAMESPACE_OF_WORKER, XML_DOCTYPE_OF_WORKER, PROP_PREFIX_OF_WORKER, READ_ONLY_OF_WORKER,
    USER_OF_WORKER, USER_CASE_OF_WORKER, GOOD_RATING_OF_WORKER, BAD_RATING_OF_WORKER,
    SECRET_KEY_OF_WORKER, RETRIES_OF_WORKER, LB_RETRIES_OF_WORKER, STATUS_FAIL_OF_WORKER,
    LIST_PROPERTY_NAME, MAINTAIN_PROPERTY_NAME, PREFER_IPV6_ADDRESS]"

section \<open>The predicates\<close>

text \<open>\<open>strncmp\<close> against the last bytes of the name.\<close>

definition jk_is_some_property :: "string option \<Rightarrow> string \<Rightarrow> string \<Rightarrow> bool" where
  "jk_is_some_property prp_name suffix sep =
     (case prp_name of
        None \<Rightarrow> False
      | Some n \<Rightarrow>
          let sep_off = length sep + length suffix in
          if length n \<ge> sep_off then
            starts_with (drop (length n - sep_off) n) sep \<and> starts_with (drop (length n - length suffix) n) suffix
          else False)"

definition jk_is_path_property :: "string option \<Rightarrow> bool" where
  "jk_is_path_property prp_name = jk_is_some_property prp_name ''path'' ''_''"

definition jk_is_cmd_line_property :: "string option \<Rightarrow> bool" where
  "jk_is_cmd_line_property prp_name = jk_is_some_property prp_name CMD_LINE_OF_WORKER ''.''"

definition jk_is_list_property :: "string option \<Rightarrow> bool" where
  "jk_is_list_property prp_name = list_ex (\<lambda>p. jk_is_some_property prp_name p ''.'') list_properties"

definition jk_is_unique_property :: "string option \<Rightarrow> bool" where
  "jk_is_unique_property prp_name = list_ex (\<lambda>p. jk_is_some_property prp_name p ''.'') unique_properties"

definition jk_is_deprecated_property :: "string option \<Rightarrow> bool" where
  "jk_is_deprecated_property prp_name = list_ex (\<lambda>p. jk_is_some_property prp_name p ''.'') deprecated_properties"

definition JK_MAX_ATTRIBUTE_NAME_LEN :: int where
  "JK_MAX_ATTRIBUTE_NAME_LEN = 30"

definition jk_check_buffer_size :: int where
  "jk_check_buffer_size = JK_MAX_ATTRIBUTE_NAME_LEN - int (fold (\<lambda>p n. max (length p) n) supported_properties 0)"

definition jk_is_valid_property :: "string \<Rightarrow> bool" where
  "jk_is_valid_property prp_name =
     (if \<not> starts_with prp_name ''worker.'' then True
      else list_ex (\<lambda>p. jk_is_some_property (Some prp_name) p ''.'') supported_properties)"

section \<open>What the predicates decide\<close>

lemma starts_with_drop_suffix:
  assumes "length s \<le> length n"
  shows "starts_with (drop (length n - length s) n) s \<longleftrightarrow> (\<exists>p. n = p @ s)"
proof
  assume "starts_with (drop (length n - length s) n) s"
  then have "drop (length n - length s) n = s" using assms by (simp add: starts_with_iff)
  then show "\<exists>p. n = p @ s" by (metis append_take_drop_id)
qed (auto simp: starts_with_iff)

text \<open>A property has an attribute when its name ends in the separator and the attribute.\<close>

lemma jk_is_some_property_iff:
  "jk_is_some_property (Some n) suffix sep \<longleftrightarrow> (\<exists>p. n = p @ sep @ suffix)"
proof (cases "length sep + length suffix \<le> length n")
  case True
  have "starts_with (drop (length n - (length sep + length suffix)) n) sep \<and>
      starts_with (drop (length n - length suffix) n) suffix \<longleftrightarrow> (\<exists>p. n = p @ sep @ suffix)"
  proof
    assume a: "starts_with (drop (length n - (length sep + length suffix)) n) sep \<and>
      starts_with (drop (length n - length suffix) n) suffix"
    then obtain q where q: "n = q @ suffix" using starts_with_drop_suffix [of suffix n] True by auto
    then have "starts_with (drop (length q - length sep) q @ suffix) sep" using a True by simp
    then have "starts_with (drop (length q - length sep) q) sep" using True q by (simp add: starts_with_iff)
    then show "\<exists>p. n = p @ sep @ suffix" using starts_with_drop_suffix [of sep q] True q by auto
  qed (auto simp: starts_with_iff)
  then show ?thesis using True by (simp add: jk_is_some_property_def Let_def)
next
  case False
  then show ?thesis by (auto simp: jk_is_some_property_def Let_def)
qed

text \<open>Every attribute name fits the room that \<open>MAKE_WORKER_PARAM\<close> reserves for it.\<close>

lemma supported_lengths: "list_all (\<lambda>p. length p \<le> 30) supported_properties"
  unfolding supported_properties_def by simp

lemma fold_max: "(fold (\<lambda>p n. max (length p) n) ps k :: nat) \<le> b \<longleftrightarrow> k \<le> b \<and> list_all (\<lambda>p. length p \<le> b) ps"
  by (induction ps arbitrary: k) auto

lemma check_buffer_size_nonneg: "jk_check_buffer_size \<ge> 0"
  using supported_lengths fold_max [of supported_properties 0 30]
  by (simp add: jk_check_buffer_size_def JK_MAX_ATTRIBUTE_NAME_LEN_def)

end
