(* ===== verification/Jk_Map_File.thy ===== *)
theory Jk_Map_File
  imports Jk_Map Jk_Props
begin

text \<open>
  Reading property files into a map and resolving references between properties (\<open>jk_map.c\<close>).

  A line is processed as the string it holds; \<open>trim\<close> follows the two index loops of the code. The
  process environment is the parameter \<open>getenv\<close>, the file is its contents with a modification
  time. The two loops that run up to \<open>m->size\<close> while they add entries need not end: their outer
  result is \<open>None\<close> when they do not, \<open>Some None\<close> when they have undefined behaviour.
\<close>

section \<open>Lines\<close>

definition trim_prp_comment :: "string \<Rightarrow> string" where
  "trim_prp_comment prp = takeWhile (\<lambda>c. c \<noteq> CHR ''#'') prp"

fun trim_end :: "string \<Rightarrow> nat \<Rightarrow> nat" where
  "trim_end s 0 = 0"
| "trim_end s (Suc len) = (if jk_isspace (s ! Suc len) then trim_end s len else Suc len)"

text \<open>The returned length counts the terminator and not the leading spaces removed.\<close>

definition trim :: "string \<Rightarrow> nat \<times> string" where
  "trim s =
     (if s = [] then (0, s)
      else
        let len = trim_end s (length s - 1);
            len = (if len > 0 \<or> \<not> jk_isspace (s ! len) then len + 1 else len);
            t = take len s
        in (len + 1, dropWhile jk_isspace t))"

section \<open>Expansion of variables\<close>

function replace_loop :: "string jk_map \<Rightarrow> heap \<Rightarrow> string jk_map option \<Rightarrow> (string \<Rightarrow> string option) \<Rightarrow> string
     \<Rightarrow> nat \<Rightarrow> nat \<Rightarrow> (string \<times> string jk_map \<times> heap) ub" where
  "replace_loop m h env getenv rc env_start rec =
     (case c_strstr (drop env_start rc) ''$('' of
        None \<Rightarrow> Some (rc, m, h)
      | Some k \<Rightarrow>
          let start = env_start + k in
          if rec > 20 then Some (rc, m, h)
          else
            (case c_strstr (drop start rc) '')'' of
               None \<Rightarrow> Some (rc, m, h)
             | Some e \<Rightarrow>
                 let env_name = take (e - 2) (drop (start + 2) rc) in
                 do {
                   guard (length env_name \<le> LENGTH_OF_LINE);
                   v1 \<leftarrow> jk_map_get_string m (Some env_name) None;
                   let v2 = (if v1 = None then getenv env_name else v1) in
                   do {
                     v3 \<leftarrow> (if v2 = None
                            then (case env of None \<Rightarrow> Some None
                                  | Some em \<Rightarrow> jk_map_get_string em (Some env_name) None)
                            else Some v2);
                     (case v3 of
                        None \<Rightarrow> replace_loop m h env getenv rc (start + e) (rec + 1)
                      | Some env_value \<Rightarrow>
                          do {
                            (new_value, m1, h1) \<leftarrow>
                              in_pool (\<lambda>q. jk_pool_alloc q (of_nat (length rc + length env_value))) m h;
                            if new_value = None then Some (rc, m1, h1)
                            else
                              let rc' = take start rc @ env_value @ drop (start + e + 1) rc in
                              do {
                                guard (length rc' + 1 \<le> length rc + length env_value);
                                replace_loop m1 h1 env getenv rc' (start + length env_value) (rec + 1)
                              }
                          })
                   }
                 }))"
  by pat_completeness auto
termination
  by (relation "measure (\<lambda>(m, h, env, g, rc, s, rec). 22 - rec)") auto

declare replace_loop.simps [simp del]

definition jk_map_replace_properties :: "string jk_map \<Rightarrow> heap \<Rightarrow> string jk_map option \<Rightarrow> (string \<Rightarrow> string option)
     \<Rightarrow> string \<Rightarrow> (string \<times> string jk_map \<times> heap) ub" where
  "jk_map_replace_properties m h env getenv value = replace_loop m h env getenv value 0 0"

section \<open>Reading properties\<close>

definition JK_MAP_HANDLE_NORMAL :: int where
  "JK_MAP_HANDLE_NORMAL = 0"

definition JK_MAP_HANDLE_DUPLICATES :: int where
  "JK_MAP_HANDLE_DUPLICATES = 1"

definition JK_MAP_HANDLE_RAW :: int where
  "JK_MAP_HANDLE_RAW = 2"

definition PATH_SEPERATOR :: char where
  "PATH_SEPERATOR = CHR '':''"

definition jk_map_validate_property :: "string \<Rightarrow> bool" where
  "jk_map_validate_property prp = (if \<not> jk_is_valid_property prp then False else True)"

text \<open>The result: the returned flag, the new value of \<open>*v\<close> and the memory.\<close>

definition jk_map_handle_duplicates :: "string jk_map \<Rightarrow> heap \<Rightarrow> string \<Rightarrow> string \<Rightarrow> int
     \<Rightarrow> (bool \<times> string option \<times> string jk_map \<times> heap) ub" where
  "jk_map_handle_duplicates m h prp v treatment =
     do {
       oldv \<leftarrow> jk_map_get_string m (Some prp) None;
       (case oldv of
          None \<Rightarrow> Some (True, Some v, m, h)
        | Some old \<Rightarrow>
            if treatment = JK_MAP_HANDLE_DUPLICATES \<and> \<not> jk_is_unique_property (Some prp) then
              do {
                (tmpv, m1, h1) \<leftarrow> in_pool (\<lambda>q. jk_pool_alloc q (of_nat (length v + length old + 3))) m h;
                let sep = (if jk_is_path_property (Some prp) then PATH_SEPERATOR
                           else if jk_is_cmd_line_property (Some prp) then CHR '' ''
                           else if jk_is_list_property (Some prp) then CHR '',''
                           else CHR ''*'')
                in Some (False, map_option (\<lambda>_. old @ [sep] @ v) tmpv, m1, h1)
              }
            else Some (True, Some v, m, h))
     }"

definition jk_map_read_property :: "string jk_map \<Rightarrow> heap \<Rightarrow> string jk_map option \<Rightarrow> (string \<Rightarrow> string option)
     \<Rightarrow> string \<Rightarrow> int \<Rightarrow> (bool \<times> string jk_map \<times> heap) ub" where
  "jk_map_read_property m h env getenv str treatment =
     (if length str > LENGTH_OF_LINE then Some (False, m, h)
      else
        let (n, line) = trim str in
        if n = 0 then Some (True, m, h)
        else
          (case c_strstr line ''='' of
             None \<Rightarrow> Some (True, m, h)
           | Some k \<Rightarrow>
               let (nv, v) = trim (drop (k + 1) line);
                   (np, prp) = trim (take k line)
               in
               if nv = 0 \<or> np = 0 then Some (True, m, h)
               else if treatment \<noteq> JK_MAP_HANDLE_RAW \<and> \<not> jk_map_validate_property prp then Some (False, m, h)
               else do {
                 (v', m1, h1) \<leftarrow>
                   (if treatment = JK_MAP_HANDLE_RAW then in_pool (\<lambda>q. jk_pool_strdup q (Some v)) m h
                    else do {
                      (rv, m1, h1) \<leftarrow> jk_map_replace_properties m h env getenv v;
                      (fresh, dv, m2, h2) \<leftarrow> jk_map_handle_duplicates m1 h1 prp rv treatment;
                      if fresh then in_pool (\<lambda>q. jk_pool_strdup q dv) m2 h2
                      else Some (dv, m2, h2)
                    });
                 (case v' of
                    None \<Rightarrow> Some (False, m1, h1)
                  | Some _ \<Rightarrow>
                      do { (_, _, m2, h2) \<leftarrow> jk_map_put m1 h1 (Some prp) v'; Some (True, m2, h2) })
               }))"

text \<open>\<open>fgets\<close>: up to \<open>n - 1\<close> bytes, stopping behind a line feed.\<close>

fun c_fgets :: "nat \<Rightarrow> string \<Rightarrow> string \<times> string" where
  "c_fgets 0 s = ([], s)"
| "c_fgets (Suc n) [] = ([], [])"
| "c_fgets (Suc n) (c # s) =
     (if n = 0 then ([], c # s)
      else if c = CHR 0x0A then ([c], s)
      else let (l, r) = c_fgets n s in (c # l, r))"

lemma c_fgets_shorter: "2 \<le> n \<Longrightarrow> s \<noteq> [] \<Longrightarrow> length (snd (c_fgets n s)) < length s"
proof -
  have le: "length (snd (c_fgets n s)) \<le> length s" for n s
  proof (induction n s rule: c_fgets.induct)
    case (3 n c s)
    then show ?case by (cases "c_fgets n s") (auto simp: le_SucI)
  qed auto
  assume "2 \<le> n" "s \<noteq> []"
  then obtain k c t where "n = Suc (Suc k)" "s = c # t" by (metis Suc_le_D list.exhaust numeral_2_eq_2 Suc_le_mono)
  then show ?thesis using le [of "Suc k" t] by (cases "c_fgets (Suc k) t") auto
qed

function read_lines :: "string jk_map \<Rightarrow> heap \<Rightarrow> string jk_map option \<Rightarrow> (string \<Rightarrow> string option) \<Rightarrow> string \<Rightarrow> int
     \<Rightarrow> (bool \<times> string jk_map \<times> heap) ub" where
  "read_lines m h env getenv contents treatment =
     (if contents = [] then Some (True, m, h)
      else
        let (line, rest) = c_fgets LENGTH_OF_LINE contents;
            prp = trim_prp_comment line
        in
        if prp = [] then read_lines m h env getenv rest treatment
        else do {
          (rc, m1, h1) \<leftarrow> jk_map_read_property m h env getenv prp treatment;
          if \<not> rc then Some (False, m1, h1) else read_lines m1 h1 env getenv rest treatment
        })"
  by pat_completeness auto
termination
proof (relation "measure (\<lambda>(m, h, env, g, contents, t). length contents)", goal_cases)
  case (2 m h env getenv contents treatment x line rest prp)
  then have "length (snd (c_fgets LENGTH_OF_LINE contents)) < length contents"
    by (intro c_fgets_shorter) (simp_all add: LENGTH_OF_LINE_def)
  moreover from 2 have "rest = snd (c_fgets LENGTH_OF_LINE contents)" by (metis snd_conv)
  ultimately show ?case by simp
next
  case (3 m h env getenv contents treatment x line rest prp r rc m1' m1 h1)
  then have "length (snd (c_fgets LENGTH_OF_LINE contents)) < length contents"
    by (intro c_fgets_shorter) (simp_all add: LENGTH_OF_LINE_def)
  moreover from 3 have "rest = snd (c_fgets LENGTH_OF_LINE contents)" by (metis snd_conv)
  ultimately show ?case by simp
qed simp

declare read_lines.simps [simp del]

definition jk_map_read_properties :: "string jk_map \<Rightarrow> heap \<Rightarrow> string jk_map option \<Rightarrow> (string \<Rightarrow> string option)
     \<Rightarrow> (string \<times> int) option \<Rightarrow> int \<Rightarrow> (bool \<times> int option \<times> string jk_map \<times> heap) ub" where
  "jk_map_read_properties m h env getenv f treatment =
     (case f of
        None \<Rightarrow> Some (False, None, m, h)
      | Some (contents, mtime) \<Rightarrow>
          do { (rc, m', h') \<leftarrow> read_lines m h env getenv contents treatment; Some (rc, Some mtime, m', h') })"

section \<open>References\<close>

partial_function (option) inherit_loop :: "'v jk_map \<Rightarrow> heap \<Rightarrow> string \<Rightarrow> string \<Rightarrow> nat \<Rightarrow> bool
     \<Rightarrow> ((bool \<times> 'v jk_map \<times> heap) ub) option" where
  "inherit_loop m h from to i rc =
     (if i < m_size m then
        (case arr (m_names m) i of
           None \<Rightarrow> Some None
         | Some None \<Rightarrow> Some None
         | Some (Some n) \<Rightarrow>
             if starts_with n from then
               (case in_pool (\<lambda>q. jk_pool_alloc q (of_nat (length to + length (drop (length from) n) + 1))) m h of
                  None \<Rightarrow> Some None
                | Some (None, m1, h1) \<Rightarrow> Some (Some (False, m1, h1))
                | Some (Some _, m1, h1) \<Rightarrow>
                    (case jk_map_get_id m1 (Some (to @ drop (length from) n)) of
                       None \<Rightarrow> Some None
                     | Some ident \<Rightarrow>
                         if ident < 0 then
                           (case arr (m_values m1) i of
                              None \<Rightarrow> Some None
                            | Some v \<Rightarrow>
                                (case jk_map_add m1 h1 (Some (to @ drop (length from) n)) v of
                                   None \<Rightarrow> Some None
                                 | Some (ok, m2, h2) \<Rightarrow>
                                     if \<not> ok then Some (Some (False, m2, h2))
                                     else inherit_loop m2 h2 from to (i + 1) ok))
                         else inherit_loop m1 h1 from to (i + 1) True))
             else inherit_loop m h from to (i + 1) rc)
      else Some (Some (rc, m, h)))"

definition jk_map_inherit_properties :: "'v jk_map \<Rightarrow> heap \<Rightarrow> string \<Rightarrow> string
     \<Rightarrow> ((bool \<times> 'v jk_map \<times> heap) ub) option" where
  "jk_map_inherit_properties m h from to = inherit_loop m h from to 0 False"

text \<open>Whether the entry \<open>name = v\<close> is a reference to follow.\<close>

definition is_reference :: "string \<Rightarrow> string option \<Rightarrow> string \<Rightarrow> bool \<Rightarrow> bool" where
  "is_reference name v prefix wildcard =
     (v \<noteq> None \<and> v \<noteq> Some [] \<and> starts_with name prefix \<and>
      (let remain = length name - length prefix; sz = length JK_MAP_REFERENCE in
       (remain = sz \<or> (wildcard \<and> remain > sz)) \<and>
       starts_with (drop (length name - sz) name) JK_MAP_REFERENCE))"

text \<open>The loop of \<open>jk_map_resolve_references\<close>; a recursive call runs the same loop one level deeper.\<close>

partial_function (option) resolve_loop :: "string jk_map \<Rightarrow> heap \<Rightarrow> string \<Rightarrow> bool \<Rightarrow> nat \<Rightarrow> nat \<Rightarrow> bool
     \<Rightarrow> ((bool \<times> string jk_map \<times> heap) ub) option" where
  "resolve_loop m h prefix wildcard depth i rc =
     (if i < m_size m then
        (case do { v \<leftarrow> arr (m_values m) i; n \<leftarrow> arr (m_names m) i; Some (v, n) } of
           None \<Rightarrow> Some None
         | Some (v, n) \<Rightarrow>
             if v = None \<or> v = Some [] then resolve_loop m h prefix wildcard depth (i + 1) rc
             else if n = None then Some None
             else if is_reference (the n) v prefix wildcard then
               let remain = length (the n) - length JK_MAP_REFERENCE in
               (case do { (from, m1, h1) \<leftarrow> in_pool (\<lambda>q. jk_pool_alloc q (of_nat (length (the v) + 2))) m h;
                          (to, m2, h2) \<leftarrow> in_pool (\<lambda>q. jk_pool_alloc q (of_nat (remain + 2))) m1 h1;
                          Some (from \<noteq> None \<and> to \<noteq> None, m2, h2) } of
                  None \<Rightarrow> Some None
                | Some (ok, m2, h2) \<Rightarrow>
                    if \<not> ok then Some (Some (False, m2, h2))
                    else do {
                      r \<leftarrow> (if depth + 1 \<le> JK_MAP_RECURSION then resolve_loop m2 h2 (the v) False (depth + 1) 0 True
                            else Some (Some (False, m2, h2)));
                      (case r of
                         None \<Rightarrow> Some None
                       | Some (rc1, m3, h3) \<Rightarrow>
                           if \<not> rc1 then Some (Some (False, m3, h3))
                           else do {
                             r2 \<leftarrow> jk_map_inherit_properties m3 h3 (the v @ ''.'') (take remain (the n) @ ''.'');
                             (case r2 of
                                None \<Rightarrow> Some None
                              | Some (rc2, m4, h4) \<Rightarrow>
                                  if \<not> rc2 then Some (Some (False, m4, h4))
                                  else resolve_loop m4 h4 prefix wildcard depth (i + 1) rc2)
                           })
                    })
             else resolve_loop m h prefix wildcard depth (i + 1) rc)
      else Some (Some (rc, m, h)))"

definition jk_map_resolve_references :: "string jk_map \<Rightarrow> heap \<Rightarrow> string \<Rightarrow> bool \<Rightarrow> nat
     \<Rightarrow> ((bool \<times> string jk_map \<times> heap) ub) option" where
  "jk_map_resolve_references m h prefix wildcard depth =
     (if depth \<le> JK_MAP_RECURSION then resolve_loop m h prefix wildcard depth 0 True
      else Some (Some (False, m, h)))"

section \<open>Lines of a property file\<close>

definition tight :: "string \<Rightarrow> bool" where
  "tight s \<longleftrightarrow> s \<noteq> [] \<and> \<not> jk_isspace (hd s) \<and> \<not> jk_isspace (last s)"

lemma trim_end_stop: "\<not> jk_isspace (s ! k) \<Longrightarrow> trim_end s k = k"
  by (cases k) auto

lemma trim_tight:
  assumes "tight s"
  shows "trim s = (length s + 1, s)"
proof -
  have l: "s ! (length s - 1) = last s" "s \<noteq> []" using assms by (simp_all add: tight_def last_conv_nth)
  then have "trim_end s (length s - 1) = length s - 1" using assms by (intro trim_end_stop) (simp add: tight_def)
  moreover have "dropWhile jk_isspace s = s" using assms by (cases s) (simp_all add: tight_def)
  ultimately show ?thesis using assms l by (simp add: trim_def Let_def tight_def)
qed

lemma trim_newline:
  assumes "tight s"
  shows "trim (s @ [CHR 0x0A]) = (length s + 1, s)"
proof -
  let ?t = "s @ [CHR 0x0A]"
  have sp: "jk_isspace (CHR 0x0A)" by (simp add: jk_isspace_def code_def)
  obtain k where k: "length s = Suc k" using assms by (cases s) (simp_all add: tight_def)
  have "s \<noteq> []" using k by auto
  then have last: "?t ! k = last s" using k by (simp add: nth_append last_conv_nth)
  then have "trim_end ?t k = k" using assms by (intro trim_end_stop) (simp add: tight_def)
  then have "trim_end ?t (length ?t - 1) = k" using k sp by (simp add: nth_append)
  moreover have "dropWhile jk_isspace s = s" using assms by (cases s) (simp_all add: tight_def)
  ultimately show ?thesis using k last assms by (simp add: trim_def Let_def tight_def)
qed

lemma c_strstr_char: "c \<notin> set n \<Longrightarrow> c_strstr (n @ [c] @ v) [c] = Some (length n)"
  by (induction n) auto

lemma c_fgets_line:
  "CHR 0x0A \<notin> set l \<Longrightarrow> length l + 2 \<le> n \<Longrightarrow> c_fgets n (l @ [CHR 0x0A] @ rest) = (l @ [CHR 0x0A], rest)"
proof (induction l arbitrary: n)
  case Nil
  then show ?case by (cases n; cases "n - 1") auto
next
  case (Cons c l)
  then obtain k where "n = Suc k" "k \<noteq> 0" by (cases n) auto
  with Cons show ?case by auto
qed

text \<open>An entry whose line is read as it was written.\<close>

definition plain_entry :: "int \<Rightarrow> string \<times> string \<Rightarrow> bool" where
  "plain_entry treatment kv \<longleftrightarrow>
     (case kv of (n, v) \<Rightarrow>
        tight n \<and> tight v \<and> CHR ''='' \<notin> set n \<and> length n + length v + 3 \<le> LENGTH_OF_LINE
        \<and> CHR 0x0A \<notin> set (n @ v) \<and> CHR ''#'' \<notin> set (n @ v)
        \<and> (treatment = JK_MAP_HANDLE_RAW
           \<or> treatment = JK_MAP_HANDLE_NORMAL \<and> jk_is_valid_property n \<and> c_strstr v ''$('' = None))"

definition print_entry :: "string \<times> string \<Rightarrow> string" where
  "print_entry kv = fst kv @ ''='' @ snd kv @ [CHR 0x0A]"

definition ENTRY_COST :: nat where
  "ENTRY_COST = LENGTH_OF_LINE + 122"

lemma credit_in_pool_strdup:
  assumes "pool_credit (c + length t + 25) (m_p m, h)"
  shows "\<exists>p' h'. in_pool (\<lambda>q. jk_pool_strdup q (Some t)) m h = Some (Some t, m\<lparr>m_p := p'\<rparr>, h') \<and> pool_credit c (p', h')"
  using strdup_credit [OF assms] by (auto simp: in_pool_def)

lemma read_property_entry:
  assumes pe: "plain_entry treatment (n, v)" and room: "map_room ENTRY_COST (Suc k) (m, h)"
  shows "\<exists>m' h'. jk_map_read_property m h env getenv (print_entry (n, v)) treatment = Some (True, m', h')
     \<and> map_room ENTRY_COST k (m', h') \<and> map_of (entries m') = (map_of (entries m))(n \<mapsto> Some v)"
proof -
  have t: "tight n" "tight v" "CHR ''='' \<notin> set n" "length n + length v + 3 \<le> LENGTH_OF_LINE"
    using pe by (simp_all add: plain_entry_def)
  have "tight (n @ ''='' @ v)" using t(1,2) by (simp add: tight_def)
  from trim_newline [OF this] have tr: "trim (print_entry (n, v)) = (length n + length v + 2, n @ ''='' @ v)"
    by (simp add: print_entry_def)
  have eq: "c_strstr (n @ ''='' @ v) ''='' = Some (length n)" using c_strstr_char [OF t(3), of v] by simp
  have le: "(length v + 25) + length n + 97 \<le> ENTRY_COST" using t(4) by (simp add: ENTRY_COST_def)
  note r = map_roomD [OF room le]
  obtain p' h' where d: "in_pool (\<lambda>q. jk_pool_strdup q (Some v)) m h = Some (Some v, m\<lparr>m_p := p'\<rparr>, h')"
      "pool_credit (k * (24 * (m_size m + Suc k + 100) + ENTRY_COST) + grow_cost m + length n + 25) (p', h')"
    using credit_in_pool_strdup [OF r(4) [folded add.assoc]] by blast
  let ?m = "m\<lparr>m_p := p'\<rparr>"
  have gc: "grow_cost ?m = grow_cost m" by (simp add: grow_cost_def)
  obtain old m' h'' where p: "jk_map_put ?m h' (Some n) (Some v) = Some (True, old, m', h'')" "map_room ENTRY_COST k (m', h'')"
      "map_of (entries m') = (map_of (entries ?m))(n \<mapsto> Some v)"
    using room_put [of ?m k ENTRY_COST n h' "Some v"] r(1-3) d(2) gc by auto
  have nz: "length (print_entry (n, v)) \<le> LENGTH_OF_LINE" using t(4) by (simp add: print_entry_def)
  note step = tr eq trim_tight [OF t(1)] trim_tight [OF t(2)] d(1) p(1) nz
  show ?thesis
  proof (cases "treatment = JK_MAP_HANDLE_RAW")
    case True
    then show ?thesis using step p(2,3) by (simp add: jk_map_read_property_def Let_def)
  next
    case False
    then have n: "treatment = JK_MAP_HANDLE_NORMAL" "jk_is_valid_property n" "c_strstr v ''$('' = None"
      using pe by (simp_all add: plain_entry_def)
    have "jk_map_replace_properties m h env getenv v = Some (v, m, h)"
      using n(3) by (simp add: jk_map_replace_properties_def replace_loop.simps)
    moreover have "jk_map_handle_duplicates m h n v treatment = Some (True, Some v, m, h)"
      using n(1) r(1) by (simp add: jk_map_handle_duplicates_def jk_map_get_string_is_get jk_map_get_spec
          JK_MAP_HANDLE_NORMAL_def JK_MAP_HANDLE_DUPLICATES_def split: option.splits)
    ultimately show ?thesis using step p(2,3) n(2) False
      by (simp add: jk_map_read_property_def Let_def jk_map_validate_property_def)
  qed
qed

lemma comment_free_line: "CHR ''#'' \<notin> set l \<Longrightarrow> trim_prp_comment (l @ [CHR 0x0A]) = l @ [CHR 0x0A]"
  unfolding trim_prp_comment_def by (subst takeWhile_eq_all_conv) auto

lemma read_lines_entries:
  "list_all (plain_entry treatment) kvs \<Longrightarrow> map_room ENTRY_COST (length kvs + k) (m, h) \<Longrightarrow>
   \<exists>m' h'. read_lines m h env getenv (concat (map print_entry kvs)) treatment = Some (True, m', h')
     \<and> map_room ENTRY_COST k (m', h')
     \<and> map_of (entries m') = map_of (entries m) ++ map_of (rev (map (apsnd Some) kvs))"
proof (induction kvs arbitrary: m h)
  case Nil
  then show ?case by (simp add: read_lines.simps)
next
  case (Cons kv kvs)
  obtain n v where kv: "kv = (n, v)" by (cases kv)
  have pe: "plain_entry treatment (n, v)" using Cons.prems(1) kv by simp
  let ?l = "n @ ''='' @ v"
  have l: "print_entry (n, v) = ?l @ [CHR 0x0A]" by (simp add: print_entry_def)
  have c: "CHR 0x0A \<notin> set ?l" "CHR ''#'' \<notin> set ?l" "length ?l + 2 \<le> LENGTH_OF_LINE"
    using pe by (auto simp: plain_entry_def)
  from read_property_entry [OF pe, of "length kvs + k" m h env getenv] Cons.prems(2) obtain m1 h1 where
    s: "jk_map_read_property m h env getenv (print_entry (n, v)) treatment = Some (True, m1, h1)"
      "map_room ENTRY_COST (length kvs + k) (m1, h1)" "map_of (entries m1) = (map_of (entries m))(n \<mapsto> Some v)" by auto
  from Cons.IH [OF _ s(2)] Cons.prems(1) obtain m' h' where
    i: "read_lines m1 h1 env getenv (concat (map print_entry kvs)) treatment = Some (True, m', h')"
      "map_room ENTRY_COST k (m', h')" "map_of (entries m') = map_of (entries m1) ++ map_of (rev (map (apsnd Some) kvs))" by auto
  have "read_lines m h env getenv (concat (map print_entry (kv # kvs))) treatment = Some (True, m', h')"
    using s(1) i(1) c_fgets_line [OF c(1,3)] comment_free_line [OF c(2)] l kv
    by (subst read_lines.simps) (simp add: Let_def)
  moreover have "map_of (entries m') = map_of (entries m) ++ map_of (rev (map (apsnd Some) (kv # kvs)))"
    using i(3) s(3) kv by simp
  ultimately show ?case using i(2) by blast
qed



end
