(* ===== verification/Jk_Connect.thy ===== *)
theory Jk_Connect
  imports Jk_Prelude
begin

text \<open>
  Complete transfers over a TCP connection (\<open>jk_connect.c\<close>).

  A connection is what the kernel will answer: the chunks, errors and the end of file that \<open>read\<close>
  meets, the results of \<open>write\<close> (then every call takes all of its data) and the bytes written so
  far, and the answers to \<open>poll\<close>, \<open>shutdown\<close>, the switch to non-blocking mode and the clock.
  Closing a descriptor is an event; a \<open>close\<close> that was interrupted and is repeated is the same event.
  The theorems: \<open>jk_tcp_socket_recvfull\<close> delivers exactly the next bytes of the stream, however
  they arrive, or closes the descriptor, and \<open>jk_tcp_socket_sendfull\<close> writes all of its bytes in order.
\<close>

section \<open>Connections\<close>

datatype rx_event = Rx u8 "u8 list" | Rx_eof | Rx_err int

record conn =
  c_rx :: "rx_event list"
  c_tx :: "int list"
  c_ready :: "bool list"
  c_written :: "u8 list"
  c_shut_ok :: bool
  c_nonblock_ok :: bool
  c_time_left :: "bool list"
  c_fin :: bool

text \<open>The descriptors of the process: their connections and those closed, in order.\<close>

record world =
  w_conn :: "int \<Rightarrow> conn"
  w_closed :: "int list"

definition IS_VALID_SOCKET :: "int \<Rightarrow> bool" where
  "IS_VALID_SOCKET s \<longleftrightarrow> s > 0"

definition JK_INVALID_SOCKET :: int where
  "JK_INVALID_SOCKET = - 1"

definition JK_SOCKET_EOF :: int where
  "JK_SOCKET_EOF = - 2"

definition EINTR :: int where
  "EINTR = 4"

definition EAGAIN :: int where
  "EAGAIN = 11"

definition upd_conn :: "world \<Rightarrow> int \<Rightarrow> (conn \<Rightarrow> conn) \<Rightarrow> world" where
  "upd_conn w sd f = w\<lparr>w_conn := (w_conn w)(sd := f (w_conn w sd))\<rparr>"

definition jk_close_socket :: "world \<Rightarrow> int \<Rightarrow> world" where
  "jk_close_socket w sd = (if IS_VALID_SOCKET sd then w\<lparr>w_closed := w_closed w @ [sd]\<rparr> else w)"

text \<open>\<open>read\<close> with a positive count: an error number, or the bytes stored, none at the end of file.\<close>

definition c_read :: "world \<Rightarrow> int \<Rightarrow> nat \<Rightarrow> (int + u8 list) \<times> world" where
  "c_read w sd n =
     (case c_rx (w_conn w sd) of
        [] \<Rightarrow> (Inr [], w)
      | Rx_eof # es \<Rightarrow> (Inr [], w)
      | Rx_err e # es \<Rightarrow> (Inl e, upd_conn w sd (\<lambda>c. c\<lparr>c_rx := es\<rparr>))
      | Rx b bs # es \<Rightarrow>
          (Inr (take n (b # bs)),
           upd_conn w sd (\<lambda>c. c\<lparr>c_rx := (case drop n (b # bs) of [] \<Rightarrow> es | d # ds \<Rightarrow> Rx d ds # es)\<rparr>)))"

text \<open>\<open>write\<close>: a negative result is an error number, negated.\<close>

definition c_write :: "world \<Rightarrow> int \<Rightarrow> u8 list \<Rightarrow> (int + nat) \<times> world" where
  "c_write w sd bs =
     (case c_tx (w_conn w sd) of
        [] \<Rightarrow> (Inr (length bs), upd_conn w sd (\<lambda>c. c\<lparr>c_written := c_written c @ bs\<rparr>))
      | r # rs \<Rightarrow>
          if r < 0 then (Inl (- r), upd_conn w sd (\<lambda>c. c\<lparr>c_tx := rs\<rparr>))
          else let k = min (nat r) (length bs)
               in (Inr k, upd_conn w sd (\<lambda>c. c\<lparr>c_tx := rs, c_written := c_written c @ take k bs\<rparr>)))"

definition c_poll :: "world \<Rightarrow> int \<Rightarrow> bool \<times> world" where
  "c_poll w sd =
     (case c_ready (w_conn w sd) of
        [] \<Rightarrow> (True, w)
      | r # rs \<Rightarrow> (r, upd_conn w sd (\<lambda>c. c\<lparr>c_ready := rs\<rparr>)))"

section \<open>Closing with a drain\<close>

definition MS_TO_LINGER :: int where
  "MS_TO_LINGER = 100"

definition MS_TO_LINGER_LAST :: int where
  "MS_TO_LINGER_LAST = 20"

definition MAX_READ_RETRY :: nat where
  "MAX_READ_RETRY = 10"

definition MAX_LINGER_BYTES :: nat where
  "MAX_LINGER_BYTES = 32768"

definition DUMMY_SIZE :: nat where
  "DUMMY_SIZE = 512"

text \<open>\<open>shutdown(sd, SHUT_WR)\<close>, and whether the clock still allows another round.\<close>

definition c_shutdown_wr :: "world \<Rightarrow> int \<Rightarrow> bool \<times> world" where
  "c_shutdown_wr w sd = (if c_shut_ok (w_conn w sd) then (True, upd_conn w sd (\<lambda>c. c\<lparr>c_fin := True\<rparr>)) else (False, w))"

definition c_clock :: "world \<Rightarrow> int \<Rightarrow> bool \<times> world" where
  "c_clock w sd =
     (case c_time_left (w_conn w sd) of
        [] \<Rightarrow> (True, w)
      | r # rs \<Rightarrow> (r, upd_conn w sd (\<lambda>c. c\<lparr>c_time_left := rs\<rparr>)))"

text \<open>The restartable read: \<open>k\<close> more attempts after this one.\<close>

primrec drain_read :: "nat \<Rightarrow> world \<Rightarrow> int \<Rightarrow> (int + u8 list) \<times> world" where
  "drain_read 0 w sd = c_read w sd DUMMY_SIZE"
| "drain_read (Suc k) w sd =
     (case c_read w sd DUMMY_SIZE of
        (Inl e, w') \<Rightarrow> if e = EINTR \<or> e = EAGAIN then drain_read k w' sd else (Inl e, w')
      | (Inr b, w') \<Rightarrow> (Inr b, w'))"

definition rx_weight :: "rx_event list \<Rightarrow> nat" where
  "rx_weight es = sum_list (map (\<lambda>e. case e of Rx b bs \<Rightarrow> length bs + 2 | _ \<Rightarrow> 1) es)"

lemma rx_weight_simps [simp]:
  "rx_weight [] = 0" "rx_weight (Rx b bs # es) = length bs + 2 + rx_weight es"
  "rx_weight (Rx_err e # es) = Suc (rx_weight es)" "rx_weight (Rx_eof # es) = Suc (rx_weight es)"
  by (simp_all add: rx_weight_def)

lemma upd_conn_same [simp]: "w_conn (upd_conn w sd f) sd = f (w_conn w sd)"
  by (simp add: upd_conn_def)

lemma c_read_weight:
  assumes "c_read w sd n = (r, w')" and "0 < n" and "r \<noteq> Inr []"
  shows "rx_weight (c_rx (w_conn w' sd)) < rx_weight (c_rx (w_conn w sd))"
proof (cases "c_rx (w_conn w sd)")
  case Nil
  then show ?thesis using assms by (simp add: c_read_def)
next
  case (Cons e es)
  show ?thesis
  proof (cases e)
    case (Rx b bs)
    obtain m where n: "n = Suc m" using assms(2) by (cases n) auto
    show ?thesis
    proof (cases "drop m bs")
      case Nil
      then show ?thesis using assms Cons Rx n by (auto simp: c_read_def)
    next
      case (Cons d ds)
      then have "length ds < length bs" by (metis length_Cons length_drop diff_le_self le_less_trans lessI not_less_eq less_le_trans)
      then show ?thesis using assms \<open>c_rx (w_conn w sd) = e # es\<close> Rx n Cons by (auto simp: c_read_def)
    qed
  qed (use assms Cons in \<open>auto simp: c_read_def\<close>)
qed

lemma drain_read_weight: "drain_read k w sd = (Inr (d # ds), w') \<Longrightarrow>
    rx_weight (c_rx (w_conn w' sd)) < rx_weight (c_rx (w_conn w sd))"
proof (induction k arbitrary: w)
  case (Suc k)
  show ?case
  proof (cases "c_read w sd DUMMY_SIZE")
    case (Pair r w1)
    show ?thesis
    proof (cases r)
      case (Inl e)
      then have "drain_read k w1 sd = (Inr (d # ds), w')" using Suc.prems Pair by (simp split: if_splits)
      from Suc.IH [OF this] show ?thesis using c_read_weight [OF Pair] Inl by (simp add: DUMMY_SIZE_def)
    next
      case (Inr b)
      then show ?thesis using Suc.prems c_read_weight [OF Pair] Pair by (auto simp: DUMMY_SIZE_def)
    qed
  qed
qed (simp add: c_read_weight DUMMY_SIZE_def)

lemma c_read_empty: "c_read w sd n = (Inr b, w') \<Longrightarrow> 0 < n \<Longrightarrow> b = [] \<Longrightarrow> w' = w"
  by (cases n) (auto simp: c_read_def split: list.splits rx_event.splits)

lemma c_read_less:
  "c_read w sd n = (r, w') \<Longrightarrow> 0 < n \<Longrightarrow> rx_weight (c_rx (w_conn w' sd)) \<le> rx_weight (c_rx (w_conn w sd))"
  using c_read_weight [of w sd n r w'] c_read_empty [of w sd n "[]" w'] by (cases "r = Inr []") (simp_all add: less_imp_le)

lemma drain_read_le: "drain_read k w sd = (r, w') \<Longrightarrow> rx_weight (c_rx (w_conn w' sd)) \<le> rx_weight (c_rx (w_conn w sd))"
proof (induction k arbitrary: w)
  case (Suc k)
  obtain r1 w1 where c: "c_read w sd DUMMY_SIZE = (r1, w1)" by fastforce
  then have "rx_weight (c_rx (w_conn w1 sd)) \<le> rx_weight (c_rx (w_conn w sd))" by (rule c_read_less) (simp add: DUMMY_SIZE_def)
  then show ?case using Suc c by (auto split: sum.splits if_splits intro: order_trans)
qed (auto simp: DUMMY_SIZE_def intro: c_read_less)

lemma c_rx_kept [simp]:
  "c_rx (w_conn (snd (c_poll w sd)) sd) = c_rx (w_conn w sd)" "c_rx (w_conn (snd (c_clock w sd)) sd) = c_rx (w_conn w sd)"
  by (simp_all add: c_poll_def c_clock_def split: list.split)

definition linger_on :: "world \<Rightarrow> int \<Rightarrow> nat \<Rightarrow> bool \<times> world" where
  "linger_on w sd drained = (if drained < MAX_LINGER_BYTES then c_clock w sd else (False, w))"

lemma linger_rx [simp]: "c_rx (w_conn (snd (linger_on w sd drained)) sd) = c_rx (w_conn w sd)"
  by (simp add: linger_on_def)

function drain_loop :: "world \<Rightarrow> int \<Rightarrow> int \<Rightarrow> nat \<Rightarrow> world" where
  "drain_loop w sd timeout drained =
     (let (ready, w1) = c_poll w sd in
      if \<not> ready then jk_close_socket w1 sd
      else
        (case drain_read (MAX_READ_RETRY - 1) w1 sd of
           (Inl e, w2) \<Rightarrow> jk_close_socket w2 sd
         | (Inr b, w2) \<Rightarrow>
             if length b < DUMMY_SIZE \<and> timeout \<le> MS_TO_LINGER_LAST then
               jk_close_socket (if c_nonblock_ok (w_conn w2 sd) then upd_conn w2 sd (\<lambda>c. c\<lparr>c_rx := []\<rparr>) else w2) sd
             else
               let (again, w3) = linger_on w2 sd (drained + length b) in
               if again
               then drain_loop w3 sd (if length b < DUMMY_SIZE then MS_TO_LINGER_LAST else MS_TO_LINGER) (drained + length b)
               else jk_close_socket w3 sd))"
  by pat_completeness auto
termination
proof (relation "measures [\<lambda>(w, sd, timeout, drained). rx_weight (c_rx (w_conn w sd)), \<lambda>(w, sd, timeout, drained). nat timeout]", goal_cases)
  case (2 w sd timeout drained x ready w1 r w2 b z again w3)
  then have w: "w3 = snd (linger_on w2 sd (drained + length b))" "w1 = snd (c_poll w sd)"
    and d: "drain_read (MAX_READ_RETRY - 1) w1 sd = (Inr b, w2)" by (metis snd_conv, metis snd_conv, simp)
  show ?case
  proof (cases "length b < DUMMY_SIZE")
    case True
    then have "MS_TO_LINGER_LAST < timeout" using 2 by simp
    then show ?thesis using drain_read_le [OF d] True w by (auto simp: MS_TO_LINGER_LAST_def)
  next
    case False
    then obtain c cs where "b = c # cs" by (cases b) (auto simp: DUMMY_SIZE_def)
    then show ?thesis using drain_read_weight [of "MAX_READ_RETRY - 1" w1 sd c cs w2] d w by simp
  qed
qed simp

declare drain_loop.simps [simp del]

definition jk_shutdown_socket :: "world \<Rightarrow> int \<Rightarrow> world" where
  "jk_shutdown_socket w sd =
     (if \<not> IS_VALID_SOCKET sd then w
      else
        let (ok, w1) = c_shutdown_wr w sd in
        if \<not> ok then jk_close_socket w1 sd else drain_loop w1 sd MS_TO_LINGER 0)"

section \<open>Receiving\<close>

lemma closed_kept [simp]:
  "w_closed (upd_conn w sd f) = w_closed w" "w_closed (snd (c_read w sd n)) = w_closed w"
  "w_closed (snd (c_poll w sd)) = w_closed w" "w_closed (snd (linger_on w sd m)) = w_closed w"
  "w_closed (snd (c_shutdown_wr w sd)) = w_closed w"
  by (simp_all add: upd_conn_def c_read_def c_poll_def c_clock_def linger_on_def c_shutdown_wr_def split: list.split rx_event.split)

lemma drain_read_closed [simp]: "w_closed (snd (drain_read k w sd)) = w_closed w"
proof (induction k arbitrary: w)
  case (Suc k)
  obtain r w1 where c: "c_read w sd DUMMY_SIZE = (r, w1)" by fastforce
  then have "w_closed w1 = w_closed w" by (metis closed_kept(2) snd_conv)
  then show ?case using Suc c by (simp split: sum.split)
qed simp

lemma drain_loop_closed: "IS_VALID_SOCKET sd \<Longrightarrow> w_closed (drain_loop w sd timeout drained) = w_closed w @ [sd]"
proof (induction w sd timeout drained rule: drain_loop.induct)
  case (1 w sd timeout drained)
  obtain ready w1 where p: "c_poll w sd = (ready, w1)" by fastforce
  obtain r w2 where r: "drain_read (MAX_READ_RETRY - 1) w1 sd = (r, w2)" by fastforce
  have c: "w_closed w1 = w_closed w" "w_closed w2 = w_closed w"
    using p r closed_kept(3) [of w sd] drain_read_closed [of "MAX_READ_RETRY - 1" w1 sd] by simp_all
  show ?case
  proof (cases "ready \<and> (\<exists>b. r = Inr b \<and> \<not> (length b < DUMMY_SIZE \<and> timeout \<le> MS_TO_LINGER_LAST))")
    case True
    then obtain b where b: "ready" "r = Inr b" "\<not> (length b < DUMMY_SIZE \<and> timeout \<le> MS_TO_LINGER_LAST)" by blast
    obtain again w3 where a: "linger_on w2 sd (drained + length b) = (again, w3)" by fastforce
    then have "w_closed w3 = w_closed w" using closed_kept(4) [of w2 sd "drained + length b"] c by simp
    then show ?thesis using "1.IH" [OF p [symmetric] refl _ r [symmetric] b(2) b(3) a [symmetric] refl] "1.prems" p r a b c
      by (subst drain_loop.simps) (simp add: jk_close_socket_def)
  next
    case False
    then show ?thesis using p r c "1.prems" by (subst drain_loop.simps) (auto simp: jk_close_socket_def split: sum.split)
  qed
qed

lemma jk_shutdown_closed [simp]: "w_closed (jk_shutdown_socket w sd) = w_closed w @ (if IS_VALID_SOCKET sd then [sd] else [])"
  using closed_kept(5) [of w sd]
  by (cases "c_shutdown_wr w sd") (simp add: jk_shutdown_socket_def drain_loop_closed jk_close_socket_def)

function recvfull_loop :: "world \<Rightarrow> int \<Rightarrow> nat \<Rightarrow> u8 list \<Rightarrow> int \<times> u8 list \<times> world" where
  "recvfull_loop w sd len b =
     (if length b < len then
        (case c_read w sd (len - length b) of
           (Inl e, w') \<Rightarrow>
             if e = EINTR then recvfull_loop w' sd len b
             else
               let err = (if e > 0 then - e else e)
               in (if err = 0 then JK_SOCKET_EOF else err, b, jk_shutdown_socket w' sd)
         | (Inr [], w') \<Rightarrow> (JK_SOCKET_EOF, b, jk_shutdown_socket w' sd)
         | (Inr (d # ds), w') \<Rightarrow> recvfull_loop w' sd len (b @ d # ds))
      else (int (length b), b, w))"
  by pat_completeness auto
termination
proof (relation "measure (\<lambda>(w, sd, len, b). rx_weight (c_rx (w_conn w sd)))", goal_cases)
  case (2 w sd len b x w' e)
  then show ?case using c_read_weight [of w sd "len - length b" "Inl e" w'] by simp
next
  case (3 w sd len b x w' r d ds)
  then show ?case using c_read_weight [of w sd "len - length b" "Inr (d # ds)" w'] by simp
qed simp

declare recvfull_loop.simps [simp del]

text \<open>The result, the bytes stored and the world.\<close>

definition jk_tcp_socket_recvfull :: "world \<Rightarrow> int \<Rightarrow> nat \<Rightarrow> int \<times> u8 list \<times> world" where
  "jk_tcp_socket_recvfull w sd len = recvfull_loop w sd len []"

section \<open>Sending\<close>

function sendfull_loop :: "world \<Rightarrow> int \<Rightarrow> u8 list \<Rightarrow> nat \<Rightarrow> int \<times> world" where
  "sendfull_loop w sd b sent =
     (if sent < length b then
        (case c_write w sd (drop sent b) of
           (Inl e, w') \<Rightarrow>
             if (e = EINTR \<or> e = EAGAIN) then sendfull_loop w' sd b sent
             else (if e > 0 then - e else e, jk_shutdown_socket w' sd)
         | (Inr 0, w') \<Rightarrow> (JK_SOCKET_EOF, jk_shutdown_socket w' sd)
         | (Inr (Suc k), w') \<Rightarrow> sendfull_loop w' sd b (sent + Suc k))
      else (int sent, w))"
  by pat_completeness auto
termination
proof (relation "measures [\<lambda>(w, sd, b, sent). length b - sent, \<lambda>(w, sd, b, sent). length (c_tx (w_conn w sd))]", goal_cases)
  case (2 w sd b sent x w' e)
  then show ?case by (auto simp: c_write_def Let_def split: list.splits if_splits)
qed auto

declare sendfull_loop.simps [simp del]

definition jk_tcp_socket_sendfull :: "world \<Rightarrow> int \<Rightarrow> u8 list \<Rightarrow> int \<times> world" where
  "jk_tcp_socket_sendfull w sd b = sendfull_loop w sd b 0"

section \<open>The byte stream\<close>

text \<open>The bytes that can be read before the end of file or an error; interruptions do not count.\<close>

fun rx_stream :: "rx_event list \<Rightarrow> u8 list" where
  "rx_stream [] = []"
| "rx_stream (Rx b bs # es) = (b # bs) @ rx_stream es"
| "rx_stream (Rx_eof # es) = []"
| "rx_stream (Rx_err e # es) = (if e = EINTR then rx_stream es else [])"

definition pending :: "world \<Rightarrow> int \<Rightarrow> u8 list" where
  "pending w sd = rx_stream (c_rx (w_conn w sd))"

definition set_rx :: "world \<Rightarrow> int \<Rightarrow> rx_event list \<Rightarrow> world" where
  "set_rx w sd es = upd_conn w sd (\<lambda>c. c\<lparr>c_rx := es\<rparr>)"

lemma set_rx_sel [simp]:
  "c_rx (w_conn (set_rx w sd es) sd) = es" "set_rx (set_rx w sd es) sd fs = set_rx w sd fs"
  "pending (set_rx w sd es) sd = rx_stream es" "w_closed (set_rx w sd es) = w_closed w"
  by (simp_all add: set_rx_def upd_conn_def pending_def)

lemma set_rx_id [simp]: "set_rx w sd (c_rx (w_conn w sd)) = w"
  by (simp add: set_rx_def upd_conn_def)

lemma rx_stream_rest: "rx_stream (case xs of [] \<Rightarrow> es | d # ds \<Rightarrow> Rx d ds # es) = xs @ rx_stream es"
  by (cases xs) simp_all

text \<open>One \<open>read\<close>: a prefix of the stream, an interruption that leaves it, or its end.\<close>

lemma c_read_cases:
  assumes "0 < n"
  obtains (data) es d ds where "c_read w sd n = (Inr (d # ds), set_rx w sd es)" "pending w sd = d # ds @ rx_stream es"
      "length (d # ds) \<le> n"
  | (intr) es where "c_read w sd n = (Inl EINTR, set_rx w sd es)" "pending w sd = rx_stream es"
  | (err) e es where "c_read w sd n = (Inl e, set_rx w sd es)" "e \<noteq> EINTR" "pending w sd = []"
  | (eof) "c_read w sd n = (Inr [], w)" "pending w sd = []"
proof (cases "c_rx (w_conn w sd)")
  case Nil
  then show ?thesis by (intro eof) (simp_all add: c_read_def pending_def)
next
  case (Cons ev es)
  show ?thesis
  proof (cases ev)
    case (Rx b bs)
    obtain m where n: "n = Suc m" using assms by (cases n) auto
    show ?thesis
      by (rule data [of b "take m bs" "case drop m bs of [] \<Rightarrow> es | d # ds \<Rightarrow> Rx d ds # es"])
        (simp_all add: c_read_def pending_def set_rx_def Cons Rx n rx_stream_rest flip: append_assoc)
  next
    case Rx_eof
    then show ?thesis using Cons by (intro eof) (simp_all add: c_read_def pending_def)
  next
    case (Rx_err e)
    show ?thesis
    proof (cases "e = EINTR")
      case True
      then show ?thesis using Cons Rx_err by (intro intr [of es]) (simp_all add: c_read_def pending_def set_rx_def)
    next
      case False
      then show ?thesis using Cons Rx_err by (intro err [of e es]) (simp_all add: c_read_def pending_def set_rx_def)
    qed
  qed
qed

definition received :: "world \<Rightarrow> int \<Rightarrow> nat \<Rightarrow> u8 list \<Rightarrow> int \<times> u8 list \<times> world \<Rightarrow> bool" where
  "received w sd len b r \<longleftrightarrow>
     (if len \<le> length b + length (pending w sd)
      then (\<exists>es. r = (int len, b @ take (len - length b) (pending w sd), set_rx w sd es)
              \<and> rx_stream es = drop (len - length b) (pending w sd))
      else (\<exists>rc es. rc < 0 \<and> r = (rc, b @ pending w sd, jk_shutdown_socket (set_rx w sd es) sd)))"

lemma recvfull_loop_spec: "length b \<le> len \<Longrightarrow> received w sd len b (recvfull_loop w sd len b)"
proof (induction w sd len b rule: recvfull_loop.induct)
  case (1 w sd len b)
  show ?case
  proof (cases "length b < len")
    case False
    then have "len = length b" using 1(3) by simp
    then show ?thesis by (auto simp: received_def recvfull_loop.simps [of w] pending_def intro!: exI [of _ "c_rx (w_conn w sd)"])
  next
    case True
    then have pos: "0 < len - length b" by simp
    from pos show ?thesis
    proof (cases rule: c_read_cases [of _ w sd])
      case (data es d ds)
      then have "length (b @ d # ds) \<le> len" using True by simp
      from 1(2) [OF True data(1) [symmetric] refl refl this]
      have "received (set_rx w sd es) sd len (b @ d # ds) (recvfull_loop (set_rx w sd es) sd len (b @ d # ds))" .
      then have "received w sd len b (recvfull_loop (set_rx w sd es) sd len (b @ d # ds))"
        using data(2,3) True by (simp add: received_def take_Cons' drop_Cons' split: if_splits)
      then show ?thesis using True data(1) by (simp add: recvfull_loop.simps [of w])
    next
      case (intr es)
      from 1(1) [OF True intr(1) [symmetric] refl refl 1(3)]
      have "received (set_rx w sd es) sd len b (recvfull_loop (set_rx w sd es) sd len b)" .
      then have "received w sd len b (recvfull_loop (set_rx w sd es) sd len b)"
        using intr(2) by (simp add: received_def split: if_splits)
      then show ?thesis using True intr(1) by (simp add: recvfull_loop.simps [of w])
    next
      case (err e es)
      then show ?thesis using True
        by (auto simp: received_def recvfull_loop.simps [of w] Let_def JK_SOCKET_EOF_def)
    next
      case eof
      then show ?thesis using True
        by (auto simp: received_def recvfull_loop.simps [of w] JK_SOCKET_EOF_def intro!: exI [of _ "c_rx (w_conn w sd)"])
    qed
  qed
qed

lemma recvfull_spec: "received w sd len [] (jk_tcp_socket_recvfull w sd len)"
  by (simp add: jk_tcp_socket_recvfull_def recvfull_loop_spec)

definition pushed :: "world \<Rightarrow> int \<Rightarrow> int list \<Rightarrow> u8 list \<Rightarrow> world" where
  "pushed w sd tx bs = upd_conn w sd (\<lambda>c. c\<lparr>c_tx := tx, c_written := c_written c @ bs\<rparr>)"

lemma pushed_sel [simp]:
  "c_tx (w_conn (pushed w sd tx bs) sd) = tx" "pushed (pushed w sd tx bs) sd ty cs = pushed w sd ty (bs @ cs)"
  by (simp_all add: pushed_def upd_conn_def)

lemma pushed_id: "pushed w sd (c_tx (w_conn w sd)) [] = w"
  by (simp add: pushed_def upd_conn_def)

lemma c_write_pushed:
  "c_write w sd bs =
     (case c_tx (w_conn w sd) of
        [] \<Rightarrow> (Inr (length bs), pushed w sd [] bs)
      | r # rs \<Rightarrow> if r < 0 then (Inl (- r), pushed w sd rs [])
          else (Inr (min (nat r) (length bs)), pushed w sd rs (take (min (nat r) (length bs)) bs)))"
  by (cases "c_tx (w_conn w sd)"; cases "w_conn w sd") (simp_all add: c_write_def pushed_def upd_conn_def Let_def)

text \<open>The results of \<open>write\<close> that \<open>jk_tcp_socket_sendfull\<close> survives.\<close>

definition tx_ok :: "int \<Rightarrow> bool" where
  "tx_ok r \<longleftrightarrow> r > 0 \<or> r = - EINTR \<or> r = - EAGAIN"

definition sent_all :: "world \<Rightarrow> int \<Rightarrow> u8 list \<Rightarrow> nat \<Rightarrow> int \<times> world \<Rightarrow> bool" where
  "sent_all w sd b sent r \<longleftrightarrow> (\<exists>tx. r = (int (length b), pushed w sd tx (drop sent b)))"

definition sent_part :: "world \<Rightarrow> int \<Rightarrow> u8 list \<Rightarrow> nat \<Rightarrow> int \<times> world \<Rightarrow> bool" where
  "sent_part w sd b sent r \<longleftrightarrow> (\<exists>rc tx k. rc < 0 \<and> sent + k < length b
     \<and> r = (rc, jk_shutdown_socket (pushed w sd tx (take k (drop sent b))) sd))"

lemma sendfull_loop_spec:
  "sent \<le> length b \<Longrightarrow> sent_all w sd b sent (sendfull_loop w sd b sent) \<or>
     \<not> list_all tx_ok (c_tx (w_conn w sd)) \<and> sent_part w sd b sent (sendfull_loop w sd b sent)"
proof (induction w sd b sent rule: sendfull_loop.induct)
  case (1 w sd b sent)
  show ?case
  proof (cases "sent < length b")
    case False
    then show ?thesis using 1(3) pushed_id [of w sd]
      by (auto simp: sent_all_def sendfull_loop.simps [of w] intro!: exI [of _ "c_tx (w_conn w sd)"])
  next
    case True
    have step: "sent_all w sd b sent r \<or> \<not> list_all tx_ok tx \<and> sent_part w sd b sent r"
      if r: "sent_all (pushed w sd tx (take m (drop sent b))) sd b (sent + m) r \<or>
          \<not> list_all tx_ok tx \<and> sent_part (pushed w sd tx (take m (drop sent b))) sd b (sent + m) r"
      for tx m r
      using r
    proof (elim disjE conjE)
      assume "sent_all (pushed w sd tx (take m (drop sent b))) sd b (sent + m) r"
      then show ?thesis by (simp add: sent_all_def) (metis append_take_drop_id drop_drop add.commute)
    next
      assume t: "\<not> list_all tx_ok tx" and "sent_part (pushed w sd tx (take m (drop sent b))) sd b (sent + m) r"
      then obtain rc ty k where "rc < 0" "sent + m + k < length b"
        "r = (rc, jk_shutdown_socket (pushed w sd ty (take m (drop sent b) @ take k (drop (sent + m) b))) sd)"
        by (auto simp: sent_part_def)
      then have "sent_part w sd b sent r"
        unfolding sent_part_def by (intro exI [of _ rc] exI [of _ ty] exI [of _ "m + k"]) (simp add: take_add ac_simps(1) add.commute [of m sent])
      with t show ?thesis by simp
    qed
    show ?thesis
    proof (cases "c_tx (w_conn w sd)")
      case Nil
      then have w: "c_write w sd (drop sent b) = (Inr (length b - sent), pushed w sd [] (drop sent b))"
        by (simp add: c_write_pushed)
      obtain k where k: "length b - sent = Suc k" using True by (metis Suc_diff_Suc)
      have "sendfull_loop w sd b sent = sendfull_loop (pushed w sd [] (drop sent b)) sd b (sent + Suc k)"
        using True w k by (simp add: sendfull_loop.simps [of w])
      also have "\<dots> = (int (length b), pushed w sd [] (drop sent b))"
      proof -
        have "sent + Suc k = length b" using k by arith
        then show ?thesis by (simp only:) (subst sendfull_loop.simps, simp)
      qed
      finally show ?thesis by (auto simp: sent_all_def)
    next
      case (Cons r rs)
      consider (bad) "r < 0" "\<not> tx_ok r" | (again) "r < 0" "tx_ok r" | (zero) "r = 0" | (some) "0 < r" by linarith
      then show ?thesis
      proof cases
        case bad
        then have "sendfull_loop w sd b sent = (r, jk_shutdown_socket (pushed w sd rs []) sd)"
          using True Cons by (auto simp: sendfull_loop.simps [of w] c_write_pushed tx_ok_def)
        then have "sent_part w sd b sent (sendfull_loop w sd b sent)"
          unfolding sent_part_def using bad True by (intro exI [of _ r] exI [of _ rs] exI [of _ 0]) simp
        then show ?thesis using bad Cons by simp
      next
        case again
        then have e: "- r = EINTR \<or> - r = EAGAIN" by (auto simp: tx_ok_def)
        have w: "c_write w sd (drop sent b) = (Inl (- r), pushed w sd rs [])" using again Cons by (simp add: c_write_pushed)
        from 1(1) [OF True w [symmetric] refl e 1(3)] step [of rs 0] again Cons True w e
        show ?thesis by (simp add: sendfull_loop.simps [of w])
      next
        case zero
        then have "sendfull_loop w sd b sent = (JK_SOCKET_EOF, jk_shutdown_socket (pushed w sd rs []) sd)"
          using True Cons by (simp add: sendfull_loop.simps [of w] c_write_pushed)
        then have "sent_part w sd b sent (sendfull_loop w sd b sent)"
          unfolding sent_part_def using True
          by (intro exI [of _ JK_SOCKET_EOF] exI [of _ rs] exI [of _ 0]) (simp add: JK_SOCKET_EOF_def)
        then show ?thesis using zero Cons by (simp add: tx_ok_def EINTR_def EAGAIN_def)
      next
        case some
        obtain k where k: "min (nat r) (length b - sent) = Suc k" using some True by (cases "min (nat r) (length b - sent)") auto
        then have w: "c_write w sd (drop sent b) = (Inr (Suc k), pushed w sd rs (take (Suc k) (drop sent b)))"
          using some Cons by (simp add: c_write_pushed)
        have "sent + Suc k \<le> length b" using k True by linarith
        moreover have "tx_ok r" using some by (simp add: tx_ok_def)
        ultimately show ?thesis using 1(2) [OF True w [symmetric] refl refl] step [of rs "Suc k"] Cons True w
          by (simp add: sendfull_loop.simps [of w])
      qed
    qed
  qed
qed

lemma sendfull_spec:
  "sent_all w sd b 0 (jk_tcp_socket_sendfull w sd b) \<or>
     \<not> list_all tx_ok (c_tx (w_conn w sd)) \<and> sent_part w sd b 0 (jk_tcp_socket_sendfull w sd b)"
  using sendfull_loop_spec [of 0 b w sd] by (simp add: jk_tcp_socket_sendfull_def)

end
