(* ===== verification/Jk_Lb_Codes.thy ===== *)
theory Jk_Lb_Codes
  imports Jk_Prelude
begin

text \<open>
  The codes of the load balancer (\<open>jk_lb_worker.h\<close>): balancing methods, locking, worker states and
  activation states, with the texts that print them and the parsers of \<open>jk_lb_worker.c\<close>, and the
  text form of the CPING modes (\<open>jk_ajp_common.c\<close>). The parsers look at the first character only; the
  first character of an empty string is the terminator, which no branch accepts.
\<close>

section \<open>Constants\<close>

abbreviation (input) JK_LB_METHOD_REQUESTS :: int where
  "JK_LB_METHOD_REQUESTS \<equiv> 0"

abbreviation (input) JK_LB_METHOD_TRAFFIC :: int where
  "JK_LB_METHOD_TRAFFIC \<equiv> 1"

abbreviation (input) JK_LB_METHOD_BUSYNESS :: int where
  "JK_LB_METHOD_BUSYNESS \<equiv> 2"

abbreviation (input) JK_LB_METHOD_SESSIONS :: int where
  "JK_LB_METHOD_SESSIONS \<equiv> 3"

abbreviation (input) JK_LB_METHOD_NEXT :: int where
  "JK_LB_METHOD_NEXT \<equiv> 4"

abbreviation (input) JK_LB_METHOD_DEF :: int where
  "JK_LB_METHOD_DEF \<equiv> JK_LB_METHOD_REQUESTS"

abbreviation (input) JK_LB_METHOD_MAX :: int where
  "JK_LB_METHOD_MAX \<equiv> JK_LB_METHOD_NEXT"

abbreviation (input) JK_LB_METHOD_TEXT_REQUESTS :: string where
  "JK_LB_METHOD_TEXT_REQUESTS \<equiv> ''Request''"

abbreviation (input) JK_LB_METHOD_TEXT_TRAFFIC :: string where
  "JK_LB_METHOD_TEXT_TRAFFIC \<equiv> ''Traffic''"

abbreviation (input) JK_LB_METHOD_TEXT_BUSYNESS :: string where
  "JK_LB_METHOD_TEXT_BUSYNESS \<equiv> ''Busyness''"

abbreviation (input) JK_LB_METHOD_TEXT_SESSIONS :: string where
  "JK_LB_METHOD_TEXT_SESSIONS \<equiv> ''Sessions''"

abbreviation (input) JK_LB_METHOD_TEXT_NEXT :: string where
  "JK_LB_METHOD_TEXT_NEXT \<equiv> ''Next''"

abbreviation (input) JK_LB_METHOD_TEXT_DEF :: string where
  "JK_LB_METHOD_TEXT_DEF \<equiv> JK_LB_METHOD_TEXT_REQUESTS"

abbreviation (input) JK_LB_LOCK_OPTIMISTIC :: int where
  "JK_LB_LOCK_OPTIMISTIC \<equiv> 0"

abbreviation (input) JK_LB_LOCK_PESSIMISTIC :: int where
  "JK_LB_LOCK_PESSIMISTIC \<equiv> 1"

abbreviation (input) JK_LB_LOCK_DEF :: int where
  "JK_LB_LOCK_DEF \<equiv> JK_LB_LOCK_OPTIMISTIC"

abbreviation (input) JK_LB_LOCK_MAX :: int where
  "JK_LB_LOCK_MAX \<equiv> JK_LB_LOCK_PESSIMISTIC"

abbreviation (input) JK_LB_LOCK_TEXT_OPTIMISTIC :: string where
  "JK_LB_LOCK_TEXT_OPTIMISTIC \<equiv> ''Optimistic''"

abbreviation (input) JK_LB_LOCK_TEXT_PESSIMISTIC :: string where
  "JK_LB_LOCK_TEXT_PESSIMISTIC \<equiv> ''Pessimistic''"

abbreviation (input) JK_LB_LOCK_TEXT_DEF :: string where
  "JK_LB_LOCK_TEXT_DEF \<equiv> JK_LB_LOCK_TEXT_OPTIMISTIC"

abbreviation (input) JK_LB_STATE_IDLE :: int where
  "JK_LB_STATE_IDLE \<equiv> 0"

abbreviation (input) JK_LB_STATE_OK :: int where
  "JK_LB_STATE_OK \<equiv> 1"

abbreviation (input) JK_LB_STATE_RECOVER :: int where
  "JK_LB_STATE_RECOVER \<equiv> 2"

abbreviation (input) JK_LB_STATE_FORCE :: int where
  "JK_LB_STATE_FORCE \<equiv> 3"

abbreviation (input) JK_LB_STATE_BUSY :: int where
  "JK_LB_STATE_BUSY \<equiv> 4"

abbreviation (input) JK_LB_STATE_ERROR :: int where
  "JK_LB_STATE_ERROR \<equiv> 5"

abbreviation (input) JK_LB_STATE_PROBE :: int where
  "JK_LB_STATE_PROBE \<equiv> 6"

abbreviation (input) JK_LB_STATE_DEF :: int where
  "JK_LB_STATE_DEF \<equiv> JK_LB_STATE_IDLE"

abbreviation (input) JK_LB_STATE_TEXT_IDLE :: string where
  "JK_LB_STATE_TEXT_IDLE \<equiv> ''OK/IDLE''"

abbreviation (input) JK_LB_STATE_TEXT_OK :: string where
  "JK_LB_STATE_TEXT_OK \<equiv> ''OK''"

abbreviation (input) JK_LB_STATE_TEXT_RECOVER :: string where
  "JK_LB_STATE_TEXT_RECOVER \<equiv> ''ERR/REC''"

abbreviation (input) JK_LB_STATE_TEXT_FORCE :: string where
  "JK_LB_STATE_TEXT_FORCE \<equiv> ''ERR/FRC''"

abbreviation (input) JK_LB_STATE_TEXT_BUSY :: string where
  "JK_LB_STATE_TEXT_BUSY \<equiv> ''OK/BUSY''"

abbreviation (input) JK_LB_STATE_TEXT_ERROR :: string where
  "JK_LB_STATE_TEXT_ERROR \<equiv> ''ERR''"

abbreviation (input) JK_LB_STATE_TEXT_PROBE :: string where
  "JK_LB_STATE_TEXT_PROBE \<equiv> ''ERR/PRB''"

abbreviation (input) JK_LB_STATE_TEXT_MAX :: int where
  "JK_LB_STATE_TEXT_MAX \<equiv> JK_LB_STATE_PROBE"

abbreviation (input) JK_LB_STATE_TEXT_DEF :: string where
  "JK_LB_STATE_TEXT_DEF \<equiv> JK_LB_STATE_TEXT_IDLE"

abbreviation (input) JK_LB_ACTIVATION_ACTIVE :: int where
  "JK_LB_ACTIVATION_ACTIVE \<equiv> 0"

abbreviation (input) JK_LB_ACTIVATION_DISABLED :: int where
  "JK_LB_ACTIVATION_DISABLED \<equiv> 1"

abbreviation (input) JK_LB_ACTIVATION_STOPPED :: int where
  "JK_LB_ACTIVATION_STOPPED \<equiv> 2"

abbreviation (input) JK_LB_ACTIVATION_UNSET :: int where
  "JK_LB_ACTIVATION_UNSET \<equiv> 9"

abbreviation (input) JK_LB_ACTIVATION_DEF :: int where
  "JK_LB_ACTIVATION_DEF \<equiv> JK_LB_ACTIVATION_ACTIVE"

abbreviation (input) JK_LB_ACTIVATION_MAX :: int where
  "JK_LB_ACTIVATION_MAX \<equiv> JK_LB_ACTIVATION_STOPPED"

abbreviation (input) JK_LB_ACTIVATION_TEXT_ACTIVE :: string where
  "JK_LB_ACTIVATION_TEXT_ACTIVE \<equiv> ''ACT''"

abbreviation (input) JK_LB_ACTIVATION_TEXT_DISABLED :: string where
  "JK_LB_ACTIVATION_TEXT_DISABLED \<equiv> ''DIS''"

abbreviation (input) JK_LB_ACTIVATION_TEXT_STOPPED :: string where
  "JK_LB_ACTIVATION_TEXT_STOPPED \<equiv> ''STP''"

abbreviation (input) JK_LB_ACTIVATION_TEXT_DEF :: string where
  "JK_LB_ACTIVATION_TEXT_DEF \<equiv> JK_LB_ACTIVATION_TEXT_ACTIVE"

section \<open>Texts\<close>

text \<open>The tables end in \<open>unknown\<close> and a null entry; reading outside a table is undefined.\<close>

definition lb_locking_type :: "string option list" where
  "lb_locking_type = [Some JK_LB_LOCK_TEXT_OPTIMISTIC, Some JK_LB_LOCK_TEXT_PESSIMISTIC, Some ''unknown'', None]"

definition lb_method_type :: "string option list" where
  "lb_method_type =
     [Some JK_LB_METHOD_TEXT_REQUESTS, Some JK_LB_METHOD_TEXT_TRAFFIC, Some JK_LB_METHOD_TEXT_BUSYNESS,
      Some JK_LB_METHOD_TEXT_SESSIONS, Some JK_LB_METHOD_TEXT_NEXT, Some ''unknown'', None]"

definition lb_state_type :: "string option list" where
  "lb_state_type =
     [Some JK_LB_STATE_TEXT_IDLE, Some JK_LB_STATE_TEXT_OK, Some JK_LB_STATE_TEXT_RECOVER,
      Some JK_LB_STATE_TEXT_FORCE, Some JK_LB_STATE_TEXT_BUSY, Some JK_LB_STATE_TEXT_ERROR,
      Some JK_LB_STATE_TEXT_PROBE, Some ''unknown'', None]"

definition lb_activation_type :: "string option list" where
  "lb_activation_type =
     [Some JK_LB_ACTIVATION_TEXT_ACTIVE, Some JK_LB_ACTIVATION_TEXT_DISABLED, Some JK_LB_ACTIVATION_TEXT_STOPPED,
      Some ''unknown'', None]"

definition jk_lb_get_lock_direct :: "int \<Rightarrow> string option ub" where
  "jk_lb_get_lock_direct lblock = rdi lb_locking_type lblock"

definition jk_lb_get_method_direct :: "int \<Rightarrow> string option ub" where
  "jk_lb_get_method_direct lbmethod = rdi lb_method_type lbmethod"

definition jk_lb_get_state_direct :: "int \<Rightarrow> string option ub" where
  "jk_lb_get_state_direct state = rdi lb_state_type state"

definition jk_lb_get_activation_direct :: "int \<Rightarrow> string option ub" where
  "jk_lb_get_activation_direct activation = rdi lb_activation_type activation"

section \<open>Parsers\<close>

definition head_in :: "string \<Rightarrow> string \<Rightarrow> bool" where
  "head_in v cs \<longleftrightarrow> v \<noteq> [] \<and> hd v \<in> set cs"

definition jk_lb_get_lock_code :: "string option \<Rightarrow> int" where
  "jk_lb_get_lock_code v =
     (case v of
        None \<Rightarrow> JK_LB_LOCK_DEF
      | Some s \<Rightarrow>
          if head_in s ''oO0'' then JK_LB_LOCK_OPTIMISTIC
          else if head_in s ''pP1'' then JK_LB_LOCK_PESSIMISTIC
          else JK_LB_LOCK_DEF)"

definition jk_lb_get_method_code :: "string option \<Rightarrow> int" where
  "jk_lb_get_method_code v =
     (case v of
        None \<Rightarrow> JK_LB_METHOD_DEF
      | Some s \<Rightarrow>
          if head_in s ''rR0'' then JK_LB_METHOD_REQUESTS
          else if head_in s ''tT1'' then JK_LB_METHOD_TRAFFIC
          else if head_in s ''bB2'' then JK_LB_METHOD_BUSYNESS
          else if head_in s ''sS3'' then JK_LB_METHOD_SESSIONS
          else if head_in s ''nN4'' then JK_LB_METHOD_NEXT
          else JK_LB_METHOD_DEF)"

definition jk_lb_get_state_code :: "string option \<Rightarrow> int" where
  "jk_lb_get_state_code v =
     (case v of
        None \<Rightarrow> JK_LB_STATE_DEF
      | Some s \<Rightarrow>
          if head_in s ''iInN0'' then JK_LB_STATE_IDLE
          else if head_in s ''oO1'' then JK_LB_STATE_OK
          else if head_in s ''rR2'' then JK_LB_STATE_RECOVER
          else if head_in s ''fF3'' then JK_LB_STATE_FORCE
          else if head_in s ''bB4'' then JK_LB_STATE_BUSY
          else if head_in s ''eE5'' then JK_LB_STATE_ERROR
          else if head_in s ''pP6'' then JK_LB_STATE_PROBE
          else JK_LB_STATE_DEF)"

definition jk_lb_get_activation_code :: "string option \<Rightarrow> int" where
  "jk_lb_get_activation_code v =
     (case v of
        None \<Rightarrow> JK_LB_ACTIVATION_DEF
      | Some s \<Rightarrow>
          if head_in s ''aA0'' then JK_LB_ACTIVATION_ACTIVE
          else if head_in s ''dD1'' then JK_LB_ACTIVATION_DISABLED
          else if head_in s ''sS2'' then JK_LB_ACTIVATION_STOPPED
          else JK_LB_ACTIVATION_DEF)"

section \<open>CPING modes\<close>

abbreviation (input) AJP_CPING_NONE :: int where
  "AJP_CPING_NONE \<equiv> 0"

abbreviation (input) AJP_CPING_CONNECT :: int where
  "AJP_CPING_CONNECT \<equiv> 1"

abbreviation (input) AJP_CPING_PREPOST :: int where
  "AJP_CPING_PREPOST \<equiv> 2"

abbreviation (input) AJP_CPING_INTERVAL :: int where
  "AJP_CPING_INTERVAL \<equiv> 4"

abbreviation (input) AJP_CPING_MAX :: int where
  "AJP_CPING_MAX \<equiv> AJP_CPING_INTERVAL"

definition ajp_cping_mode :: string where
  "ajp_cping_mode = ''CPI''"

text \<open>The loop doubles \<open>bit\<close> up to \<open>AJP_CPING_MAX\<close>, so it runs at most three times.\<close>

function cping_text_loop :: "int \<Rightarrow> int \<Rightarrow> nat \<Rightarrow> string ub" where
  "cping_text_loop mode b log2 =
     (if 0 < b \<and> b \<le> mode \<and> b \<le> AJP_CPING_MAX then
        do {
          c \<leftarrow> (if and mode b \<noteq> 0 then map_option (\<lambda>c. [c]) (rd ajp_cping_mode log2) else Some []);
          r \<leftarrow> cping_text_loop mode (b * 2) (log2 + 1);
          Some (c @ r)
        }
      else Some [])"
  by pat_completeness auto
termination
  by (relation "measure (\<lambda>(mode, b, log2). nat (5 - b))") auto

declare cping_text_loop.simps [simp del]

definition jk_ajp_get_cping_text :: "int \<Rightarrow> string ub" where
  "jk_ajp_get_cping_text mode = cping_text_loop mode 1 0"

definition cping_bit :: "char \<Rightarrow> int \<Rightarrow> int" where
  "cping_bit c mv =
     (let mv1 = (if c \<in> set ''Cc'' then or mv AJP_CPING_CONNECT else mv);
          mv2 = (if c \<in> set ''Pp'' then or mv1 AJP_CPING_PREPOST else mv1)
      in if c \<in> set ''Ii'' then or mv2 AJP_CPING_INTERVAL else mv2)"

primrec cping_mode_loop :: "string \<Rightarrow> int \<Rightarrow> int" where
  "cping_mode_loop [] mv = mv"
| "cping_mode_loop (c # m) mv =
     (if c \<in> set ''Aa'' then or (or AJP_CPING_CONNECT AJP_CPING_PREPOST) AJP_CPING_INTERVAL
      else cping_mode_loop m (cping_bit c mv))"

definition jk_ajp_get_cping_mode :: "string option \<Rightarrow> int \<Rightarrow> int" where
  "jk_ajp_get_cping_mode m dflt =
     (case m of
        None \<Rightarrow> dflt
      | Some s \<Rightarrow> let mv = cping_mode_loop s 0 in if mv \<noteq> 0 then mv else dflt)"

section \<open>The theorems\<close>

lemmas code_defs = jk_lb_get_lock_code_def jk_lb_get_method_code_def jk_lb_get_state_code_def
  jk_lb_get_activation_code_def jk_lb_get_lock_direct_def jk_lb_get_method_direct_def jk_lb_get_state_direct_def
  jk_lb_get_activation_direct_def lb_locking_type_def lb_method_type_def lb_state_type_def lb_activation_type_def
  head_in_def

text \<open>Printing a balancing method, a locking mode or an activation state and parsing the text gives
  the code back. The text of a worker state only tells whether the worker is in error: it is parsed to
  \<open>JK_LB_STATE_OK\<close> for the idle, ok and busy states and to \<open>JK_LB_STATE_ERROR\<close> for the others.\<close>

theorem lb_codes_roundtrip:
  "(0 \<le> i \<and> i \<le> JK_LB_METHOD_MAX \<longrightarrow> map_option jk_lb_get_method_code (jk_lb_get_method_direct i) = Some i) \<and>
   (0 \<le> i \<and> i \<le> JK_LB_LOCK_MAX \<longrightarrow> map_option jk_lb_get_lock_code (jk_lb_get_lock_direct i) = Some i) \<and>
   (0 \<le> i \<and> i \<le> JK_LB_ACTIVATION_MAX \<longrightarrow>
      map_option jk_lb_get_activation_code (jk_lb_get_activation_direct i) = Some i) \<and>
   (0 \<le> i \<and> i \<le> JK_LB_STATE_TEXT_MAX \<longrightarrow>
      map_option jk_lb_get_state_code (jk_lb_get_state_direct i) =
        Some (if i \<in> {JK_LB_STATE_IDLE, JK_LB_STATE_OK, JK_LB_STATE_BUSY} then JK_LB_STATE_OK else JK_LB_STATE_ERROR))"
proof -
  have "i = 0 \<or> i = 1 \<or> i = 2 \<or> i = 3 \<or> i = 4 \<or> i = 5 \<or> i = 6" if "0 \<le> i \<and> i \<le> 6" using that by arith
  then show ?thesis by (auto simp: code_defs rdi_def rd_def)
qed

theorem lb_codes_roundtrip_witness:
  "map_option jk_lb_get_method_code (jk_lb_get_method_direct JK_LB_METHOD_BUSYNESS) = Some JK_LB_METHOD_BUSYNESS"
  using lb_codes_roundtrip [of JK_LB_METHOD_BUSYNESS] by simp

text \<open>Every non-empty set of CPING modes survives printing and parsing, whatever the default; the empty
  set prints as the empty text, which is parsed to the default.\<close>

theorem cping_mode_roundtrip:
  assumes "0 \<le> mode" and "mode \<le> 7"
  shows "map_option (\<lambda>t. jk_ajp_get_cping_mode (Some t) dflt) (jk_ajp_get_cping_text mode) =
    Some (if mode = AJP_CPING_NONE then dflt else mode)"
proof -
  have "mode = 0 \<or> mode = 1 \<or> mode = 2 \<or> mode = 3 \<or> mode = 4 \<or> mode = 5 \<or> mode = 6 \<or> mode = 7"
    using assms by arith
  then show ?thesis
    by (elim disjE)
      (simp_all add: jk_ajp_get_cping_text_def jk_ajp_get_cping_mode_def cping_text_loop.simps ajp_cping_mode_def
        rd_def cping_bit_def Let_def)
qed

theorem cping_mode_roundtrip_witness:
  "map_option (\<lambda>t. jk_ajp_get_cping_mode (Some t) 0) (jk_ajp_get_cping_text 5) = Some 5"
  using cping_mode_roundtrip [of 5 0] by simp

end
