(* ===== verification/Jk_Config.thy ===== *)
theory Jk_Config
  imports Jk_Map Jk_Props Jk_Lb_Codes
begin

text \<open>
  The readers of the worker configuration (\<open>jk_util.c\<close>): each builds the key
  \<open>worker.<name>.<attribute>\<close> in a buffer on the stack and looks it up in the property map. A null map
  or worker name is \<open>None\<close>; the pointers for results are not null. Overflowing the buffer is
  undefined behaviour.
\<close>

section \<open>The key\<close>

definition JK_MAX_NAME_LEN :: nat where
  "JK_MAX_NAME_LEN = 60"

definition PARAM_BUFFER_SIZE :: nat where
  "PARAM_BUFFER_SIZE = JK_MAX_NAME_LEN + 8 + nat JK_MAX_ATTRIBUTE_NAME_LEN + 1"

text \<open>\<open>strncat (buf, s, n)\<close> into a buffer of \<open>cap\<close> bytes: up to \<open>n\<close> bytes of \<open>s\<close> and a terminator.\<close>

definition c_strncat :: "nat \<Rightarrow> string \<Rightarrow> string \<Rightarrow> u64 \<Rightarrow> string ub" where
  "c_strncat cap buf s n =
     (let r = buf @ take (unat n) s in do { guard (length r < cap); Some r })"

text \<open>The bound \<open>remain\<close> starts from \<open>PARAM_BUFFER_SIZE\<close> also where the buffer is larger, and the
  subtractions wrap.\<close>

definition MAKE_WORKER_PARAM :: "nat \<Rightarrow> string \<Rightarrow> string \<Rightarrow> string ub" where
  "MAKE_WORKER_PARAM cap wname P =
     (let remain0 = (of_nat PARAM_BUFFER_SIZE :: u64) - of_nat (length ''worker.'') in
      do {
        buf1 \<leftarrow> c_strncat cap ''worker.'' wname remain0;
        let remain1 = remain0 - of_nat (length wname) in
        do {
          buf2 \<leftarrow> c_strncat cap buf1 ''.'' remain1;
          c_strncat cap buf2 P (remain1 - 1)
        }
      })"

definition jk_check_attribute_length :: "string \<Rightarrow> bool" where
  "jk_check_attribute_length v = (if length v > JK_MAX_NAME_LEN then False else True)"

text \<open>The frame of the readers: the value for null arguments, else what \<open>f\<close> makes of the key.\<close>

definition worker_param :: "nat \<Rightarrow> string jk_map option \<Rightarrow> string option \<Rightarrow> string \<Rightarrow> 'a
     \<Rightarrow> (string jk_map \<Rightarrow> string \<Rightarrow> 'a ub) \<Rightarrow> 'a ub" where
  "worker_param cap m wname P null_value f =
     (case m of
        None \<Rightarrow> Some null_value
      | Some mp \<Rightarrow>
          (case wname of
             None \<Rightarrow> Some null_value
           | Some w \<Rightarrow> do { buf \<leftarrow> MAKE_WORKER_PARAM cap w P; f mp buf }))"

text \<open>Readers that write a string to \<open>*out\<close>: \<open>None\<close> when it is not written.\<close>

definition worker_string :: "string \<Rightarrow> string jk_map option \<Rightarrow> string option \<Rightarrow> (bool \<times> string option option) ub" where
  "worker_string P m wname =
     worker_param PARAM_BUFFER_SIZE m wname P (False, None) (\<lambda>mp buf.
       do { v \<leftarrow> jk_map_get_string mp (Some buf) None; Some (v \<noteq> None, Some v) })"

text \<open>Readers of lists: what is written to \<open>*list\<close> and \<open>*num\<close>, if anything.\<close>

type_synonym string_list_result = "bool \<times> (string option list option \<times> nat) option \<times> string jk_map option \<times> heap"

definition worker_list :: "string \<Rightarrow> string jk_map option \<Rightarrow> heap \<Rightarrow> string option \<Rightarrow> string_list_result ub" where
  "worker_list P m h wname =
     worker_param PARAM_BUFFER_SIZE m wname P (False, None, m, h) (\<lambda>mp buf.
       do {
         (ar, num, mp1, h1) \<leftarrow> jk_map_get_string_list mp h (Some buf) None;
         Some (ar \<noteq> None, Some (if ar = None then (None, 0) else (ar, num)), Some mp1, h1)
       })"

section \<open>Defaults\<close>

definition DEFAULT_WORKER_TYPE :: string where
  "DEFAULT_WORKER_TYPE = ''ajp13''"

definition DEFAULT_WORKER :: string where
  "DEFAULT_WORKER = ''ajp13''"

definition DEFAULT_MAINTAIN_TIME :: int where
  "DEFAULT_MAINTAIN_TIME = 60"

definition DEFAULT_LB_FACTOR :: int where
  "DEFAULT_LB_FACTOR = 1"

definition DEFAULT_DISTANCE :: int where
  "DEFAULT_DISTANCE = 0"

definition TOMCAT32_BRIDGE_NAME :: string where
  "TOMCAT32_BRIDGE_NAME = ''tomcat32''"

definition TOMCAT33_BRIDGE_NAME :: string where
  "TOMCAT33_BRIDGE_NAME = ''tomcat33''"

definition TOMCAT40_BRIDGE_NAME :: string where
  "TOMCAT40_BRIDGE_NAME = ''tomcat40''"

definition TOMCAT41_BRIDGE_NAME :: string where
  "TOMCAT41_BRIDGE_NAME = ''tomcat41''"

definition TOMCAT50_BRIDGE_NAME :: string where
  "TOMCAT50_BRIDGE_NAME = ''tomcat5''"

definition TC32_BRIDGE_TYPE :: u32 where
  "TC32_BRIDGE_TYPE = 32"

definition TC33_BRIDGE_TYPE :: u32 where
  "TC33_BRIDGE_TYPE = 33"

definition TC40_BRIDGE_TYPE :: u32 where
  "TC40_BRIDGE_TYPE = 40"

definition TC41_BRIDGE_TYPE :: u32 where
  "TC41_BRIDGE_TYPE = 41"

definition TC50_BRIDGE_TYPE :: u32 where
  "TC50_BRIDGE_TYPE = 50"

definition AJP14_PROTO :: int where
  "AJP14_PROTO = 14"

definition AJP13_DEF_CACHE_SZ :: int where
  "AJP13_DEF_CACHE_SZ = 1"

definition AJP14_DEF_CACHE_SZ :: int where
  "AJP14_DEF_CACHE_SZ = 1"

definition AJP13_DEF_PACKET_SIZE :: int where
  "AJP13_DEF_PACKET_SIZE = 8 * 1024"

definition AJP13_MAX_PACKET_SIZE :: int where
  "AJP13_MAX_PACKET_SIZE = 64 * 1024"

definition AJP13_PACKET_SIZE_ALIGN :: int where
  "AJP13_PACKET_SIZE_ALIGN = 1024"

section \<open>The readers\<close>

definition jk_get_worker_type :: "string jk_map option \<Rightarrow> string option \<Rightarrow> string option ub" where
  "jk_get_worker_type m wname =
     worker_param PARAM_BUFFER_SIZE m wname TYPE_OF_WORKER None (\<lambda>mp buf. jk_map_get_string mp (Some buf) (Some DEFAULT_WORKER_TYPE))"

definition jk_get_worker_route :: "string jk_map option \<Rightarrow> string option \<Rightarrow> string option \<Rightarrow> string option ub" where
  "jk_get_worker_route m wname dflt =
     worker_param PARAM_BUFFER_SIZE m wname ROUTE_OF_WORKER dflt (\<lambda>mp buf.
       do {
         v \<leftarrow> jk_map_get_string mp (Some buf) dflt;
         if v \<noteq> None then Some v
         else worker_param PARAM_BUFFER_SIZE m wname JVM_ROUTE_OF_WORKER_DEPRECATED dflt (\<lambda>mp buf2.
                jk_map_get_string mp (Some buf2) dflt)
       })"

definition jk_get_worker_domain :: "string jk_map option \<Rightarrow> string option \<Rightarrow> string option \<Rightarrow> string option ub" where
  "jk_get_worker_domain m wname dflt =
     worker_param PARAM_BUFFER_SIZE m wname DOMAIN_OF_WORKER dflt (\<lambda>mp buf. jk_map_get_string mp (Some buf) dflt)"

definition jk_get_worker_redirect :: "string jk_map option \<Rightarrow> string option \<Rightarrow> string option \<Rightarrow> string option ub" where
  "jk_get_worker_redirect m wname dflt =
     worker_param PARAM_BUFFER_SIZE m wname REDIRECT_OF_WORKER dflt (\<lambda>mp buf. jk_map_get_string mp (Some buf) dflt)"

definition jk_get_worker_secret :: "string jk_map option \<Rightarrow> string option \<Rightarrow> string option ub" where
  "jk_get_worker_secret m wname =
     worker_param PARAM_BUFFER_SIZE m wname SECRET_OF_WORKER None (\<lambda>mp buf. jk_map_get_string mp (Some buf) None)"

definition jk_get_worker_host :: "string jk_map option \<Rightarrow> string option \<Rightarrow> string option \<Rightarrow> string option ub" where
  "jk_get_worker_host m wname dflt =
     worker_param PARAM_BUFFER_SIZE m wname HOST_OF_WORKER None (\<lambda>mp buf. jk_map_get_string mp (Some buf) dflt)"

definition jk_get_worker_source :: "string jk_map option \<Rightarrow> string option \<Rightarrow> string option \<Rightarrow> string option ub" where
  "jk_get_worker_source m wname dflt =
     worker_param PARAM_BUFFER_SIZE m wname SOURCE_OF_WORKER None (\<lambda>mp buf. jk_map_get_string mp (Some buf) dflt)"

definition jk_get_worker_port :: "string jk_map option \<Rightarrow> string option \<Rightarrow> int \<Rightarrow> int ub" where
  "jk_get_worker_port m wname dflt =
     worker_param PARAM_BUFFER_SIZE m wname PORT_OF_WORKER dflt (\<lambda>mp buf. jk_map_get_int mp (Some buf) dflt)"

definition jk_get_worker_prefer_ipv6 :: "string jk_map option \<Rightarrow> string option \<Rightarrow> int \<Rightarrow> int ub" where
  "jk_get_worker_prefer_ipv6 m wname dflt =
     worker_param PARAM_BUFFER_SIZE m wname PREFER_IPV6_ADDRESS dflt (\<lambda>mp buf. jk_map_get_bool mp (Some buf) dflt)"

text \<open>The static \<open>def_cache_size\<close> is passed in and out.\<close>

definition jk_get_worker_def_cache_size :: "int \<Rightarrow> int \<Rightarrow> int \<times> int" where
  "jk_get_worker_def_cache_size def_cache_size protocol =
     (let sz = (if def_cache_size < 1
                then (if protocol = AJP14_PROTO then AJP14_DEF_CACHE_SZ else AJP13_DEF_CACHE_SZ)
                else def_cache_size)
      in (sz, sz))"

definition jk_set_worker_def_cache_size :: "int \<Rightarrow> int \<Rightarrow> int" where
  "jk_set_worker_def_cache_size def_cache_size sz = sz"

definition jk_get_worker_cache_size :: "string jk_map option \<Rightarrow> string option \<Rightarrow> int \<Rightarrow> int ub" where
  "jk_get_worker_cache_size m wname dflt =
     worker_param PARAM_BUFFER_SIZE m wname CACHE_OF_WORKER dflt (\<lambda>mp buf.
       do {
         rv \<leftarrow> jk_map_get_int mp (Some buf) (- 1);
         if rv \<ge> 0 then Some rv
         else worker_param PARAM_BUFFER_SIZE m wname CACHE_OF_WORKER_DEPRECATED dflt (\<lambda>mp buf2.
                jk_map_get_int mp (Some buf2) dflt)
       })"

definition jk_get_worker_cache_size_min :: "string jk_map option \<Rightarrow> string option \<Rightarrow> int \<Rightarrow> int ub" where
  "jk_get_worker_cache_size_min m wname dflt =
     worker_param PARAM_BUFFER_SIZE m wname CACHE_OF_WORKER_MIN dflt (\<lambda>mp buf. jk_map_get_int mp (Some buf) dflt)"

definition jk_get_worker_cache_acquire_timeout :: "string jk_map option \<Rightarrow> string option \<Rightarrow> int \<Rightarrow> int ub" where
  "jk_get_worker_cache_acquire_timeout m wname dflt =
     worker_param PARAM_BUFFER_SIZE m wname CACHE_ACQUIRE_OF_WORKER dflt (\<lambda>mp buf. jk_map_get_int mp (Some buf) dflt)"

definition jk_get_worker_socket_timeout :: "string jk_map option \<Rightarrow> string option \<Rightarrow> int \<Rightarrow> int ub" where
  "jk_get_worker_socket_timeout m wname dflt =
     worker_param PARAM_BUFFER_SIZE m wname SOCKET_TIMEOUT_OF_WORKER dflt (\<lambda>mp buf. jk_map_get_int mp (Some buf) dflt)"

definition jk_get_worker_socket_connect_timeout :: "string jk_map option \<Rightarrow> string option \<Rightarrow> int \<Rightarrow> int ub" where
  "jk_get_worker_socket_connect_timeout m wname dflt =
     worker_param PARAM_BUFFER_SIZE m wname SOCKET_CONNECT_TIMEOUT_OF_WORKER dflt (\<lambda>mp buf. jk_map_get_int mp (Some buf) dflt)"

definition jk_get_worker_recover_timeout :: "string jk_map option \<Rightarrow> string option \<Rightarrow> int \<Rightarrow> int ub" where
  "jk_get_worker_recover_timeout m wname dflt =
     worker_param PARAM_BUFFER_SIZE m wname WORKER_RECOVER_TIME dflt (\<lambda>mp buf. jk_map_get_int mp (Some buf) dflt)"

definition jk_get_worker_error_escalation_time :: "string jk_map option \<Rightarrow> string option \<Rightarrow> int \<Rightarrow> int ub" where
  "jk_get_worker_error_escalation_time m wname dflt =
     worker_param PARAM_BUFFER_SIZE m wname WORKER_ERROR_ESCALATION_TIME dflt (\<lambda>mp buf. jk_map_get_int mp (Some buf) dflt)"

definition jk_get_worker_max_reply_timeouts :: "string jk_map option \<Rightarrow> string option \<Rightarrow> int \<Rightarrow> int ub" where
  "jk_get_worker_max_reply_timeouts m wname dflt =
     worker_param PARAM_BUFFER_SIZE m wname MAX_REPLY_TIMEOUTS_OF_WORKER dflt (\<lambda>mp buf. jk_map_get_int mp (Some buf) dflt)"

definition jk_get_worker_retry_interval :: "string jk_map option \<Rightarrow> string option \<Rightarrow> int \<Rightarrow> int ub" where
  "jk_get_worker_retry_interval m wname dflt =
     worker_param PARAM_BUFFER_SIZE m wname RETRY_INTERVAL_OF_WORKER dflt (\<lambda>mp buf. jk_map_get_int mp (Some buf) dflt)"

definition jk_get_worker_busy_limit :: "string jk_map option \<Rightarrow> string option \<Rightarrow> int \<Rightarrow> int ub" where
  "jk_get_worker_busy_limit m wname dflt =
     worker_param PARAM_BUFFER_SIZE m wname BUSY_LIMIT_OF_WORKER dflt (\<lambda>mp buf. jk_map_get_int mp (Some buf) dflt)"

definition jk_get_worker_socket_buffer :: "string jk_map option \<Rightarrow> string option \<Rightarrow> int \<Rightarrow> int ub" where
  "jk_get_worker_socket_buffer m wname dflt =
     worker_param PARAM_BUFFER_SIZE m wname SOCKET_BUFFER_OF_WORKER dflt (\<lambda>mp buf.
       do { i \<leftarrow> jk_map_get_int mp (Some buf) 0; Some (if i > 0 \<and> i < dflt then dflt else i) })"

definition jk_get_worker_socket_keepalive :: "string jk_map option \<Rightarrow> string option \<Rightarrow> int \<Rightarrow> int ub" where
  "jk_get_worker_socket_keepalive m wname dflt =
     worker_param PARAM_BUFFER_SIZE m wname SOCKET_KEEPALIVE_OF_WORKER dflt (\<lambda>mp buf. jk_map_get_bool mp (Some buf) dflt)"

definition jk_get_worker_conn_ping_interval :: "string jk_map option \<Rightarrow> string option \<Rightarrow> int \<Rightarrow> int ub" where
  "jk_get_worker_conn_ping_interval m wname dflt =
     worker_param PARAM_BUFFER_SIZE m wname CONN_PING_INTERVAL_OF_WORKER dflt (\<lambda>mp buf. jk_map_get_int mp (Some buf) dflt)"

definition jk_get_worker_cache_timeout :: "string jk_map option \<Rightarrow> string option \<Rightarrow> int \<Rightarrow> int ub" where
  "jk_get_worker_cache_timeout m wname dflt =
     worker_param PARAM_BUFFER_SIZE m wname CACHE_TIMEOUT_OF_WORKER dflt (\<lambda>mp buf.
       do {
         rv \<leftarrow> jk_map_get_int mp (Some buf) (- 1);
         if rv \<ge> 0 then Some rv
         else worker_param PARAM_BUFFER_SIZE m wname CACHE_TIMEOUT_DEPRECATED dflt (\<lambda>mp buf2.
                jk_map_get_int mp (Some buf2) dflt)
       })"

definition jk_get_worker_connect_timeout :: "string jk_map option \<Rightarrow> string option \<Rightarrow> int \<Rightarrow> int ub" where
  "jk_get_worker_connect_timeout m wname dflt =
     worker_param PARAM_BUFFER_SIZE m wname CONNECT_TIMEOUT_OF_WORKER dflt (\<lambda>mp buf. jk_map_get_int mp (Some buf) dflt)"

definition jk_get_worker_prepost_timeout :: "string jk_map option \<Rightarrow> string option \<Rightarrow> int \<Rightarrow> int ub" where
  "jk_get_worker_prepost_timeout m wname dflt =
     worker_param PARAM_BUFFER_SIZE m wname PREPOST_TIMEOUT_OF_WORKER dflt (\<lambda>mp buf. jk_map_get_int mp (Some buf) dflt)"

definition jk_get_worker_ping_timeout :: "string jk_map option \<Rightarrow> string option \<Rightarrow> int \<Rightarrow> int ub" where
  "jk_get_worker_ping_timeout m wname dflt =
     worker_param PARAM_BUFFER_SIZE m wname PING_TIMEOUT_OF_WORKER dflt (\<lambda>mp buf. jk_map_get_int mp (Some buf) dflt)"

definition jk_get_worker_ping_mode :: "string jk_map option \<Rightarrow> string option \<Rightarrow> int \<Rightarrow> int ub" where
  "jk_get_worker_ping_mode m wname dflt =
     worker_param PARAM_BUFFER_SIZE m wname PING_MODE_OF_WORKER dflt (\<lambda>mp buf.
       do {
         mode \<leftarrow> jk_ajp_get_cping_text dflt;
         v \<leftarrow> jk_map_get_string mp (Some buf) (Some mode);
         Some (jk_ajp_get_cping_mode v dflt)
       })"

definition jk_get_worker_reply_timeout :: "string jk_map option \<Rightarrow> string option \<Rightarrow> int \<Rightarrow> int ub" where
  "jk_get_worker_reply_timeout m wname dflt =
     worker_param PARAM_BUFFER_SIZE m wname REPLY_TIMEOUT_OF_WORKER dflt (\<lambda>mp buf. jk_map_get_int mp (Some buf) dflt)"

definition jk_get_worker_recycle_timeout :: "string jk_map option \<Rightarrow> string option \<Rightarrow> int \<Rightarrow> int ub" where
  "jk_get_worker_recycle_timeout m wname dflt = Some dflt"

definition jk_get_worker_retries :: "string jk_map option \<Rightarrow> string option \<Rightarrow> int \<Rightarrow> int ub" where
  "jk_get_worker_retries m wname dflt =
     worker_param PARAM_BUFFER_SIZE m wname RETRIES_OF_WORKER dflt (\<lambda>mp buf.
       do { rv \<leftarrow> jk_map_get_int mp (Some buf) dflt; Some (if rv < 1 then 1 else rv) })"

definition jk_get_worker_lb_retries :: "string jk_map option \<Rightarrow> string option \<Rightarrow> int \<Rightarrow> int ub" where
  "jk_get_worker_lb_retries m wname dflt =
     worker_param 1024 m wname LB_RETRIES_OF_WORKER (- 1) (\<lambda>mp buf.
       do { rv \<leftarrow> jk_map_get_int mp (Some buf) dflt; Some (if rv < 1 then 1 else rv) })"

definition jk_get_worker_recovery_opts :: "string jk_map option \<Rightarrow> string option \<Rightarrow> int \<Rightarrow> int ub" where
  "jk_get_worker_recovery_opts m wname dflt =
     worker_param PARAM_BUFFER_SIZE m wname RECOVERY_OPTS_OF_WORKER dflt (\<lambda>mp buf. jk_map_get_int mp (Some buf) dflt)"

definition jk_get_worker_secret_key :: "string jk_map option \<Rightarrow> string option \<Rightarrow> string option ub" where
  "jk_get_worker_secret_key m wname =
     worker_param PARAM_BUFFER_SIZE m wname SECRET_KEY_OF_WORKER None (\<lambda>mp buf. jk_map_get_string mp (Some buf) None)"

definition jk_get_worker_list :: "string jk_map option \<Rightarrow> heap \<Rightarrow> string_list_result ub" where
  "jk_get_worker_list m h =
     (case m of
        None \<Rightarrow> Some (False, None, None, h)
      | Some mp \<Rightarrow>
          do {
            (ar, num, mp1, h1) \<leftarrow> jk_map_get_string_list mp h (Some WORKER_LIST_PROPERTY_NAME) (Some DEFAULT_WORKER);
            Some (ar \<noteq> None, Some (if ar = None then (None, 0) else (ar, num)), Some mp1, h1)
          })"

definition jk_get_is_worker_disabled :: "string jk_map option \<Rightarrow> string option \<Rightarrow> int ub" where
  "jk_get_is_worker_disabled m wname =
     worker_param PARAM_BUFFER_SIZE m wname IS_WORKER_DISABLED_DEPRECATED 1 (\<lambda>mp buf. jk_map_get_bool mp (Some buf) 0)"

definition jk_get_is_worker_stopped :: "string jk_map option \<Rightarrow> string option \<Rightarrow> int ub" where
  "jk_get_is_worker_stopped m wname =
     worker_param PARAM_BUFFER_SIZE m wname IS_WORKER_STOPPED_DEPRECATED 1 (\<lambda>mp buf. jk_map_get_bool mp (Some buf) 0)"

definition jk_get_worker_activation :: "string jk_map option \<Rightarrow> string option \<Rightarrow> int ub" where
  "jk_get_worker_activation m wname =
     worker_param PARAM_BUFFER_SIZE m wname ACTIVATION_OF_WORKER JK_LB_ACTIVATION_ACTIVE (\<lambda>mp buf.
       do {
         v \<leftarrow> jk_map_get_string mp (Some buf) None;
         if v \<noteq> None then Some (jk_lb_get_activation_code v)
         else do {
           stopped \<leftarrow> jk_get_is_worker_stopped m wname;
           if stopped \<noteq> 0 then Some JK_LB_ACTIVATION_STOPPED
           else do {
             disabled \<leftarrow> jk_get_is_worker_disabled m wname;
             Some (if disabled \<noteq> 0 then JK_LB_ACTIVATION_DISABLED else JK_LB_ACTIVATION_DEF)
           }
         }
       })"

definition jk_get_lb_factor :: "string jk_map option \<Rightarrow> string option \<Rightarrow> int ub" where
  "jk_get_lb_factor m wname =
     worker_param PARAM_BUFFER_SIZE m wname LOAD_FACTOR_OF_WORKER DEFAULT_LB_FACTOR (\<lambda>mp buf. jk_map_get_int mp (Some buf) DEFAULT_LB_FACTOR)"

definition jk_get_distance :: "string jk_map option \<Rightarrow> string option \<Rightarrow> int ub" where
  "jk_get_distance m wname =
     worker_param PARAM_BUFFER_SIZE m wname DISTANCE_OF_WORKER DEFAULT_DISTANCE (\<lambda>mp buf. jk_map_get_int mp (Some buf) DEFAULT_DISTANCE)"

definition jk_get_is_sticky_session :: "string jk_map option \<Rightarrow> string option \<Rightarrow> int ub" where
  "jk_get_is_sticky_session m wname =
     worker_param PARAM_BUFFER_SIZE m wname STICKY_SESSION 1 (\<lambda>mp buf. jk_map_get_bool mp (Some buf) 1)"

definition jk_get_is_sticky_session_force :: "string jk_map option \<Rightarrow> string option \<Rightarrow> int ub" where
  "jk_get_is_sticky_session_force m wname =
     worker_param PARAM_BUFFER_SIZE m wname STICKY_SESSION_FORCE 0 (\<lambda>mp buf. jk_map_get_bool mp (Some buf) 0)"

text \<open>The code passes \<open>JK_LB_METHOD_DEF\<close> and \<open>JK_LB_LOCK_DEF\<close>, which are 0, as the default text: the null pointer.\<close>

definition jk_get_lb_method :: "string jk_map option \<Rightarrow> string option \<Rightarrow> int ub" where
  "jk_get_lb_method m wname =
     worker_param PARAM_BUFFER_SIZE m wname METHOD_OF_WORKER JK_LB_METHOD_DEF (\<lambda>mp buf.
       do { v \<leftarrow> jk_map_get_string mp (Some buf) None; Some (jk_lb_get_method_code v) })"

definition jk_get_lb_lock :: "string jk_map option \<Rightarrow> string option \<Rightarrow> int ub" where
  "jk_get_lb_lock m wname =
     worker_param PARAM_BUFFER_SIZE m wname LOCK_OF_WORKER JK_LB_LOCK_DEF (\<lambda>mp buf.
       do { v \<leftarrow> jk_map_get_string mp (Some buf) None; Some (jk_lb_get_lock_code v) })"

definition jk_get_max_packet_size :: "string jk_map option \<Rightarrow> string option \<Rightarrow> int ub" where
  "jk_get_max_packet_size m wname =
     worker_param PARAM_BUFFER_SIZE m wname WORKER_MAX_PACKET_SIZE AJP13_DEF_PACKET_SIZE (\<lambda>mp buf.
       do {
         sz \<leftarrow> jk_map_get_int mp (Some buf) AJP13_DEF_PACKET_SIZE;
         guard (int_range (sz + (AJP13_PACKET_SIZE_ALIGN - 1)));
         let sz1 = and (sz + (AJP13_PACKET_SIZE_ALIGN - 1)) (not (AJP13_PACKET_SIZE_ALIGN - 1)) in
         Some (if sz1 < AJP13_DEF_PACKET_SIZE then AJP13_DEF_PACKET_SIZE
               else if sz1 > AJP13_MAX_PACKET_SIZE then AJP13_MAX_PACKET_SIZE
               else sz1)
       })"

text \<open>The result holds what is written to \<open>*list\<close> and \<open>*list_size\<close>.\<close>

definition jk_get_worker_fail_on_status :: "string jk_map option \<Rightarrow> heap \<Rightarrow> string option
     \<Rightarrow> (bool \<times> (int list option \<times> nat option) option \<times> string jk_map option \<times> heap) ub" where
  "jk_get_worker_fail_on_status m h wname =
     worker_param PARAM_BUFFER_SIZE m wname STATUS_FAIL_OF_WORKER (False, None, m, h) (\<lambda>mp buf.
       do {
         (ar, n, mp1, h1) \<leftarrow> jk_map_get_int_list mp h (Some buf) None;
         Some (ar \<noteq> None, Some (if ar = None then (None, Some 0) else (ar, n)), Some mp1, h1)
       })"

definition jk_get_worker_user_case_insensitive :: "string jk_map option \<Rightarrow> string option \<Rightarrow> int ub" where
  "jk_get_worker_user_case_insensitive m wname =
     worker_param PARAM_BUFFER_SIZE m wname USER_CASE_OF_WORKER 0 (\<lambda>mp buf. jk_map_get_bool mp (Some buf) 0)"

definition jk_get_worker_style_sheet :: "string jk_map option \<Rightarrow> string option \<Rightarrow> string option \<Rightarrow> string option ub" where
  "jk_get_worker_style_sheet m wname dflt =
     worker_param PARAM_BUFFER_SIZE m wname STYLE_SHEET_OF_WORKER dflt (\<lambda>mp buf. jk_map_get_string mp (Some buf) dflt)"

definition jk_get_worker_name_space :: "string jk_map option \<Rightarrow> string option \<Rightarrow> string option \<Rightarrow> string option ub" where
  "jk_get_worker_name_space m wname dflt =
     worker_param PARAM_BUFFER_SIZE m wname NAMESPACE_OF_WORKER dflt (\<lambda>mp buf.
       do {
         rc \<leftarrow> jk_map_get_string mp (Some buf) dflt;
         (case rc of
            None \<Rightarrow> None
          | Some s \<Rightarrow> Some (Some (if starts_with s ''-'' then [] else s)))
       })"

definition jk_get_worker_xmlns :: "string jk_map option \<Rightarrow> string option \<Rightarrow> string option \<Rightarrow> string option ub" where
  "jk_get_worker_xmlns m wname dflt =
     worker_param PARAM_BUFFER_SIZE m wname XML_NAMESPACE_OF_WORKER dflt (\<lambda>mp buf.
       do {
         rc \<leftarrow> jk_map_get_string mp (Some buf) dflt;
         (case rc of
            None \<Rightarrow> None
          | Some s \<Rightarrow> Some (Some (if starts_with s ''-'' then [] else s)))
       })"

definition jk_get_worker_xml_doctype :: "string jk_map option \<Rightarrow> string option \<Rightarrow> string option \<Rightarrow> string option ub" where
  "jk_get_worker_xml_doctype m wname dflt =
     worker_param PARAM_BUFFER_SIZE m wname XML_DOCTYPE_OF_WORKER dflt (\<lambda>mp buf. jk_map_get_string mp (Some buf) dflt)"

definition jk_get_worker_prop_prefix :: "string jk_map option \<Rightarrow> string option \<Rightarrow> string option \<Rightarrow> string option ub" where
  "jk_get_worker_prop_prefix m wname dflt =
     worker_param PARAM_BUFFER_SIZE m wname PROP_PREFIX_OF_WORKER dflt (\<lambda>mp buf. jk_map_get_string mp (Some buf) dflt)"

definition jk_get_is_read_only :: "string jk_map option \<Rightarrow> string option \<Rightarrow> int ub" where
  "jk_get_is_read_only m wname =
     worker_param PARAM_BUFFER_SIZE m wname READ_ONLY_OF_WORKER 0 (\<lambda>mp buf. jk_map_get_bool mp (Some buf) 0)"

definition jk_get_worker_user_list :: "string jk_map option \<Rightarrow> heap \<Rightarrow> string option \<Rightarrow> string_list_result ub" where
  "jk_get_worker_user_list m h wname = worker_list USER_OF_WORKER m h wname"

definition jk_get_worker_good_rating :: "string jk_map option \<Rightarrow> heap \<Rightarrow> string option \<Rightarrow> string_list_result ub" where
  "jk_get_worker_good_rating m h wname = worker_list GOOD_RATING_OF_WORKER m h wname"

definition jk_get_worker_bad_rating :: "string jk_map option \<Rightarrow> heap \<Rightarrow> string option \<Rightarrow> string_list_result ub" where
  "jk_get_worker_bad_rating m h wname = worker_list BAD_RATING_OF_WORKER m h wname"

definition jk_get_lb_worker_list :: "string jk_map option \<Rightarrow> heap \<Rightarrow> string option \<Rightarrow> string_list_result ub" where
  "jk_get_lb_worker_list m h wname =
     do {
       (ok, out, m1, h1) \<leftarrow> worker_list BALANCE_WORKERS m h wname;
       if ok then Some (ok, out, m1, h1) else worker_list BALANCED_WORKERS_DEPRECATED m1 h1 wname
     }"

definition jk_get_worker_mount_list :: "string jk_map option \<Rightarrow> heap \<Rightarrow> string option \<Rightarrow> string_list_result ub" where
  "jk_get_worker_mount_list m h wname = worker_list MOUNT_OF_WORKER m h wname"

definition jk_get_worker_maintain_time :: "string jk_map \<Rightarrow> int ub" where
  "jk_get_worker_maintain_time m = jk_map_get_int m (Some WORKER_MAINTAIN_PROPERTY_NAME) DEFAULT_MAINTAIN_TIME"

definition jk_get_worker_mx :: "string jk_map option \<Rightarrow> string option \<Rightarrow> (bool \<times> u32 option) ub" where
  "jk_get_worker_mx m wname =
     worker_param PARAM_BUFFER_SIZE m wname MX_OF_WORKER (False, None) (\<lambda>mp buf.
       do {
         i \<leftarrow> jk_map_get_int mp (Some buf) (- 1);
         Some (if i \<noteq> - 1 then (True, Some (word_of_int i)) else (False, None))
       })"

definition jk_get_worker_ms :: "string jk_map option \<Rightarrow> string option \<Rightarrow> (bool \<times> u32 option) ub" where
  "jk_get_worker_ms m wname =
     worker_param PARAM_BUFFER_SIZE m wname MS_OF_WORKER (False, None) (\<lambda>mp buf.
       do {
         i \<leftarrow> jk_map_get_int mp (Some buf) (- 1);
         Some (if i \<noteq> - 1 then (True, Some (word_of_int i)) else (False, None))
       })"

definition jk_get_worker_classpath :: "string jk_map option \<Rightarrow> string option \<Rightarrow> (bool \<times> string option option) ub" where
  "jk_get_worker_classpath m wname = worker_string CP_OF_WORKER m wname"

definition jk_get_worker_bridge_type :: "string jk_map option \<Rightarrow> string option \<Rightarrow> (bool \<times> u32 option) ub" where
  "jk_get_worker_bridge_type m wname =
     worker_param PARAM_BUFFER_SIZE m wname BRIDGE_OF_WORKER (False, None) (\<lambda>mp buf.
       do {
         ty \<leftarrow> jk_map_get_string mp (Some buf) None;
         (case ty of
            None \<Rightarrow> Some (False, None)
          | Some t \<Rightarrow>
              Some (True,
                if c_strcasecmp_eq t TOMCAT32_BRIDGE_NAME then Some TC32_BRIDGE_TYPE
                else if c_strcasecmp_eq t TOMCAT33_BRIDGE_NAME then Some TC33_BRIDGE_TYPE
                else if c_strcasecmp_eq t TOMCAT40_BRIDGE_NAME then Some TC40_BRIDGE_TYPE
                else if c_strcasecmp_eq t TOMCAT41_BRIDGE_NAME then Some TC41_BRIDGE_TYPE
                else if c_strcasecmp_eq t TOMCAT50_BRIDGE_NAME then Some TC50_BRIDGE_TYPE
                else None))
       })"

definition jk_get_worker_jvm_path :: "string jk_map option \<Rightarrow> string option \<Rightarrow> (bool \<times> string option option) ub" where
  "jk_get_worker_jvm_path m wname = worker_string JVM_OF_WORKER m wname"

definition jk_get_worker_callback_dll :: "string jk_map option \<Rightarrow> string option \<Rightarrow> (bool \<times> string option option) ub" where
  "jk_get_worker_callback_dll m wname = worker_string NATIVE_LIB_OF_WORKER m wname"

definition jk_get_worker_cmd_line :: "string jk_map option \<Rightarrow> string option \<Rightarrow> (bool \<times> string option option) ub" where
  "jk_get_worker_cmd_line m wname = worker_string CMD_LINE_OF_WORKER m wname"

definition jk_get_worker_stdout :: "string jk_map option \<Rightarrow> string option \<Rightarrow> (bool \<times> string option option) ub" where
  "jk_get_worker_stdout m wname = worker_string STDOUT_OF_WORKER m wname"

definition jk_get_worker_stderr :: "string jk_map option \<Rightarrow> string option \<Rightarrow> (bool \<times> string option option) ub" where
  "jk_get_worker_stderr m wname = worker_string STDERR_OF_WORKER m wname"

definition jk_get_worker_sysprops :: "string jk_map option \<Rightarrow> string option \<Rightarrow> (bool \<times> string option option) ub" where
  "jk_get_worker_sysprops m wname = worker_string SYSPROPS_OF_WORKER m wname"

definition jk_get_worker_libpath :: "string jk_map option \<Rightarrow> string option \<Rightarrow> (bool \<times> string option option) ub" where
  "jk_get_worker_libpath m wname = worker_string LIBPATH_OF_WORKER m wname"

definition jk_get_lb_session_cookie :: "string jk_map option \<Rightarrow> string option \<Rightarrow> string option \<Rightarrow> string option ub" where
  "jk_get_lb_session_cookie m wname dflt =
     worker_param PARAM_BUFFER_SIZE m wname SESSION_COOKIE_OF_WORKER None (\<lambda>mp buf. jk_map_get_string mp (Some buf) dflt)"

definition jk_get_lb_session_path :: "string jk_map option \<Rightarrow> string option \<Rightarrow> string option \<Rightarrow> string option ub" where
  "jk_get_lb_session_path m wname dflt =
     worker_param PARAM_BUFFER_SIZE m wname SESSION_PATH_OF_WORKER None (\<lambda>mp buf. jk_map_get_string mp (Some buf) dflt)"

definition jk_get_lb_set_session_cookie :: "string jk_map option \<Rightarrow> string option \<Rightarrow> int \<Rightarrow> int ub" where
  "jk_get_lb_set_session_cookie m wname dflt =
     worker_param PARAM_BUFFER_SIZE m wname SET_SESSION_COOKIE dflt (\<lambda>mp buf. jk_map_get_bool mp (Some buf) dflt)"

definition jk_get_lb_session_cookie_path :: "string jk_map option \<Rightarrow> string option \<Rightarrow> string option \<Rightarrow> string option ub" where
  "jk_get_lb_session_cookie_path m wname dflt =
     worker_param PARAM_BUFFER_SIZE m wname SESSION_COOKIE_PATH_OF_WORKER None (\<lambda>mp buf. jk_map_get_string mp (Some buf) dflt)"

section \<open>Other functions\<close>

definition jk_get_bool :: "int \<Rightarrow> string" where
  "jk_get_bool v = (if v = 0 then ''False'' else ''True'')"

fun status_fail_loop :: "int list \<Rightarrow> int \<Rightarrow> int \<Rightarrow> nat list \<Rightarrow> int ub" where
  "status_fail_loop http_status_fail status soft_status [] = Some 0"
| "status_fail_loop http_status_fail status soft_status (i # is) =
     do {
       v \<leftarrow> rd http_status_fail i;
       if v = status then Some 1
       else if v = soft_status then Some (- 1)
       else status_fail_loop http_status_fail status soft_status is
     }"

definition is_http_status_fail :: "u32 \<Rightarrow> int list \<Rightarrow> int \<Rightarrow> int ub" where
  "is_http_status_fail http_status_fail_num http_status_fail status =
     do {
       guard (int_range (- 1 * status));
       status_fail_loop http_status_fail status (- 1 * status) [0..<unat http_status_fail_num]
     }"

text \<open>\<open>jk_parse_sysprops\<close>: the pieces of the copy between the stars, then a null pointer.\<close>

definition jk_parse_sysprops :: "mem \<Rightarrow> string option \<Rightarrow> (string option list option \<times> mem) ub" where
  "jk_parse_sysprops p sysprops =
     (case sysprops of
        None \<Rightarrow> Some (None, p)
      | Some s \<Rightarrow>
          do {
            (prps, p1) \<leftarrow> jk_pool_strdup p (Some s);
            (case prps of
               None \<Rightarrow> Some (None, p1)
             | Some t \<Rightarrow>
                 if t = [] then Some (None, p1)
                 else
                   let num_of_prps = (1 + of_nat (length (filter (\<lambda>c. c = CHR ''*'') s)) :: u32) in
                   do {
                     (rc, p2) \<leftarrow> jk_pool_alloc p1 (ucast (num_of_prps + 1) * 8);
                     if rc = None then Some (None, p2)
                     else
                       let toks = take (unat num_of_prps) (tokens (\<lambda>c. c = CHR ''*'') t) in
                       do { guard (length toks < unat (num_of_prps + 1)); Some (Some (map Some toks @ [None]), p2) }
                   })
          })"

section \<open>The theorems\<close>

definition worker_key :: "string \<Rightarrow> string \<Rightarrow> string" where
  "worker_key w P = ''worker.'' @ w @ ''.'' @ P"

lemma param_size: "PARAM_BUFFER_SIZE = 99"
  by (simp add: PARAM_BUFFER_SIZE_def JK_MAX_NAME_LEN_def JK_MAX_ATTRIBUTE_NAME_LEN_def)

lemma strncat_result: "c_strncat cap buf s n =
    (if length buf + min (length s) (unat n) < cap then Some (buf @ take (unat n) s) else None)"
  by (simp add: c_strncat_def Let_def guard_def)

lemma make_param:
  "MAKE_WORKER_PARAM PARAM_BUFFER_SIZE w P =
     (if length w + length P \<le> 90 then Some (''worker.'' @ w @ ''.'' @ P) else None)"
proof -
  let ?r = "92 - of_nat (length w) :: u64"
  have first: "c_strncat 99 ''worker.'' w 92 = (if length w \<le> 91 then Some (''worker.'' @ w) else None)"
    by (auto simp: strncat_result)
  have r1: "unat ?r = 92 - length w" "unat (91 - of_nat (length w) :: u64) = 91 - length w" if "length w \<le> 91"
  proof -
    have w: "unat (of_nat (length w) :: u64) = length w" using that by (simp add: unat_u64_of_nat)
    show "unat ?r = 92 - length w" using that w by (simp add: unat_sub word_le_nat_alt)
    show "unat (91 - of_nat (length w) :: u64) = 91 - length w" using that w by (simp add: unat_sub word_le_nat_alt)
  qed
  show ?thesis
  proof (cases "length w \<le> 91")
    case True
    then have "min 1 (92 - length w) = 1" by simp
    with True show ?thesis by (simp add: MAKE_WORKER_PARAM_def Let_def param_size first strncat_result r1) arith?
  next
    case False
    then show ?thesis by (simp add: MAKE_WORKER_PARAM_def Let_def param_size first)
  qed
qed

lemma worker_param_simps [simp]:
  "worker_param cap None w P d f = Some d" "worker_param cap m None P d f = Some d"
  by (simp_all add: worker_param_def split: option.split)

lemma worker_param_key:
  assumes "jk_check_attribute_length w" and "length P \<le> 30"
  shows "worker_param PARAM_BUFFER_SIZE (Some m) (Some w) P d f = f m (worker_key w P)"
proof -
  have "length w + length P \<le> 90" using assms by (simp add: jk_check_attribute_length_def JK_MAX_NAME_LEN_def split: if_splits)
  then show ?thesis using make_param by (simp add: worker_param_def worker_key_def)
qed

text \<open>Claim C32: the key is built exactly when worker name and attribute have at most 90 bytes together. A longer
  pair overflows the buffer of \<open>PARAM_BUFFER_SIZE\<close> bytes: the bounds given to \<open>strncat\<close> leave no byte for
  the terminator, so they never cut the key before the buffer is full.\<close>

theorem worker_param_exact:
  "MAKE_WORKER_PARAM PARAM_BUFFER_SIZE w P =
     (if length w + length P \<le> 90 then Some (''worker.'' @ w @ ''.'' @ P) else None)"
  by (rule make_param)

lemma get_int_value:
  assumes "map_wf m" and "int_range d" and "map_of (entries m) name = map_option (\<lambda>n. Some (c_itoa n)) cfg"
    and "pred_option int_range cfg"
  shows "jk_map_get_int m (Some name) d = Some (case cfg of None \<Rightarrow> d | Some n \<Rightarrow> n)"
proof -
  let ?v = "case cfg of None \<Rightarrow> d | Some n \<Rightarrow> n"
  have "jk_map_get_string m (Some name) (Some (c_itoa d)) = Some (Some (c_itoa ?v))"
    using assms by (simp add: jk_map_get_string_is_get jk_map_get_spec split: option.splits)
  moreover have "last (c_itoa ?v) \<notin> set ''mMkK''" "c_itoa ?v \<noteq> []" using itoa_last digit_not_special by blast+
  moreover have "int_range ?v" using assms by (auto split: option.splits)
  ultimately show ?thesis using atoi_itoa [of ?v] by (simp add: jk_map_get_int_def Let_def)
qed

text \<open>The readers of plain numbers with the attributes they are documented to read.\<close>

definition int_readers :: "(string \<times> (string jk_map option \<Rightarrow> string option \<Rightarrow> int \<Rightarrow> int ub)) list" where
  "int_readers =
     [(''port'', jk_get_worker_port), (''connection_pool_minsize'', jk_get_worker_cache_size_min),
      (''connection_acquire_timeout'', jk_get_worker_cache_acquire_timeout),
      (''socket_timeout'', jk_get_worker_socket_timeout),
      (''socket_connect_timeout'', jk_get_worker_socket_connect_timeout),
      (''recover_time'', jk_get_worker_recover_timeout),
      (''error_escalation_time'', jk_get_worker_error_escalation_time),
      (''max_reply_timeouts'', jk_get_worker_max_reply_timeouts),
      (''retry_interval'', jk_get_worker_retry_interval), (''busy_limit'', jk_get_worker_busy_limit),
      (''connection_ping_interval'', jk_get_worker_conn_ping_interval),
      (''connect_timeout'', jk_get_worker_connect_timeout), (''prepost_timeout'', jk_get_worker_prepost_timeout),
      (''ping_timeout'', jk_get_worker_ping_timeout), (''reply_timeout'', jk_get_worker_reply_timeout),
      (''recovery_options'', jk_get_worker_recovery_opts),
      (''lbfactor'', \<lambda>m w d. jk_get_lb_factor m w), (''distance'', \<lambda>m w d. jk_get_distance m w)]"

lemmas int_reader_defs = jk_get_worker_port_def jk_get_worker_cache_size_min_def jk_get_worker_cache_acquire_timeout_def
  jk_get_worker_socket_timeout_def jk_get_worker_socket_connect_timeout_def jk_get_worker_recover_timeout_def
  jk_get_worker_error_escalation_time_def jk_get_worker_max_reply_timeouts_def jk_get_worker_retry_interval_def
  jk_get_worker_busy_limit_def jk_get_worker_conn_ping_interval_def jk_get_worker_connect_timeout_def
  jk_get_worker_prepost_timeout_def jk_get_worker_ping_timeout_def jk_get_worker_reply_timeout_def
  jk_get_worker_recovery_opts_def jk_get_lb_factor_def jk_get_distance_def

definition reader_default :: "string \<Rightarrow> int \<Rightarrow> int" where
  "reader_default P d = (if P = ''lbfactor'' then 1 else if P = ''distance'' then 0 else d)"

lemma int_readers_shape:
  "list_all (\<lambda>(P, r). length P \<le> 30 \<and> (\<forall>m w d. r m w d =
     worker_param PARAM_BUFFER_SIZE m w P (reader_default P d) (\<lambda>mp buf. jk_map_get_int mp (Some buf) (reader_default P d))))
   int_readers"
  by (simp add: int_readers_def int_reader_defs reader_default_def DEFAULT_LB_FACTOR_def DEFAULT_DISTANCE_def)



lemma and_not_mask_int: "and x (not (2 ^ n - 1)) = x - x mod 2 ^ n" for x :: int
proof -
  have "and x (not (mask n)) = push_bit n (drop_bit n x)"
    by (rule bit_eqI) (auto simp: bit_simps)
  also have "\<dots> = x - x mod 2 ^ n"
    by (simp add: push_bit_eq_mult drop_bit_eq_div minus_mod_eq_div_mult)
  finally show ?thesis by (simp add: mask_eq_exp_minus_1)
qed

text \<open>Whatever number is configured as \<open>max_packet_size\<close>, the packet size is a multiple of 1024 between
  8192 and 65536; it is at least the configured number when that is allowed, and less than 1024 bytes
  above it unless the minimum applies.\<close>

theorem max_packet_size_bounds:
  assumes "map_wf m" and "jk_check_attribute_length w"
    and "map_of (entries m) (''worker.'' @ w @ ''.max_packet_size'') = map_option (\<lambda>n. Some (c_itoa n)) cfg"
    and "pred_option (\<lambda>n. int_range n \<and> int_range (n + 1023)) cfg"
  shows "\<exists>sz. jk_get_max_packet_size (Some m) (Some w) = Some sz \<and>
     AJP13_DEF_PACKET_SIZE \<le> sz \<and> sz \<le> AJP13_MAX_PACKET_SIZE \<and> sz mod AJP13_PACKET_SIZE_ALIGN = 0 \<and>
     (case cfg of None \<Rightarrow> sz = AJP13_DEF_PACKET_SIZE
      | Some n \<Rightarrow> (n \<le> AJP13_MAX_PACKET_SIZE \<longrightarrow> n \<le> sz) \<and> (AJP13_DEF_PACKET_SIZE \<le> n \<longrightarrow> sz < n + AJP13_PACKET_SIZE_ALIGN))"
proof -
  note c = AJP13_DEF_PACKET_SIZE_def AJP13_MAX_PACKET_SIZE_def AJP13_PACKET_SIZE_ALIGN_def
  let ?v = "case cfg of None \<Rightarrow> AJP13_DEF_PACKET_SIZE | Some n \<Rightarrow> n"
  define v where "v = ?v"
  define s where "s = (v + 1023) - (v + 1023) mod 1024"
  let ?sz = "if s < AJP13_DEF_PACKET_SIZE then AJP13_DEF_PACKET_SIZE
      else if s > AJP13_MAX_PACKET_SIZE then AJP13_MAX_PACKET_SIZE else s"
  have "pred_option int_range cfg" using assms(4) by (cases cfg) auto
  with assms(3) have v: "jk_map_get_int m (Some (worker_key w WORKER_MAX_PACKET_SIZE)) AJP13_DEF_PACKET_SIZE = Some v"
    unfolding v_def by (intro get_int_value [OF assms(1)]) (simp_all add: worker_key_def int_range_def c)
  have "int_range (v + 1023)" using assms(4) by (cases cfg) (simp_all add: int_range_def c v_def)
  then have "jk_get_max_packet_size (Some m) (Some w) = Some ?sz"
    using and_not_mask_int [of "v + 1023" 10]
    by (simp add: jk_get_max_packet_size_def worker_param_key [OF assms(2)] v AJP13_PACKET_SIZE_ALIGN_def s_def Let_def)
  moreover have "cfg = None \<Longrightarrow> s = 8192" by (simp add: s_def v_def c)
  moreover have "s mod 1024 = 0" "s \<le> v + 1023" "v \<le> s"
    using pos_mod_bound [of 1024 "v + 1023"] pos_mod_sign [of 1024 "v + 1023"] by (simp_all add: s_def mod_diff_eq)
  ultimately have "jk_get_max_packet_size (Some m) (Some w) = Some ?sz \<and> AJP13_DEF_PACKET_SIZE \<le> ?sz \<and> ?sz \<le> AJP13_MAX_PACKET_SIZE \<and> ?sz mod AJP13_PACKET_SIZE_ALIGN = 0 \<and>
     (case cfg of None \<Rightarrow> ?sz = AJP13_DEF_PACKET_SIZE
      | Some n \<Rightarrow> (n \<le> AJP13_MAX_PACKET_SIZE \<longrightarrow> n \<le> ?sz) \<and> (AJP13_DEF_PACKET_SIZE \<le> n \<longrightarrow> ?sz < n + AJP13_PACKET_SIZE_ALIGN))"
    by (cases cfg) (simp_all add: c v_def)
  then show ?thesis by (rule exI [of _ ?sz])
qed

theorem max_packet_size_bounds_witness:
  "\<exists>sz. jk_get_max_packet_size (Some demo_map) (Some ''node1'') = Some sz \<and> sz = AJP13_DEF_PACKET_SIZE"
  using max_packet_size_bounds [of demo_map "''node1''" None]
  by (simp add: demo_map_wf jk_check_attribute_length_def JK_MAX_NAME_LEN_def)

end
