(* ===== verification/Jk_Ajp_Conn.thy ===== *)
theory Jk_Ajp_Conn
  imports Jk_Msg Jk_Connect Jk_Config "HOL-Library.Multiset"
begin

text \<open>
  One AJP connection (\<open>jk_ajp_common.c\<close>): the endpoint with its socket, aborting it, framed messages and
  the CPING/CPONG check. The statistics of the worker in shared memory are a record that is passed
  along; the memory pool of the endpoint is the subject of the pool theory and not repeated
  here: where the code allocates a message from it, the message is an argument, null when the allocation
  failed. \<open>last_errno\<close>, which is only logged, is left out.
\<close>

section \<open>State\<close>

definition AJP13_PROTO :: int where
  "AJP13_PROTO = 13"

definition AJP13_WS_HEADER :: int where
  "AJP13_WS_HEADER = 0x1234"

definition AJP13_SW_HEADER :: int where
  "AJP13_SW_HEADER = 0x4142"

definition AJP14_WS_HEADER :: int where
  "AJP14_WS_HEADER = 0x1235"

definition AJP14_SW_HEADER :: int where
  "AJP14_SW_HEADER = 0x1235"

definition AJP_HEADER_LEN :: nat where
  "AJP_HEADER_LEN = 4"

definition JK_FATAL_ERROR :: int where
  "JK_FATAL_ERROR = - 3"

definition JK_AJP_PROTOCOL_ERROR :: int where
  "JK_AJP_PROTOCOL_ERROR = - 11"

definition JK_AJP13_SEND_BODY_CHUNK :: u8 where
  "JK_AJP13_SEND_BODY_CHUNK = 3"

definition JK_AJP13_END_RESPONSE :: u8 where
  "JK_AJP13_END_RESPONSE = 5"

definition AJP13_CPONG_REPLY :: u8 where
  "AJP13_CPONG_REPLY = 9"

definition AJP13_CPING_REQUEST :: u8 where
  "AJP13_CPING_REQUEST = 10"

text \<open>The record of an AJP worker in shared memory: the configuration mirrored there and the statistics.\<close>

record jk_shm_ajp_worker =
  sa_sequence :: u32
  sa_host :: string
  sa_port :: int
  sa_addr_sequence :: int
  sa_cache_timeout :: int
  sa_connect_timeout :: int
  sa_ping_timeout :: int
  sa_reply_timeout :: int
  sa_prepost_timeout :: int
  sa_recovery_opts :: u32
  sa_retries :: int
  sa_retry_interval :: int
  sa_busy_limit :: int
  sa_max_packet_size :: u32
  sa_state :: int
  sa_connected :: int
  sa_max_connected :: int
  sa_busy :: int
  sa_used :: u64
  sa_used_snapshot :: u64
  sa_reply_timeouts :: u32
  sa_max_busy :: int
  sa_error_time :: int
  sa_readed :: u64
  sa_transferred :: u64
  sa_errors :: u32
  sa_client_errors :: u32

record ajp_endpoint =
  ae_proto :: int
  ae_sd :: int
  ae_reuse :: bool
  ae_avail :: bool
  ae_hard_close :: bool
  ae_rd :: u64
  ae_wr :: u64
  ae_last_access :: int
  ae_last_op :: u8
  ae_addr_sequence :: int
  ae_left_bytes_to_send :: u64

type_synonym ep_state = "ajp_endpoint \<times> jk_shm_ajp_worker \<times> world"

text \<open>\<open>JK_ATOMIC_DECREMENT\<close> undoes a decrement below zero.\<close>

definition JK_ATOMIC_DECREMENT :: "int \<Rightarrow> int" where
  "JK_ATOMIC_DECREMENT x = (if x - 1 < 0 then x - 1 + 1 else x - 1)"

definition dec_connected :: "jk_shm_ajp_worker \<Rightarrow> jk_shm_ajp_worker" where
  "dec_connected s = s\<lparr>sa_connected := JK_ATOMIC_DECREMENT (sa_connected s)\<rparr>"

section \<open>Aborting and resetting\<close>

definition ajp_abort_endpoint :: "ep_state \<Rightarrow> bool \<Rightarrow> ep_state" where
  "ajp_abort_endpoint st shutdown =
     (case st of (ae, s, w) \<Rightarrow>
        if IS_VALID_SOCKET (ae_sd ae) then
          (ae\<lparr>ae_sd := JK_INVALID_SOCKET, ae_last_op := JK_AJP13_END_RESPONSE\<rparr>, dec_connected s,
           if shutdown then
             (if ae_hard_close ae then jk_close_socket w (ae_sd ae) else jk_shutdown_socket w (ae_sd ae))
           else w)
        else (ae\<lparr>ae_last_op := JK_AJP13_END_RESPONSE\<rparr>, s, w))"

definition ajp_reset_endpoint :: "ep_state \<Rightarrow> ep_state" where
  "ajp_reset_endpoint st = (if \<not> ae_reuse (fst st) then ajp_abort_endpoint st True else st)"

text \<open>\<open>ajp_close_endpoint\<close>: the endpoint itself is freed.\<close>

definition ajp_close_endpoint :: "ep_state \<Rightarrow> jk_shm_ajp_worker \<times> world" where
  "ajp_close_endpoint st =
     (case st of (ae, s, w) \<Rightarrow>
        if IS_VALID_SOCKET (ae_sd ae) then (dec_connected s, jk_shutdown_socket w (ae_sd ae)) else (s, w))"

section \<open>Messages\<close>

definition ajp_connection_tcp_send_message :: "ep_state \<Rightarrow> jk_msg_buf \<Rightarrow> (int \<times> jk_msg_buf \<times> ep_state) ub" where
  "ajp_connection_tcp_send_message st msg =
     (case st of (ae, s, w) \<Rightarrow>
        if ae_proto ae \<noteq> AJP13_PROTO \<and> ae_proto ae \<noteq> AJP14_PROTO
        then Some (JK_FATAL_ERROR, msg, ajp_abort_endpoint (ae, s, w) True)
        else do {
          msg' \<leftarrow> jk_b_end msg (if ae_proto ae = AJP13_PROTO then AJP13_WS_HEADER else AJP14_WS_HEADER);
          guard (nat (mb_len msg') \<le> length (mb_buf msg'));
          let (rc, w') = jk_tcp_socket_sendfull w (ae_sd ae) (take (nat (mb_len msg')) (mb_buf msg')) in
          if rc > 0 then Some (1, msg', ae\<lparr>ae_wr := ae_wr ae + word_of_int rc\<rparr>, s, w')
          else Some (0, msg', ajp_abort_endpoint (ae, s, w') False)
        })"

definition ajp_connection_tcp_get_message :: "ep_state \<Rightarrow> jk_msg_buf \<Rightarrow> (int \<times> jk_msg_buf \<times> ep_state) ub" where
  "ajp_connection_tcp_get_message st msg =
     (case st of (ae, s, w) \<Rightarrow>
        let (rc, head, w1) = jk_tcp_socket_recvfull w (ae_sd ae) AJP_HEADER_LEN
        in
        if rc < 0 then Some (0, msg, ajp_abort_endpoint (ae, s, w1) False)
        else do {
          h0 \<leftarrow> rd head 0; h1 \<leftarrow> rd head 1; h2 \<leftarrow> rd head 2; h3 \<leftarrow> rd head 3;
          let ae1 = ae\<lparr>ae_rd := ae_rd ae + word_of_int rc\<rparr>;
              header = uint h0 * 256 + uint h1;
              msglen = uint h2 * 256 + uint h3
          in
          if ae_proto ae = AJP13_PROTO \<and> header \<noteq> AJP13_SW_HEADER
             \<or> ae_proto ae = AJP14_PROTO \<and> header \<noteq> AJP14_SW_HEADER
          then Some (JK_AJP_PROTOCOL_ERROR, msg, ajp_abort_endpoint (ae1, s, w1) True)
          else if msglen > mb_maxlen msg
          then Some (JK_AJP_PROTOCOL_ERROR, msg, ajp_abort_endpoint (ae1, s, w1) True)
          else
            let msg1 = msg\<lparr>mb_len := msglen, mb_pos := 0\<rparr>;
                (rc2, body, w2) = jk_tcp_socket_recvfull w1 (ae_sd ae) (nat msglen)
            in do {
              b \<leftarrow> poke (mb_buf msg1) 0 body;
              if rc2 < 0 then Some (JK_AJP_PROTOCOL_ERROR, msg1\<lparr>mb_buf := b\<rparr>, ajp_abort_endpoint (ae1, s, w2) False)
              else Some (1, msg1\<lparr>mb_buf := b\<rparr>, ae1\<lparr>ae_rd := ae_rd ae1 + word_of_int rc2\<rparr>, s, w2)
            }
        })"

section \<open>CPING and CPONG\<close>

text \<open>The loop over at most two packets: \<open>i\<close> is the number of packets already dropped.\<close>

fun cpong_loop :: "nat \<Rightarrow> nat \<Rightarrow> ep_state \<Rightarrow> jk_msg_buf \<Rightarrow> (bool \<times> ep_state) ub" where
  "cpong_loop 0 i st msg = Some (True, st)"
| "cpong_loop (Suc n) i (ae, s, w) msg =
     (let (ready, w1) = c_poll w (ae_sd ae) in
      if \<not> ready then Some (False, ajp_abort_endpoint (ae, s, w1) True)
      else do {
        (rc, msg1, ae1, s1, w2) \<leftarrow> ajp_connection_tcp_get_message (ae, s, w1) msg;
        if rc \<noteq> 1 then Some (False, ae1, s1, w2)
        else do {
          (cmd, msg2) \<leftarrow> jk_b_get_byte msg1;
          if cmd \<noteq> AJP13_CPONG_REPLY then
            if i \<noteq> 0 \<or> ae_last_op ae1 = JK_AJP13_END_RESPONSE \<or> cmd < JK_AJP13_SEND_BODY_CHUNK
               \<or> cmd > AJP13_CPONG_REPLY
            then Some (False, ajp_abort_endpoint (ae1, s1, w2) True)
            else cpong_loop n (i + 1) (ae1, s1, w2) msg2
          else Some (True, ae1\<lparr>ae_last_op := AJP13_CPONG_REPLY\<rparr>, s1, w2)
        }
      })"

text \<open>The message is the one allocated from the endpoint's pool, with a buffer of 16 bytes, or null.\<close>

definition ajp_handle_cping_cpong :: "ep_state \<Rightarrow> jk_msg_buf option \<Rightarrow> (bool \<times> ep_state) ub" where
  "ajp_handle_cping_cpong st msg =
     (case msg of
        None \<Rightarrow> Some (False, st)
      | Some m \<Rightarrow>
          do {
            (_, m1) \<leftarrow> jk_b_append_byte (jk_b_reset m) AJP13_CPING_REQUEST;
            (rc, m2, st2) \<leftarrow> ajp_connection_tcp_send_message st m1;
            if rc \<noteq> 1 then Some (False, st2)
            else cpong_loop 2 0 st2 m2
          })"

section \<open>Connecting\<close>

text \<open>\<open>jk_open_socket\<close> gives the descriptor \<open>sd\<close>, invalid when it fails. The login of an AJP14 worker is
  the argument \<open>logon\<close>; \<open>cache_timeout\<close> and \<open>connect_timeout\<close> are those of the worker.\<close>

definition ajp_connect_to_endpoint :: "ep_state \<Rightarrow> int \<Rightarrow> int \<Rightarrow> int \<Rightarrow> int
     \<Rightarrow> (ep_state \<Rightarrow> (bool \<times> ep_state) ub) option \<Rightarrow> jk_msg_buf option \<Rightarrow> (bool \<times> ep_state) ub" where
  "ajp_connect_to_endpoint st sd now cache_timeout connect_timeout logon msg =
     (case st of (ae, s, w) \<Rightarrow>
        let ae1 = ae\<lparr>ae_sd := sd\<rparr> in
        if \<not> IS_VALID_SOCKET sd then Some (False, ae1, s, w)
        else
          let connected = sa_connected s + 1;
              s1 = s\<lparr>sa_connected := connected,
                     sa_max_connected := (if connected > sa_max_connected s then connected else sa_max_connected s)\<rparr>;
              ae2 = (if cache_timeout > 0 then ae1\<lparr>ae_last_access := now\<rparr> else ae1)
          in
          (case logon of
             Some f \<Rightarrow>
               do {
                 (rc, st1) \<leftarrow> f (ae2, s1, w);
                 if \<not> rc then Some (False, ajp_abort_endpoint st1 True) else Some (True, st1)
               }
           | None \<Rightarrow>
               if connect_timeout > 0 then ajp_handle_cping_cpong (ae2, s1, w) msg
               else Some (True, ae2, s1, w)))"

section \<open>Conservation of descriptors\<close>

text \<open>The descriptors an endpoint holds together with those already closed, and whether it holds one.\<close>

definition held :: "ajp_endpoint \<Rightarrow> int multiset" where
  "held ae = (if IS_VALID_SOCKET (ae_sd ae) then {#ae_sd ae#} else {#})"

definition closed_sds :: "world \<Rightarrow> int multiset" where
  "closed_sds w = mset (w_closed w)"

text \<open>What every operation on an endpoint keeps: a descriptor is held or closed, once; the counter of
  open connections follows; the endpoint stays with its owner.\<close>

definition ep_kept :: "ep_state \<Rightarrow> ep_state \<Rightarrow> bool" where
  "ep_kept st st' \<longleftrightarrow>
     (case (st, st') of ((ae, s, w), (ae', s', w')) \<Rightarrow>
        held ae' + closed_sds w' = held ae + closed_sds w \<and>
        (held ae' = held ae \<or> held ae' = {#}) \<and>
        (int (size (held ae)) \<le> sa_connected s \<longrightarrow>
           sa_connected s' - int (size (held ae')) = sa_connected s - int (size (held ae))) \<and>
        ae_avail ae' = ae_avail ae \<and> ae_proto ae' = ae_proto ae \<and> sa_addr_sequence s' = sa_addr_sequence s)"

lemma ep_kept_refl [simp, intro]: "ep_kept st st"
  by (simp add: ep_kept_def split: prod.split)

lemma ep_kept_trans: "ep_kept a b \<Longrightarrow> ep_kept b c \<Longrightarrow> ep_kept a c"
  by (auto simp: ep_kept_def split: prod.splits)

lemma world_closed [simp]:
  "closed_sds (set_rx w sd es) = closed_sds w" "closed_sds (pushed w sd tx bs) = closed_sds w"
  "closed_sds (snd (c_poll w sd)) = closed_sds w"
  "closed_sds (jk_shutdown_socket w sd) = closed_sds w + (if IS_VALID_SOCKET sd then {#sd#} else {#})"
  "closed_sds (jk_close_socket w sd) = closed_sds w + (if IS_VALID_SOCKET sd then {#sd#} else {#})"
  by (simp_all add: closed_sds_def set_rx_def pushed_def upd_conn_def c_poll_def jk_close_socket_def split: list.split)

lemma invalid_socket [simp]: "\<not> IS_VALID_SOCKET JK_INVALID_SOCKET"
  by (simp add: IS_VALID_SOCKET_def JK_INVALID_SOCKET_def)

lemma dec_connected_sel [simp]:
  "1 \<le> sa_connected s \<Longrightarrow> sa_connected (dec_connected s) = sa_connected s - 1"
  "sa_addr_sequence (dec_connected s) = sa_addr_sequence s"
  by (simp_all add: dec_connected_def JK_ATOMIC_DECREMENT_def)

lemma held_upd [simp]:
  "held (ae\<lparr>ae_rd := a\<rparr>) = held ae" "held (ae\<lparr>ae_wr := a\<rparr>) = held ae" "held (ae\<lparr>ae_last_op := c\<rparr>) = held ae"
  "held (ae\<lparr>ae_last_access := t\<rparr>) = held ae" "held (ae\<lparr>ae_avail := b\<rparr>) = held ae" "held (ae\<lparr>ae_reuse := b\<rparr>) = held ae"
  "held (ae\<lparr>ae_left_bytes_to_send := n\<rparr>) = held ae"
  "held (ae\<lparr>ae_addr_sequence := t\<rparr>) = held ae" "held (ae\<lparr>ae_hard_close := b\<rparr>) = held ae"
  by (simp_all add: held_def)

lemma abort_kept [jk_inv]: "ep_kept st (ajp_abort_endpoint st True)"
  by (auto simp: ep_kept_def ajp_abort_endpoint_def held_def split: prod.splits)

lemma reset_kept [jk_inv]: "ep_kept st (ajp_reset_endpoint st)"
  by (auto simp: ajp_reset_endpoint_def abort_kept)

text \<open>After a failed transfer the descriptor is closed already, and the endpoint only forgets it.\<close>

lemma abort_closed_kept:
  "ep_kept (ae, s, w) (ajp_abort_endpoint (ae', s, jk_shutdown_socket w' (ae_sd ae)) False)"
  if "closed_sds w' = closed_sds w" "ae_sd ae' = ae_sd ae" "ae_avail ae' = ae_avail ae" "ae_proto ae' = ae_proto ae"
  using that by (auto simp: ep_kept_def ajp_abort_endpoint_def held_def)

section \<open>Messages\<close>

lemma send_message_kept:
  assumes "ajp_connection_tcp_send_message st msg = Some (rc, msg', st')" and "0 < mb_len msg"
  shows "ep_kept st st'"
proof -
  obtain ae s w where st: "st = (ae, s, w)" by (cases st)
  show ?thesis
  proof (cases "ae_proto ae \<noteq> AJP13_PROTO \<and> ae_proto ae \<noteq> AJP14_PROTO")
    case True
    then show ?thesis using assms st abort_kept by (auto simp: ajp_connection_tcp_send_message_def)
  next
    case False
    then obtain m where m: "jk_b_end msg (if ae_proto ae = AJP13_PROTO then AJP13_WS_HEADER else AJP14_WS_HEADER) = Some m"
        "nat (mb_len m) \<le> length (mb_buf m)"
      using assms(1) st by (auto simp: ajp_connection_tcp_send_message_def ub_simps)
    have len: "mb_len m = mb_len msg" using m(1) by (auto simp: jk_b_end_def Let_def ub_simps)
    let ?b = "take (nat (mb_len m)) (mb_buf m)"
    have b: "int (length ?b) > 0" using m(2) len assms(2) by simp
    have eq: "ajp_connection_tcp_send_message st msg =
        (case jk_tcp_socket_sendfull w (ae_sd ae) ?b of (r, w') \<Rightarrow>
           if r > 0 then Some (1, m, ae\<lparr>ae_wr := ae_wr ae + word_of_int r\<rparr>, s, w')
           else Some (0, m, ajp_abort_endpoint (ae, s, w') False))"
      using st m False by (simp add: ajp_connection_tcp_send_message_def Let_def) blast
    from sendfull_spec [of w "ae_sd ae" ?b] show ?thesis
    proof (elim disjE conjE)
      assume "sent_all w (ae_sd ae) ?b 0 (jk_tcp_socket_sendfull w (ae_sd ae) ?b)"
      then obtain tx where "jk_tcp_socket_sendfull w (ae_sd ae) ?b = (int (length ?b), pushed w (ae_sd ae) tx ?b)"
        by (auto simp: sent_all_def)
      then have "st' = (ae\<lparr>ae_wr := ae_wr ae + word_of_int (int (length ?b))\<rparr>, s, pushed w (ae_sd ae) tx ?b)"
        using assms(1) b unfolding eq by auto
      then show ?thesis by (simp add: st ep_kept_def)
    next
      assume "sent_part w (ae_sd ae) ?b 0 (jk_tcp_socket_sendfull w (ae_sd ae) ?b)"
      then obtain r tx k where "r < 0"
          "jk_tcp_socket_sendfull w (ae_sd ae) ?b = (r, jk_shutdown_socket (pushed w (ae_sd ae) tx (take k ?b)) (ae_sd ae))"
        by (auto simp: sent_part_def)
      then show ?thesis using assms(1) abort_closed_kept [of "pushed w (ae_sd ae) tx (take k ?b)" w ae ae s]
        unfolding eq by (auto simp: st)
    qed
  qed
qed

text \<open>A frame on the wire: the magic number, the length and the payload.\<close>

definition ajp_frame :: "int \<Rightarrow> u8 list \<Rightarrow> u8 list" where
  "ajp_frame magic p =
     [word_of_int (magic div 256), word_of_int magic, word_of_int (int (length p) div 256), word_of_int (int (length p))] @ p"

lemma two_bytes:
  "uint (a :: u8) * 256 + uint (b :: u8) = n \<longleftrightarrow> 0 \<le> n \<and> n < 65536 \<and> a = word_of_int (n div 256) \<and> b = word_of_int n"
proof
  assume n: "uint a * 256 + uint b = n"
  have ab: "0 \<le> uint a" "uint a < 256" "0 \<le> uint b" "uint b < 256"
    using uint_bounded [of a] uint_bounded [of b] by simp_all
  have "n div 256 = uint a" "n mod 256 = uint b" using n ab by auto
  moreover have "word_of_int n = (word_of_int (n mod 256) :: u8)" by (simp add: word_of_int_eq_iff take_bit_eq_mod)
  moreover have "0 \<le> n" "n < 65536" using n ab by linarith+
  ultimately show "0 \<le> n \<and> n < 65536 \<and> a = word_of_int (n div 256) \<and> b = word_of_int n" by simp
next
  assume "0 \<le> n \<and> n < 65536 \<and> a = word_of_int (n div 256) \<and> b = word_of_int n"
  moreover from this have "n div 256 mod 256 = n div 256" by (intro mod_pos_pos_trivial) auto
  ultimately show "uint a * 256 + uint b = n" by (simp add: uint_word_of_int)
qed

definition sw_header :: "ajp_endpoint \<Rightarrow> int" where
  "sw_header ae = (if ae_proto ae = AJP13_PROTO then AJP13_SW_HEADER else AJP14_SW_HEADER)"

text \<open>What \<open>ajp_connection_tcp_get_message\<close> makes of the stream: the payload of the next frame, or a closed
  connection.\<close>

definition framed :: "ajp_endpoint \<Rightarrow> jk_msg_buf \<Rightarrow> u8 list \<Rightarrow> u8 list \<Rightarrow> u8 list \<Rightarrow> bool" where
  "framed ae msg stream p rest \<longleftrightarrow> stream = ajp_frame (sw_header ae) p @ rest \<and> length p < 65536 \<and> int (length p) \<le> mb_maxlen msg"

lemma framed_iff:
  "framed ae msg (h0 # h1 # h2 # h3 # t) p rest \<longleftrightarrow>
     uint h0 * 256 + uint h1 = sw_header ae \<and> uint h2 * 256 + uint h3 = int (length p) \<and> t = p @ rest \<and>
     int (length p) \<le> mb_maxlen msg"
proof -
  have "0 \<le> sw_header ae" "sw_header ae < 65536"
    by (simp_all add: sw_header_def AJP13_SW_HEADER_def AJP14_SW_HEADER_def)
  then show ?thesis by (auto simp: framed_def ajp_frame_def two_bytes)
qed

lemma abort_held [simp]: "held (fst (ajp_abort_endpoint st sh)) = {#}"
  by (simp add: ajp_abort_endpoint_def held_def split: prod.splits)

lemma recvfull_cases:
  obtains (whole) es where "n \<le> length (pending w sd)" "rx_stream es = drop n (pending w sd)"
      "jk_tcp_socket_recvfull w sd n = (int n, take n (pending w sd), set_rx w sd es)"
  | (short) rc es where "length (pending w sd) < n" "rc < 0"
      "jk_tcp_socket_recvfull w sd n = (rc, pending w sd, jk_shutdown_socket (set_rx w sd es) sd)"
  using recvfull_spec [of w sd n] by (auto simp: received_def split: if_splits)

lemma get_message_head:
  assumes "ae_proto ae = AJP13_PROTO \<or> ae_proto ae = AJP14_PROTO"
    and "pending w (ae_sd ae) = h0 # h1 # h2 # h3 # t"
    and "jk_tcp_socket_recvfull w (ae_sd ae) 4 = (4, [h0, h1, h2, h3], w1)"
    and "n = uint h2 * 256 + uint h3" and "hdr = uint h0 * 256 + uint h1"
  shows "ajp_connection_tcp_get_message (ae, s, w) msg =
    (let ae1 = ae\<lparr>ae_rd := ae_rd ae + 4\<rparr> in
     if hdr \<noteq> sw_header ae \<or> n > mb_maxlen msg
     then Some (JK_AJP_PROTOCOL_ERROR, msg, ajp_abort_endpoint (ae1, s, w1) True)
     else
       let msg1 = msg\<lparr>mb_len := n, mb_pos := 0\<rparr>; (rc2, body, w2) = jk_tcp_socket_recvfull w1 (ae_sd ae) (nat n) in
       do {
         b \<leftarrow> poke (mb_buf msg1) 0 body;
         if rc2 < 0 then Some (JK_AJP_PROTOCOL_ERROR, msg1\<lparr>mb_buf := b\<rparr>, ajp_abort_endpoint (ae1, s, w2) False)
         else Some (1, msg1\<lparr>mb_buf := b\<rparr>, ae1\<lparr>ae_rd := ae_rd ae1 + word_of_int rc2\<rparr>, s, w2)
       })"
proof -
  have "AJP13_PROTO \<noteq> AJP14_PROTO" by (simp add: AJP13_PROTO_def AJP14_PROTO_def)
  then have "(ae_proto ae = AJP13_PROTO \<and> h \<noteq> AJP13_SW_HEADER \<or> ae_proto ae = AJP14_PROTO \<and> h \<noteq> AJP14_SW_HEADER) =
      (h \<noteq> sw_header ae)" for h
    using assms(1) by (auto simp: sw_header_def)
  then show ?thesis using assms(3) unfolding assms(4,5)
    by (simp add: ajp_connection_tcp_get_message_def AJP_HEADER_LEN_def rd_def Let_def)
qed

lemma get_message_cases:
  assumes "ae_proto ae = AJP13_PROTO \<or> ae_proto ae = AJP14_PROTO" and "mb_maxlen msg \<le> int (length (mb_buf msg))"
  shows "(\<exists>p rest es r. framed ae msg (pending w (ae_sd ae)) p rest \<and> rx_stream es = rest \<and>
        ajp_connection_tcp_get_message (ae, s, w) msg =
          Some (1, msg\<lparr>mb_len := int (length p), mb_pos := 0, mb_buf := splice (mb_buf msg) 0 p\<rparr>,
                ae\<lparr>ae_rd := r\<rparr>, s, set_rx w (ae_sd ae) es)) \<or>
     (\<not> (\<exists>p rest. framed ae msg (pending w (ae_sd ae)) p rest) \<and>
      (\<exists>rc m st'. rc \<le> 0 \<and> ajp_connection_tcp_get_message (ae, s, w) msg = Some (rc, m, st') \<and>
         ep_kept (ae, s, w) st' \<and> held (fst st') = {#}))" (is "?ok \<or> ?bad")
proof -
  have bad: ?thesis if "\<not> (\<exists>p rest. framed ae msg (pending w (ae_sd ae)) p rest)"
      "ajp_connection_tcp_get_message (ae, s, w) msg = Some (rc, m, ajp_abort_endpoint st sh)" "rc \<le> 0"
      "ep_kept (ae, s, w) (ajp_abort_endpoint st sh)" for rc m st sh
    using that abort_held by blast
  have err: "JK_AJP_PROTOCOL_ERROR \<le> 0" by (simp add: JK_AJP_PROTOCOL_ERROR_def)
  show ?thesis
  proof (cases rule: recvfull_cases [of 4 w "ae_sd ae"])
    case (short rc es)
    then have "\<not> (\<exists>p rest. framed ae msg (pending w (ae_sd ae)) p rest)" by (auto simp: framed_def ajp_frame_def)
    moreover have "ajp_connection_tcp_get_message (ae, s, w) msg =
        Some (0, msg, ajp_abort_endpoint (ae, s, jk_shutdown_socket (set_rx w (ae_sd ae) es) (ae_sd ae)) False)"
      using short by (simp add: ajp_connection_tcp_get_message_def AJP_HEADER_LEN_def)
    ultimately show ?thesis by (rule bad) (simp_all add: abort_closed_kept)
  next
    case (whole es)
    let ?sd = "ae_sd ae"
    obtain h0 h1 h2 h3 t where t: "pending w ?sd = h0 # h1 # h2 # h3 # t"
      using whole(1) by (auto simp: Suc_le_length_iff numeral_eq_Suc)
    define n where "n = uint h2 * 256 + uint h3"
    define hdr where "hdr = uint h0 * 256 + uint h1"
    let ?ae = "ae\<lparr>ae_rd := ae_rd ae + 4\<rparr>" and ?w1 = "set_rx w ?sd es"
    have n: "0 \<le> n" unfolding n_def using uint_bounded [of h2] uint_bounded [of h3] by simp
    have pend: "pending ?w1 ?sd = t" using whole(2) t by simp
    have "jk_tcp_socket_recvfull w ?sd 4 = (4, [h0, h1, h2, h3], ?w1)" using whole(3) t by simp
    note eq = get_message_head [OF assms(1) t this n_def hdr_def, of s msg]
    have fr: "framed ae msg (pending w ?sd) p rest \<longleftrightarrow>
        hdr = sw_header ae \<and> n = int (length p) \<and> t = p @ rest \<and> int (length p) \<le> mb_maxlen msg" for p rest
      unfolding t framed_iff n_def hdr_def ..
    show ?thesis
    proof (cases "hdr \<noteq> sw_header ae \<or> n > mb_maxlen msg")
      case True
      then have "\<not> (\<exists>p rest. framed ae msg (pending w ?sd) p rest)" unfolding fr by auto
      moreover have "ajp_connection_tcp_get_message (ae, s, w) msg =
          Some (JK_AJP_PROTOCOL_ERROR, msg, ajp_abort_endpoint (?ae, s, ?w1) True)"
        using True by (simp add: eq Let_def)
      moreover have "ep_kept (ae, s, w) (?ae, s, ?w1)" by (simp add: ep_kept_def)
      then have "ep_kept (ae, s, w) (ajp_abort_endpoint (?ae, s, ?w1) True)" by (rule ep_kept_trans) (rule abort_kept)
      ultimately show ?thesis using err by (intro bad)
    next
      case False
      show ?thesis
      proof (cases rule: recvfull_cases [of "nat n" ?w1 ?sd])
        case (short rc fs)
        then have "\<not> (\<exists>p rest. framed ae msg (pending w ?sd) p rest)" using n unfolding fr pend by auto
        moreover have "length t \<le> length (mb_buf msg)" using short(1) False n assms(2) unfolding pend by linarith
        then have "ajp_connection_tcp_get_message (ae, s, w) msg =
            Some (JK_AJP_PROTOCOL_ERROR, msg\<lparr>mb_len := n, mb_pos := 0, mb_buf := splice (mb_buf msg) 0 t\<rparr>,
              ajp_abort_endpoint (?ae, s, jk_shutdown_socket (set_rx w ?sd fs) ?sd) False)"
          using False short(2,3) pend by (simp add: eq Let_def poke_in)
        ultimately show ?thesis using err by (rule bad) (simp add: abort_closed_kept)
      next
        case (whole fs)
        let ?p = "take (nat n) t"
        have p: "length ?p = nat n" using whole(1) pend by simp
        then have "length ?p \<le> length (mb_buf msg)" using False assms(2) by (simp only: de_Morgan_disj not_not) linarith
        then have "ajp_connection_tcp_get_message (ae, s, w) msg =
            Some (1, msg\<lparr>mb_len := n, mb_pos := 0, mb_buf := splice (mb_buf msg) 0 ?p\<rparr>,
              ae\<lparr>ae_rd := ae_rd ae + 4 + word_of_int n\<rparr>, s, set_rx w ?sd fs)"
          using False whole(3) pend n by (simp add: eq Let_def poke_in)
        moreover have "framed ae msg (pending w ?sd) ?p (drop (nat n) t)" using False p n unfolding fr by simp
        moreover have "n = int (length ?p)" using p n by simp
        ultimately have ?ok using whole(2) pend by (intro exI conjI) (assumption, simp_all)
        then show ?thesis ..
      qed
    qed
  qed
qed

definition msg_room :: "jk_msg_buf \<Rightarrow> bool" where
  "msg_room msg \<longleftrightarrow> mb_maxlen msg \<le> int (length (mb_buf msg))"

definition ajp_proto :: "ajp_endpoint \<Rightarrow> bool" where
  "ajp_proto ae \<longleftrightarrow> ae_proto ae = AJP13_PROTO \<or> ae_proto ae = AJP14_PROTO"

lemma get_message_ok:
  assumes "ajp_proto ae" and "msg_room msg"
  obtains rc m ae' s' w' where "ajp_connection_tcp_get_message (ae, s, w) msg = Some (rc, m, ae', s', w')"
    "ep_kept (ae, s, w) (ae', s', w')" "rc = 1 \<Longrightarrow> ajp_proto ae' \<and> msg_room m \<and> mb_pos m = 0 \<and> mb_len m \<le> mb_maxlen m"
proof -
  consider (good) p rest es r where "framed ae msg (pending w (ae_sd ae)) p rest"
      "ajp_connection_tcp_get_message (ae, s, w) msg =
          Some (1, msg\<lparr>mb_len := int (length p), mb_pos := 0, mb_buf := splice (mb_buf msg) 0 p\<rparr>,
                ae\<lparr>ae_rd := r\<rparr>, s, set_rx w (ae_sd ae) es)"
    | (bad) rc m st' where "rc \<le> 0" "ajp_connection_tcp_get_message (ae, s, w) msg = Some (rc, m, st')"
        "ep_kept (ae, s, w) st'"
    using get_message_cases [of ae msg w s] assms unfolding ajp_proto_def msg_room_def by blast
  then show ?thesis
  proof cases
    case good
    then show ?thesis using assms that by (auto simp: ep_kept_def ajp_proto_def msg_room_def framed_def)
  next
    case bad
    then show ?thesis using that by (cases st') auto
  qed
qed

lemma poll_world: "c_poll w sd = (r, w') \<Longrightarrow> closed_sds w' = closed_sds w"
  using world_closed(3) [of w sd] by simp

lemma cpong_loop_kept:
  "ajp_proto (fst st) \<Longrightarrow> msg_room msg \<Longrightarrow> cpong_loop n i st msg = Some (rc, st') \<Longrightarrow> ep_kept st st'"
proof (induction n arbitrary: i st msg)
  case (Suc n)
  obtain ae s w where st: "st = (ae, s, w)" by (cases st)
  note res0 = Suc.prems(3) [unfolded st] and pre = Suc.prems(1,2) [unfolded st fst_conv]
  obtain ready w1 where poll: "c_poll w (ae_sd ae) = (ready, w1)" by fastforce
  have k1: "ep_kept (ae, s, w) (ae, s, w1)" using poll_world [OF poll] by (simp add: ep_kept_def)
  have "ep_kept (ae, s, w) st'"
  proof (cases ready)
    case False
    then show ?thesis using res0 poll ep_kept_trans [OF k1 abort_kept] by simp
  next
    case True
    obtain r m ae' s' w' where g: "ajp_connection_tcp_get_message (ae, s, w1) msg = Some (r, m, ae', s', w')"
        "ep_kept (ae, s, w1) (ae', s', w')" "r = 1 \<Longrightarrow> ajp_proto ae' \<and> msg_room m \<and> mb_pos m = 0 \<and> mb_len m \<le> mb_maxlen m"
      by (rule get_message_ok [of ae msg s w1]) (use pre in simp_all)
    note k2 = ep_kept_trans [OF k1 g(2)]
    show ?thesis
    proof (cases "r = 1")
      case False
      then show ?thesis using res0 poll True g(1) k2 by simp
    next
      case one: True
      then obtain cmd m2 where c: "jk_b_get_byte m = Some (cmd, m2)"
        using res0 poll True g(1) by (auto simp: ub_simps)
      have room: "msg_room m2" using c g(3) one by (auto simp: jk_b_get_byte_def msg_room_def ub_simps split: if_splits)
      let ?drop = "i \<noteq> 0 \<or> ae_last_op ae' = JK_AJP13_END_RESPONSE \<or> cmd < JK_AJP13_SEND_BODY_CHUNK \<or> cmd > AJP13_CPONG_REPLY"
      have res: "(if cmd \<noteq> AJP13_CPONG_REPLY then
            if ?drop then Some (False, ajp_abort_endpoint (ae', s', w') True) else cpong_loop n (i + 1) (ae', s', w') m2
          else Some (True, ae'\<lparr>ae_last_op := AJP13_CPONG_REPLY\<rparr>, s', w')) = Some (rc, st')"
        using res0 poll True g(1) one c by simp
      consider "cmd \<noteq> AJP13_CPONG_REPLY" "?drop" | "cmd \<noteq> AJP13_CPONG_REPLY" "\<not> ?drop" | "cmd = AJP13_CPONG_REPLY" by blast
      then show ?thesis
      proof cases
        case 1
        then show ?thesis using res ep_kept_trans [OF k2 abort_kept] by simp
      next
        case 2
        then have "cpong_loop n (i + 1) (ae', s', w') m2 = Some (rc, st')" using res by (simp only: if_True if_False not_False_eq_True)
        from Suc.IH [OF _ room this] have "ep_kept (ae', s', w') st'" using g(3) one by simp
        with k2 show ?thesis by (rule ep_kept_trans)
      next
        case 3
        then have "ep_kept (ae', s', w') st'" using res by (auto simp: ep_kept_def)
        with k2 show ?thesis by (rule ep_kept_trans)
      qed
    qed
  qed
  then show ?case by (simp add: st)
qed simp

lemma poke_length: "poke xs i vs = Some ys \<Longrightarrow> length ys = length xs"
  by (induction vs arbitrary: xs i) (auto simp: ub_simps)

lemma send_message_sent:
  assumes "ajp_connection_tcp_send_message st msg = Some (1, msg', st')"
  shows "ae_proto (fst st') = ae_proto (fst st) \<and> mb_maxlen msg' = mb_maxlen msg \<and> length (mb_buf msg') = length (mb_buf msg)"
  using assms
  by (auto simp: ajp_connection_tcp_send_message_def jk_b_end_def pokei_def JK_FATAL_ERROR_def Let_def ub_simps
      dest!: poke_length split: prod.splits if_splits)

lemma cping_kept [jk_inv]:
  assumes "ajp_handle_cping_cpong st msg = Some (rc, st')" and "ajp_proto (fst st)" and "pred_option msg_room msg"
  shows "ep_kept st st'"
proof (cases msg)
  case None
  then show ?thesis using assms by (simp add: ajp_handle_cping_cpong_def)
next
  case (Some m)
  then obtain e m1 r m2 st2 where m1: "jk_b_append_byte (jk_b_reset m) AJP13_CPING_REQUEST = Some (e, m1)"
      and send: "ajp_connection_tcp_send_message st m1 = Some (r, m2, st2)"
      and rest: "(if r \<noteq> 1 then Some (False, st2) else cpong_loop 2 0 st2 m2) = Some (rc, st')"
    using assms(1) by (auto simp: ajp_handle_cping_cpong_def ub_simps)
  have l: "0 < mb_len m1" "msg_room m1" using m1 assms(3) Some
    by (auto simp: jk_b_append_byte_def put_bytes_def jk_b_reset_def msg_room_def pokei_def ub_simps split: if_splits)
  have k: "ep_kept st st2" using send_message_kept [OF send l(1)] .
  show ?thesis
  proof (cases "r = 1")
    case False
    then show ?thesis using rest k by simp
  next
    case True
    have "ajp_proto (fst st2) \<and> msg_room m2" using send_message_sent [OF send [unfolded True]] assms(2) l(2) by (simp add: ajp_proto_def msg_room_def)
    then have "ep_kept st2 st'" using rest True cpong_loop_kept [of st2 m2 2 0 rc st'] by simp
    with k show ?thesis by (rule ep_kept_trans)
  qed
qed

text \<open>Connecting adds the new descriptor and counts it.\<close>

lemma connect_kept:
  assumes "ajp_connect_to_endpoint (ae, s, w) sd now ct cto logon msg = Some (rc, st')"
    and "ajp_proto ae" and "pred_option msg_room msg"
    and "\<And>f st r st1. logon = Some f \<Longrightarrow> f st = Some (r, st1) \<Longrightarrow> ep_kept st st1"
  shows "if IS_VALID_SOCKET sd
    then (\<exists>ae1 s1. ep_kept (ae1, s1, w) st' \<and> held ae1 = {#sd#} \<and> sa_connected s1 = sa_connected s + 1 \<and>
       ae_avail ae1 = ae_avail ae \<and> ae_proto ae1 = ae_proto ae)
    else st' = (ae\<lparr>ae_sd := sd\<rparr>, s, w)"
proof (cases "IS_VALID_SOCKET sd")
  case False
  then show ?thesis using assms(1) by (simp add: ajp_connect_to_endpoint_def)
next
  case True
  define s1 where "s1 = s\<lparr>sa_connected := sa_connected s + 1,
      sa_max_connected := (if sa_connected s + 1 > sa_max_connected s then sa_connected s + 1 else sa_max_connected s)\<rparr>"
  define ae2 where "ae2 = (if ct > 0 then ae\<lparr>ae_sd := sd, ae_last_access := now\<rparr> else ae\<lparr>ae_sd := sd\<rparr>)"
  have ae2: "held ae2 = {#sd#}" "ae_avail ae2 = ae_avail ae" "ajp_proto ae2" "ae_proto ae2 = ae_proto ae" "sa_connected s1 = sa_connected s + 1"
    using True assms(2) by (simp_all add: ae2_def s1_def held_def ajp_proto_def)
  have eq: "(case logon of
      Some f \<Rightarrow> do { (r, st1) \<leftarrow> f (ae2, s1, w); if \<not> r then Some (False, ajp_abort_endpoint st1 True) else Some (True, st1) }
    | None \<Rightarrow> if cto > 0 then ajp_handle_cping_cpong (ae2, s1, w) msg else Some (True, ae2, s1, w)) = Some (rc, st')"
    using assms(1) True unfolding ajp_connect_to_endpoint_def ae2_def s1_def Let_def prod.case by simp
  have "ep_kept (ae2, s1, w) st'"
  proof (cases logon)
    case None
    then show ?thesis using eq cping_kept [of "(ae2, s1, w)" msg rc st'] ae2(3) assms(3) by (auto split: if_splits)
  next
    case (Some f)
    then obtain r st1 where f: "f (ae2, s1, w) = Some (r, st1)" using eq by (cases "f (ae2, s1, w)") auto
    then have "st' = (if r then st1 else ajp_abort_endpoint st1 True)" using eq Some by (cases r) simp_all
    then show ?thesis using assms(4) [OF Some f] ep_kept_trans [OF assms(4) [OF Some f] abort_kept] by simp
  qed
  then show ?thesis using True ae2 by auto
qed

section \<open>The theorems\<close>

text \<open>The frame a stream starts with, and what follows it.\<close>

definition next_frame :: "int \<Rightarrow> int \<Rightarrow> u8 list \<Rightarrow> (u8 list \<times> u8 list) option" where
  "next_frame magic maxlen stream =
     (case stream of
        h0 # h1 # h2 # h3 # t \<Rightarrow>
          let n = uint h2 * 256 + uint h3 in
          if uint h0 * 256 + uint h1 = magic \<and> n \<le> maxlen \<and> n \<le> int (length t)
          then Some (take (nat n) t, drop (nat n) t) else None
      | _ \<Rightarrow> None)"

lemma next_frame_iff: "next_frame (sw_header ae) (mb_maxlen msg) stream = Some (p, rest) \<longleftrightarrow> framed ae msg stream p rest"
proof (cases "4 \<le> length stream")
  case True
  then obtain h0 h1 h2 h3 t where t: "stream = h0 # h1 # h2 # h3 # t" by (auto simp: Suc_le_length_iff numeral_eq_Suc)
  have "0 \<le> uint h2 * 256 + uint h3" using uint_bounded [of h2] uint_bounded [of h3] by simp
  then show ?thesis unfolding t framed_iff by (auto simp: next_frame_def Let_def)
next
  case False
  then show ?thesis by (auto simp: next_frame_def framed_def ajp_frame_def split: list.splits)
qed

text \<open>Claim C22: reading a message from a connection is defined whatever bytes arrive and however they are split
  into chunks. It succeeds exactly when the stream continues with a complete frame with the magic number of the
  protocol whose payload fits the buffer; then the message is that payload and the stream continues behind
  the frame. Otherwise the connection is closed, once, and the endpoint holds no descriptor.\<close>

theorem get_message_exact:
  assumes "ae_proto ae = AJP13_PROTO \<or> ae_proto ae = AJP14_PROTO" and "mb_maxlen msg \<le> int (length (mb_buf msg))"
  shows "\<exists>rc m ae' s' w'. ajp_connection_tcp_get_message (ae, s, w) msg = Some (rc, m, ae', s', w') \<and>
     (case next_frame (sw_header ae) (mb_maxlen msg) (pending w (ae_sd ae)) of
        Some (p, rest) \<Rightarrow> rc = 1 \<and> take (length p) (mb_buf m) = p \<and> mb_len m = int (length p) \<and> mb_pos m = 0 \<and>
          ae_sd ae' = ae_sd ae \<and> pending w' (ae_sd ae) = rest \<and> w_closed w' = w_closed w
      | None \<Rightarrow> rc \<le> 0 \<and> held ae' = {#} \<and> closed_sds w' = held ae + closed_sds w)"
  using get_message_cases [OF assms, of w s]
proof (elim disjE exE conjE)
  fix p rest es r
  assume f: "framed ae msg (pending w (ae_sd ae)) p rest" and "rx_stream es = rest"
    and "ajp_connection_tcp_get_message (ae, s, w) msg =
      Some (1, msg\<lparr>mb_len := int (length p), mb_pos := 0, mb_buf := splice (mb_buf msg) 0 p\<rparr>,
        ae\<lparr>ae_rd := r\<rparr>, s, set_rx w (ae_sd ae) es)"
  moreover from f have "next_frame (sw_header ae) (mb_maxlen msg) (pending w (ae_sd ae)) = Some (p, rest)"
    by (simp add: next_frame_iff)
  moreover have "length p \<le> length (mb_buf msg)" using f assms(2) by (simp add: framed_def)
  ultimately show ?thesis by (simp add: splice_def)
next
  fix rc m st'
  assume n: "\<not> (\<exists>p rest. framed ae msg (pending w (ae_sd ae)) p rest)"
    and r: "rc \<le> 0" "ajp_connection_tcp_get_message (ae, s, w) msg = Some (rc, m, st')"
      "ep_kept (ae, s, w) st'" "held (fst st') = {#}"
  obtain ae' s' w' where st: "st' = (ae', s', w')" by (cases st')
  have "next_frame (sw_header ae) (mb_maxlen msg) (pending w (ae_sd ae)) = None"
    using n next_frame_iff by (cases "next_frame (sw_header ae) (mb_maxlen msg) (pending w (ae_sd ae))") auto
  then show ?thesis using r by (simp add: st ep_kept_def)
qed

definition demo_ep :: ajp_endpoint where
  "demo_ep = \<lparr>ae_proto = AJP13_PROTO, ae_sd = 7, ae_reuse = True, ae_avail = False, ae_hard_close = False, ae_rd = 0,
     ae_wr = 0, ae_last_access = 0, ae_last_op = JK_AJP13_END_RESPONSE, ae_addr_sequence = 0, ae_left_bytes_to_send = 0\<rparr>"

definition demo_shm :: jk_shm_ajp_worker where
  "demo_shm = \<lparr>sa_sequence = 0, sa_host = ''localhost'', sa_port = 8009, sa_addr_sequence = 0, sa_cache_timeout = 0,
     sa_connect_timeout = 0, sa_ping_timeout = 0, sa_reply_timeout = 0, sa_prepost_timeout = 0, sa_recovery_opts = 0,
     sa_retries = 2, sa_retry_interval = 100, sa_busy_limit = 0, sa_max_packet_size = 8192, sa_state = 0,
     sa_connected = 1, sa_max_connected = 1, sa_busy = 0, sa_used = 0, sa_used_snapshot = 0, sa_reply_timeouts = 0,
     sa_max_busy = 0, sa_error_time = 0, sa_readed = 0, sa_transferred = 0, sa_errors = 0, sa_client_errors = 0\<rparr>"

definition demo_world :: "rx_event list \<Rightarrow> world" where
  "demo_world es = \<lparr>w_conn = (\<lambda>_. \<lparr>c_rx = es, c_tx = [], c_ready = [], c_written = [],
     c_shut_ok = True, c_nonblock_ok = True, c_time_left = [], c_fin = False\<rparr>), w_closed = []\<rparr>"

theorem get_message_exact_witness:
  "\<exists>m ae' s' w'. ajp_connection_tcp_get_message (demo_ep, demo_shm, demo_world [Rx 0x41 [0x42, 0], Rx_err EINTR, Rx 1 [9]])
      \<lparr>mb_buf = replicate 16 0, mb_pos = 0, mb_len = 0, mb_maxlen = 16\<rparr> = Some (1, m, ae', s', w') \<and>
    take 1 (mb_buf m) = [9]"
  using get_message_exact [of demo_ep "\<lparr>mb_buf = replicate 16 0, mb_pos = 0, mb_len = 0, mb_maxlen = 16\<rparr>" demo_shm
      "demo_world [Rx 0x41 [0x42, 0], Rx_err EINTR, Rx 1 [9]]"]
  by (auto simp: demo_ep_def demo_world_def pending_def next_frame_def sw_header_def AJP13_SW_HEADER_def)

end
