(* ===== verification/Jk_Ajp_Pool.thy ===== *)
theory Jk_Ajp_Pool
  imports Jk_Ajp_Conn
begin

text \<open>
  The connection pool of an AJP worker (\<open>jk_ajp_common.c\<close>): an array of endpoints that threads acquire and give
  back, its maintenance, and the exchange of the configuration with shared memory. An endpoint is
  named by its slot. The critical section of the worker makes the scans of the array atomic; other threads
  act between the operations, and while \<open>ajp_get_endpoint\<close> sleeps.
\<close>

section \<open>State\<close>

record ajp_worker =
  aw_s :: jk_shm_ajp_worker
  aw_sequence :: u32
  aw_host :: string
  aw_port :: int
  aw_addr_sequence :: int
  aw_ep_cache :: "ajp_endpoint option list"
  aw_ep_mincache_sz :: nat
  aw_cache_acquire_timeout :: int
  aw_cache_timeout :: int
  aw_connect_timeout :: int
  aw_reply_timeout :: int
  aw_prepost_timeout :: int
  aw_conn_ping_interval :: int
  aw_ping_timeout :: int
  aw_recovery_opts :: u32
  aw_retries :: int
  aw_retry_interval :: int
  aw_busy_limit :: int
  aw_max_packet_size :: u32
  aw_secret :: "string option"
  aw_http_status_fail :: "int list"

type_synonym aw_state = "ajp_worker \<times> world"

text \<open>\<open>ep_cache_sz\<close> is the length of the array.\<close>

abbreviation ep_cache_sz :: "ajp_worker \<Rightarrow> nat" where
  "ep_cache_sz aw \<equiv> length (aw_ep_cache aw)"

definition IS_SLOT_AVAIL :: "ajp_endpoint option \<Rightarrow> bool" where
  "IS_SLOT_AVAIL s \<longleftrightarrow> (case s of None \<Rightarrow> False | Some ae \<Rightarrow> ae_avail ae)"

definition slot_open :: "ajp_endpoint option \<Rightarrow> bool" where
  "slot_open s \<longleftrightarrow> (case s of None \<Rightarrow> False | Some ae \<Rightarrow> IS_VALID_SOCKET (ae_sd ae))"

definition set_slot :: "ajp_worker \<Rightarrow> nat \<Rightarrow> ajp_endpoint \<Rightarrow> ajp_worker" where
  "set_slot aw i ae = aw\<lparr>aw_ep_cache := (aw_ep_cache aw)[i := Some ae]\<rparr>"

text \<open>An operation on the endpoint in a slot; a null slot is undefined.\<close>

definition at_slot :: "(ep_state \<Rightarrow> ep_state) \<Rightarrow> aw_state \<Rightarrow> nat \<Rightarrow> aw_state ub" where
  "at_slot f st i =
     (case st of (aw, w) \<Rightarrow>
        do {
          e \<leftarrow> rd (aw_ep_cache aw) i;
          ae \<leftarrow> e;
          let (ae', s', w') = f (ae, aw_s aw, w) in Some ((set_slot aw i ae')\<lparr>aw_s := s'\<rparr>, w')
        })"

definition upd_ep :: "(ajp_endpoint \<Rightarrow> ajp_endpoint) \<Rightarrow> ep_state \<Rightarrow> ep_state" where
  "upd_ep g st = (g (fst st), snd st)"

section \<open>Creation\<close>

definition new_endpoint :: "int \<Rightarrow> int \<Rightarrow> ajp_endpoint" where
  "new_endpoint proto now =
     \<lparr>ae_proto = proto, ae_sd = JK_INVALID_SOCKET, ae_reuse = False, ae_avail = True, ae_hard_close = False,
      ae_rd = 0, ae_wr = 0, ae_last_access = now, ae_last_op = JK_AJP13_END_RESPONSE, ae_addr_sequence = 0,
      ae_left_bytes_to_send = 0\<rparr>"

text \<open>\<open>calloc\<close> of slot \<open>i\<close> succeeds when \<open>alloc i\<close>; the array itself was allocated with null slots.\<close>

fun create_slots :: "(nat \<Rightarrow> bool) \<Rightarrow> int \<Rightarrow> int \<Rightarrow> nat list \<Rightarrow> ajp_worker \<Rightarrow> bool \<times> ajp_worker" where
  "create_slots alloc proto now [] aw = (True, aw)"
| "create_slots alloc proto now (i # is) aw =
     (if \<not> alloc i then (False, aw)
      else create_slots alloc proto now is (set_slot aw i (new_endpoint proto now)))"

definition ajp_create_endpoint_cache :: "bool \<Rightarrow> (nat \<Rightarrow> bool) \<Rightarrow> nat \<Rightarrow> int \<Rightarrow> int \<Rightarrow> ajp_worker \<Rightarrow> bool \<times> ajp_worker" where
  "ajp_create_endpoint_cache array_ok alloc sz proto now aw =
     (if \<not> array_ok then (False, aw)
      else create_slots alloc proto now [0..<sz] (aw\<lparr>aw_ep_cache := replicate sz None\<rparr>))"

section \<open>Acquiring and giving back\<close>

text \<open>The first scan: a connected endpoint that may be reused; one that may not is reset on the way.\<close>

fun scan_connected :: "aw_state \<Rightarrow> nat list \<Rightarrow> (nat option \<times> aw_state) ub" where
  "scan_connected st [] = Some (None, st)"
| "scan_connected (aw, w) (slot # slots) =
     do {
       e \<leftarrow> rd (aw_ep_cache aw) slot;
       if IS_SLOT_AVAIL e \<and> slot_open e then
         if ae_reuse (the e) then
           do { st \<leftarrow> at_slot (upd_ep (\<lambda>ae. ae\<lparr>ae_avail := False\<rparr>)) (aw, w) slot; Some (Some slot, st) }
         else
           do {
             st \<leftarrow> at_slot (\<lambda>s. upd_ep (\<lambda>ae. ae\<lparr>ae_avail := True\<rparr>) (ajp_reset_endpoint s)) (aw, w) slot;
             scan_connected st slots
           }
       else scan_connected (aw, w) slots
     }"

text \<open>The second scan: the first free endpoint.\<close>

fun scan_free :: "aw_state \<Rightarrow> nat list \<Rightarrow> (nat option \<times> aw_state) ub" where
  "scan_free st [] = Some (None, st)"
| "scan_free (aw, w) (slot # slots) =
     do {
       e \<leftarrow> rd (aw_ep_cache aw) slot;
       if IS_SLOT_AVAIL e then
         do { st \<leftarrow> at_slot (upd_ep (\<lambda>ae. ae\<lparr>ae_avail := False\<rparr>)) (aw, w) slot; Some (Some slot, st) }
       else scan_free (aw, w) slots
     }"

text \<open>One round under the lock.\<close>

definition try_endpoint :: "aw_state \<Rightarrow> (nat option \<times> aw_state) ub" where
  "try_endpoint st =
     do {
       (r, st1) \<leftarrow> scan_connected st [0..<ep_cache_sz (fst st)];
       if r = None then scan_free st1 [0..<ep_cache_sz (fst st1)] else Some (r, st1)
     }"

definition JK_SLEEP_DEF :: int where
  "JK_SLEEP_DEF = 100"

text \<open>The rounds until the timeout: \<open>others n\<close> is what other threads do to the array and the world during the
  sleep number \<open>n\<close>. The timeout itself is configuration.\<close>

function get_endpoint_loop :: "(nat \<Rightarrow> ajp_endpoint option list \<times> jk_shm_ajp_worker \<times> world \<Rightarrow> ajp_endpoint option list \<times> jk_shm_ajp_worker \<times> world)
     \<Rightarrow> int \<Rightarrow> int \<Rightarrow> nat \<Rightarrow> aw_state \<Rightarrow> (nat option \<times> aw_state) ub" where
  "get_endpoint_loop others now timeout retry (aw, w) =
     (if int retry * JK_SLEEP_DEF < timeout then
        do {
          (r, (aw1, w1)) \<leftarrow> try_endpoint (aw, w);
          (case r of
             Some slot \<Rightarrow>
               do {
                 st2 \<leftarrow> (if aw_cache_timeout aw1 > 0
                        then at_slot (upd_ep (\<lambda>ae. ae\<lparr>ae_last_access := now\<rparr>)) (aw1, w1) slot
                        else Some (aw1, w1));
                 Some (Some slot, st2)
               }
           | None \<Rightarrow>
               let (eps, s, w2) = others retry (aw_ep_cache aw1, aw_s aw1, w1)
               in get_endpoint_loop others now timeout (retry + 1) (aw1\<lparr>aw_ep_cache := eps, aw_s := s\<rparr>, w2))
        }
      else Some (None, (aw, w)))"
  by pat_completeness auto
termination
  by (relation "measure (\<lambda>(others, now, timeout, retry, st). nat (timeout - int retry * JK_SLEEP_DEF))")
    (auto simp: JK_SLEEP_DEF_def)

declare get_endpoint_loop.simps [simp del]

definition ajp_get_endpoint :: "(nat \<Rightarrow> ajp_endpoint option list \<times> jk_shm_ajp_worker \<times> world \<Rightarrow> ajp_endpoint option list \<times> jk_shm_ajp_worker \<times> world)
     \<Rightarrow> int \<Rightarrow> aw_state \<Rightarrow> (nat option \<times> aw_state) ub" where
  "ajp_get_endpoint others now st = get_endpoint_loop others now (aw_cache_acquire_timeout (fst st)) 0 st"

definition ajp_done :: "aw_state \<Rightarrow> nat \<Rightarrow> int \<Rightarrow> aw_state ub" where
  "ajp_done st i now =
     (let aw = fst st in
      at_slot (\<lambda>s.
        let s1 = upd_ep (\<lambda>ae. if aw_cache_timeout aw > 0 then ae\<lparr>ae_last_access := now\<rparr> else ae) s;
            s2 = upd_ep (\<lambda>ae. if sa_addr_sequence (aw_s aw) \<noteq> ae_addr_sequence ae
                              then ae\<lparr>ae_reuse := False, ae_addr_sequence := sa_addr_sequence (aw_s aw)\<rparr> else ae) s1
        in upd_ep (\<lambda>ae. ae\<lparr>ae_avail := True\<rparr>) (ajp_reset_endpoint s2)) st i)"

fun has_loop :: "ajp_worker \<Rightarrow> nat list \<Rightarrow> bool ub" where
  "has_loop aw [] = Some False"
| "has_loop aw (slot # slots) =
     do { e \<leftarrow> rd (aw_ep_cache aw) slot; if IS_SLOT_AVAIL e then Some True else has_loop aw slots }"

definition ajp_has_endpoint :: "ajp_worker \<Rightarrow> bool ub" where
  "ajp_has_endpoint aw = has_loop aw [0..<ep_cache_sz aw]"

text \<open>Stealing the socket of an idle endpoint for the endpoint in slot \<open>i\<close>.\<close>

fun steal_loop :: "aw_state \<Rightarrow> nat \<Rightarrow> nat list \<Rightarrow> aw_state ub" where
  "steal_loop st i [] = Some st"
| "steal_loop (aw, w) i (k # ks) =
     do {
       e \<leftarrow> rd (aw_ep_cache aw) k;
       if IS_SLOT_AVAIL e \<and> slot_open e then
         let sd = ae_sd (the e) in
         do {
           st1 \<leftarrow> at_slot (upd_ep (\<lambda>ae. ae\<lparr>ae_sd := sd\<rparr>)) (aw, w) i;
           at_slot (upd_ep (\<lambda>ae. ae\<lparr>ae_sd := JK_INVALID_SOCKET\<rparr>)) st1 k
         }
       else steal_loop (aw, w) i ks
     }"

definition drop_socket :: "ep_state \<Rightarrow> ep_state" where
  "drop_socket st =
     (case st of (ae, s, w) \<Rightarrow>
        if IS_VALID_SOCKET (ae_sd ae)
        then (ae\<lparr>ae_sd := JK_INVALID_SOCKET\<rparr>, dec_connected s, jk_shutdown_socket w (ae_sd ae))
        else st)"

definition ajp_next_connection :: "aw_state \<Rightarrow> nat \<Rightarrow> (bool \<times> aw_state) ub" where
  "ajp_next_connection st i =
     do {
       st1 \<leftarrow> at_slot drop_socket st i;
       st2 \<leftarrow> steal_loop st1 i [0..<ep_cache_sz (fst st1)];
       e \<leftarrow> rd (aw_ep_cache (fst st2)) i;
       Some (slot_open e, st2)
     }"

section \<open>Maintenance\<close>

text \<open>An idle connection: its socket is set aside to be shut down behind the lock, then the endpoint is reset.\<close>

definition set_aside :: "aw_state \<Rightarrow> nat \<Rightarrow> int list \<Rightarrow> (aw_state \<times> int list) ub" where
  "set_aside st i m_sock =
     do {
       e \<leftarrow> rd (aw_ep_cache (fst st)) i;
       ae \<leftarrow> e;
       st1 \<leftarrow> at_slot (\<lambda>s. ajp_reset_endpoint (upd_ep (\<lambda>ae. ae\<lparr>ae_reuse := False, ae_sd := JK_INVALID_SOCKET\<rparr>) s)) st i;
       Some (st1, m_sock @ [ae_sd ae])
     }"

text \<open>The loop over the idle connections, from the last slot down; \<open>n\<close> counts those closed, \<open>cnt\<close> those
  open at the start.\<close>

definition expire_slot :: "int \<Rightarrow> nat \<Rightarrow> nat \<times> aw_state \<times> int list \<Rightarrow> (nat \<times> aw_state \<times> int list) ub" where
  "expire_slot mstarted i x =
     (case x of (n, st, m_sock) \<Rightarrow>
        do {
          e \<leftarrow> rd (aw_ep_cache (fst st)) i;
          if IS_SLOT_AVAIL e \<and> slot_open e \<and> mstarted - ae_last_access (the e) > aw_cache_timeout (fst st)
          then do { (st1, m1) \<leftarrow> set_aside st i m_sock; Some (n + 1, st1, m1) }
          else Some (n, st, m_sock)
        })"

fun expire_loop :: "int \<Rightarrow> nat \<Rightarrow> nat \<Rightarrow> nat \<times> aw_state \<times> int list \<Rightarrow> (nat \<times> aw_state \<times> int list) ub" where
  "expire_loop mstarted cnt 0 x = Some x"
| "expire_loop mstarted cnt (Suc i) x =
     do {
       (n, st, m_sock) \<leftarrow> expire_slot mstarted i x;
       if cnt \<le> aw_ep_mincache_sz (fst st) + n then Some (n, st, m_sock)
       else expire_loop mstarted cnt i (n, st, m_sock)
     }"

text \<open>The keep-alive loop; \<open>msgs i\<close> is the message allocated for slot \<open>i\<close>.\<close>

definition ping_slot :: "int \<Rightarrow> (nat \<Rightarrow> jk_msg_buf option) \<Rightarrow> nat \<Rightarrow> aw_state \<times> int list \<Rightarrow> (aw_state \<times> int list) ub" where
  "ping_slot mstarted msgs i x =
     (case x of ((aw, w), m_sock) \<Rightarrow>
        do {
          e \<leftarrow> rd (aw_ep_cache aw) i;
          if IS_SLOT_AVAIL e \<and> slot_open e \<and> mstarted - ae_last_access (the e) > aw_conn_ping_interval aw then
            do {
              (ok, ae', s', w') \<leftarrow> ajp_handle_cping_cpong (the e, aw_s aw, w) (msgs i);
              let st1 = ((set_slot aw i ae')\<lparr>aw_s := s'\<rparr>, w') in
              if ok then Some (st1, m_sock) else set_aside st1 i m_sock
            }
          else Some ((aw, w), m_sock)
        })"

fun ping_loop :: "int \<Rightarrow> (nat \<Rightarrow> jk_msg_buf option) \<Rightarrow> nat \<Rightarrow> aw_state \<times> int list \<Rightarrow> (aw_state \<times> int list) ub" where
  "ping_loop mstarted msgs 0 x = Some x"
| "ping_loop mstarted msgs (Suc i) x = do { y \<leftarrow> ping_slot mstarted msgs i x; ping_loop mstarted msgs i y }"

text \<open>The sockets set aside are shut down after the lock is released.\<close>

fun shut_all :: "jk_shm_ajp_worker \<Rightarrow> world \<Rightarrow> int list \<Rightarrow> jk_shm_ajp_worker \<times> world" where
  "shut_all s w [] = (s, w)"
| "shut_all s w (sd # sds) =
     (if IS_VALID_SOCKET sd then shut_all (dec_connected s) (jk_shutdown_socket w sd) sds else shut_all s w sds)"

definition count_open :: "ajp_worker \<Rightarrow> nat" where
  "count_open aw = length (filter slot_open (aw_ep_cache aw))"

text \<open>The array \<open>m_sock\<close> has \<open>cnt + 1\<close> elements and is not checked for null.\<close>

definition ajp_maintain :: "aw_state \<Rightarrow> int \<Rightarrow> bool \<Rightarrow> (nat \<Rightarrow> jk_msg_buf option) \<Rightarrow> (bool \<times> aw_state) ub" where
  "ajp_maintain st mstarted m_sock_ok msgs =
     (let aw = fst st in
      if aw_cache_timeout aw \<le> 0 \<and> aw_conn_ping_interval aw \<le> 0 then Some (True, st)
      else
        let cnt = count_open aw in
        do {
          (n, st1, m1) \<leftarrow> (if aw_cache_timeout aw > 0 then expire_loop mstarted cnt (ep_cache_sz aw) (0, st, []) else Some (0, st, []));
          (st2, m2) \<leftarrow> (if aw_conn_ping_interval aw > 0 \<and> aw_ping_timeout aw > 0
                       then ping_loop mstarted msgs (ep_cache_sz aw) (st1, m1) else Some (st1, m1));
          guard (m2 = [] \<or> m_sock_ok \<and> length m2 \<le> cnt + 1);
          let (s', w') = shut_all (aw_s (fst st2)) (snd st2) m2 in
          Some (True, ((fst st2)\<lparr>aw_s := s'\<rparr>, w'))
        })"

definition shutdown_slot :: "aw_state \<Rightarrow> nat \<Rightarrow> aw_state ub" where
  "shutdown_slot st i =
     do {
       e \<leftarrow> rd (aw_ep_cache (fst st)) i;
       if IS_SLOT_AVAIL e \<and> slot_open e
       then at_slot (\<lambda>s. upd_ep (\<lambda>ae. ae\<lparr>ae_sd := JK_INVALID_SOCKET\<rparr>)
              (ajp_reset_endpoint (upd_ep (\<lambda>ae. ae\<lparr>ae_reuse := False, ae_hard_close := True\<rparr>) s))) st i
       else Some st
     }"

fun shutdown_loop :: "nat \<Rightarrow> aw_state \<Rightarrow> aw_state ub" where
  "shutdown_loop 0 st = Some st"
| "shutdown_loop (Suc i) st = do { st1 \<leftarrow> shutdown_slot st i; shutdown_loop i st1 }"

definition ajp_shutdown :: "aw_state \<Rightarrow> aw_state ub" where
  "ajp_shutdown st = shutdown_loop (ep_cache_sz (fst st)) st"

section \<open>Configuration in shared memory\<close>

text \<open>Closing the idle connections after a change of the address.\<close>

definition close_idle_slot :: "aw_state \<Rightarrow> nat \<Rightarrow> aw_state ub" where
  "close_idle_slot st i =
     do {
       e \<leftarrow> rd (aw_ep_cache (fst st)) i;
       if IS_SLOT_AVAIL e \<and> slot_open e
       then at_slot (\<lambda>s. upd_ep (\<lambda>ae. ae\<lparr>ae_addr_sequence := aw_addr_sequence (fst st)\<rparr>) (drop_socket s)) st i
       else Some st
     }"

fun close_idle :: "nat list \<Rightarrow> aw_state \<Rightarrow> aw_state ub" where
  "close_idle [] st = Some st"
| "close_idle (i # is) st = do { st1 \<leftarrow> close_idle_slot st i; close_idle is st1 }"

definition pull_fields :: "ajp_worker \<Rightarrow> ajp_worker" where
  "pull_fields aw =
     (let s = aw_s aw in
      aw\<lparr>aw_cache_timeout := sa_cache_timeout s, aw_connect_timeout := sa_connect_timeout s,
         aw_ping_timeout := sa_ping_timeout s, aw_reply_timeout := sa_reply_timeout s,
         aw_prepost_timeout := sa_prepost_timeout s, aw_recovery_opts := sa_recovery_opts s,
         aw_retries := sa_retries s, aw_retry_interval := sa_retry_interval s,
         aw_busy_limit := sa_busy_limit s, aw_max_packet_size := sa_max_packet_size s,
         aw_sequence := sa_sequence s\<rparr>)"

text \<open>\<open>jk_resolve\<close> is a lookup of the network: \<open>resolves host port\<close>.\<close>

definition jk_ajp_pull :: "(string \<Rightarrow> int \<Rightarrow> bool) \<Rightarrow> aw_state \<Rightarrow> aw_state ub" where
  "jk_ajp_pull resolves st =
     (case st of (aw, w) \<Rightarrow>
        let s = aw_s aw; aw1 = pull_fields aw in
        if aw_addr_sequence aw \<noteq> sa_addr_sequence s then
          let aw2 = aw1\<lparr>aw_addr_sequence := sa_addr_sequence s\<rparr>; port = sa_port s; host = sa_host s in
          if port \<noteq> 0 then
            let aw3 = aw2\<lparr>aw_port := port, aw_host := host\<rparr> in
            if \<not> resolves host port then Some (aw3\<lparr>aw_port := 0\<rparr>, w)
            else close_idle [0..<ep_cache_sz aw3] (aw3, w)
          else Some (aw2, w)
        else Some (aw1, w))"

definition push_fields :: "ajp_worker \<Rightarrow> ajp_worker" where
  "push_fields aw =
     aw\<lparr>aw_s := (aw_s aw)\<lparr>sa_cache_timeout := aw_cache_timeout aw, sa_connect_timeout := aw_connect_timeout aw,
          sa_ping_timeout := aw_ping_timeout aw, sa_reply_timeout := aw_reply_timeout aw,
          sa_prepost_timeout := aw_prepost_timeout aw, sa_recovery_opts := aw_recovery_opts aw,
          sa_retries := aw_retries aw, sa_retry_interval := aw_retry_interval aw,
          sa_busy_limit := aw_busy_limit aw, sa_max_packet_size := aw_max_packet_size aw,
          sa_sequence := sa_sequence (aw_s aw) + 1\<rparr>,
        aw_sequence := sa_sequence (aw_s aw) + 1\<rparr>"

definition jk_ajp_push :: "aw_state \<Rightarrow> aw_state ub" where
  "jk_ajp_push st =
     (case st of (aw, w) \<Rightarrow>
        let aw1 = push_fields aw; s1 = aw_s aw1 in
        if sa_addr_sequence s1 \<noteq> aw_addr_sequence aw then
          let s2 = s1\<lparr>sa_addr_sequence := sa_addr_sequence s1 + 1, sa_host := aw_host aw, sa_port := aw_port aw\<rparr>;
              aw2 = aw1\<lparr>aw_s := s2, aw_addr_sequence := sa_addr_sequence s2\<rparr>
          in close_idle [0..<ep_cache_sz aw2] (aw2, w)
        else Some (aw1, w))"

section \<open>What the operations keep\<close>

definition slot_held :: "ajp_endpoint option \<Rightarrow> int multiset" where
  "slot_held e = (case e of None \<Rightarrow> {#} | Some ae \<Rightarrow> held ae)"

definition opened :: "ajp_worker \<Rightarrow> int multiset" where
  "opened aw = sum_list (map slot_held (aw_ep_cache aw))"

text \<open>An endpoint operation that only gives up descriptors, and accounts for them.\<close>

definition ep_bal :: "ep_state \<Rightarrow> ep_state \<Rightarrow> bool" where
  "ep_bal st st' \<longleftrightarrow>
     (case (st, st') of ((ae, s, w), (ae', s', w')) \<Rightarrow>
        held ae' + closed_sds w' = held ae + closed_sds w \<and> held ae' \<subseteq># held ae \<and> ae_proto ae' = ae_proto ae \<and>
        (int (size (held ae)) \<le> sa_connected s \<longrightarrow>
           sa_connected s' - int (size (held ae')) = sa_connected s - int (size (held ae))))"

lemma ep_kept_bal: "ep_kept st st' \<Longrightarrow> ep_bal st st'"
  by (auto simp: ep_kept_def ep_bal_def split: prod.splits)

lemma ep_bal_upd: "held (g (fst st)) = held (fst st) \<Longrightarrow> ae_proto (g (fst st)) = ae_proto (fst st) \<Longrightarrow> ep_bal st (upd_ep g st)"
  by (cases st) (simp add: ep_bal_def upd_ep_def)

lemma ep_bal_trans: "ep_bal a b \<Longrightarrow> ep_bal b c \<Longrightarrow> ep_bal a c"
  by (auto simp: ep_bal_def split: prod.splits intro: subset_mset.order_trans)

lemma drop_socket_bal: "ep_bal st (drop_socket st)"
  by (auto simp: ep_bal_def drop_socket_def held_def split: prod.splits)

text \<open>Between two states of the pool, with the sockets \<open>a\<close> set aside to be closed: every descriptor
  is open in a slot, set aside or closed, as often as before; none is opened; the counter in
  shared memory counts those open or set aside; the slots in use, except those in \<open>J\<close>, are not written.\<close>

definition counted :: "aw_state \<Rightarrow> int multiset \<Rightarrow> bool" where
  "counted st a \<longleftrightarrow> sa_connected (aw_s (fst st)) = int (size (opened (fst st)) + size a)"

definition aw_ok :: "nat set \<Rightarrow> aw_state \<times> int multiset \<Rightarrow> aw_state \<times> int multiset \<Rightarrow> bool" where
  "aw_ok J x y \<longleftrightarrow>
     (case (x, y) of ((st, a), (st', a')) \<Rightarrow>
        map (map_option ae_proto) (aw_ep_cache (fst st')) = map (map_option ae_proto) (aw_ep_cache (fst st)) \<and>
        opened (fst st') + a' + closed_sds (snd st') = opened (fst st) + a + closed_sds (snd st) \<and>
        opened (fst st') + a' \<subseteq># opened (fst st) + a \<and>
        (counted st a \<longrightarrow> counted st' a') \<and>
        (\<forall>i < ep_cache_sz (fst st). i \<notin> J \<longrightarrow> \<not> IS_SLOT_AVAIL (aw_ep_cache (fst st) ! i) \<longrightarrow>
           aw_ep_cache (fst st') ! i = aw_ep_cache (fst st) ! i))"

lemma aw_ok_refl [simp, intro]: "aw_ok J x x"
  by (simp add: aw_ok_def split: prod.split)

lemma aw_ok_size: "aw_ok J (st, a) (st', a') \<Longrightarrow> ep_cache_sz (fst st') = ep_cache_sz (fst st)"
  unfolding aw_ok_def prod.case by (metis length_map)

lemma aw_ok_trans [trans]: "aw_ok J x y \<Longrightarrow> aw_ok J y z \<Longrightarrow> aw_ok J x z"
proof -
  assume xy: "aw_ok J x y" and yz: "aw_ok J y z"
  obtain st a st1 a1 st2 a2 where e: "x = (st, a)" "y = (st1, a1)" "z = (st2, a2)" by (cases x; cases y; cases z)
  note d1 = xy [unfolded aw_ok_def e prod.case] and d2 = yz [unfolded aw_ok_def e prod.case]
  have sz: "ep_cache_sz (fst st1) = ep_cache_sz (fst st)" using xy unfolding e by (rule aw_ok_size)
  show ?thesis unfolding aw_ok_def e prod.case
  proof (intro conjI allI impI)
    show "opened (fst st2) + a2 \<subseteq># opened (fst st) + a" using d1 d2 subset_mset.order_trans by blast
    fix i
    assume "i < ep_cache_sz (fst st)" "i \<notin> J" "\<not> IS_SLOT_AVAIL (aw_ep_cache (fst st) ! i)"
    moreover from this have "aw_ep_cache (fst st1) ! i = aw_ep_cache (fst st) ! i" using d1 by blast
    ultimately show "aw_ep_cache (fst st2) ! i = aw_ep_cache (fst st) ! i" using d2 sz by simp
  qed (use d1 d2 in simp_all)
qed

lemma opened_update:
  "i < ep_cache_sz aw \<Longrightarrow> opened (set_slot aw i ae) + slot_held (aw_ep_cache aw ! i) = opened aw + held ae"
proof -
  have "i < length xs \<Longrightarrow> sum_list (map slot_held (xs[i := Some ae])) + slot_held (xs ! i) =
      sum_list (map slot_held xs) + held ae" for xs
  proof (induction xs arbitrary: i)
    case (Cons x xs)
    then show ?case by (cases i) (auto simp: slot_held_def ac_simps)
  qed simp
  then show "i < ep_cache_sz aw \<Longrightarrow> ?thesis" by (simp add: opened_def set_slot_def)
qed

lemma set_slot_sel [simp]:
  "ep_cache_sz (set_slot aw i ae) = ep_cache_sz aw" "aw_s (set_slot aw i ae) = aw_s aw"
  "opened (aw\<lparr>aw_s := s\<rparr>) = opened aw"
  by (simp_all add: set_slot_def opened_def)

lemma slot_held_sub: "i < ep_cache_sz aw \<Longrightarrow> slot_held (aw_ep_cache aw ! i) \<subseteq># opened aw"
proof -
  have "i < length xs \<Longrightarrow> slot_held (xs ! i) \<subseteq># sum_list (map slot_held xs)" for xs
    by (induction xs arbitrary: i) (auto simp: nth_Cons split: nat.split intro: subset_mset.add_increasing)
  then show "i < ep_cache_sz aw \<Longrightarrow> ?thesis" by (simp add: opened_def)
qed

lemma at_slot_ok:
  assumes "at_slot f st i = Some st'" and "IS_SLOT_AVAIL (aw_ep_cache (fst st) ! i) \<or> i \<in> J"
    and "\<And>ae s w. ep_bal (ae, s, w) (f (ae, s, w))"
  shows "aw_ok J (st, a) (st', a)"
proof -
  obtain aw w where st: "st = (aw, w)" by (cases st)
  obtain ae where i: "i < ep_cache_sz aw" "aw_ep_cache aw ! i = Some ae"
    using assms(1) st by (auto simp: at_slot_def ub_simps)
  obtain ae' s' w' where f: "f (ae, aw_s aw, w) = (ae', s', w')" by (cases "f (ae, aw_s aw, w)")
  have st': "st' = ((set_slot aw i ae')\<lparr>aw_s := s'\<rparr>, w')" using assms(1) st i f by (simp add: at_slot_def)
  have b: "held ae' + closed_sds w' = held ae + closed_sds w" "held ae' \<subseteq># held ae" "ae_proto ae' = ae_proto ae"
      "int (size (held ae)) \<le> sa_connected (aw_s aw) \<Longrightarrow>
         sa_connected s' - int (size (held ae')) = sa_connected (aw_s aw) - int (size (held ae))"
    using assms(3) [of ae "aw_s aw" w] f by (auto simp: ep_bal_def)
  have o: "opened (set_slot aw i ae') + held ae = opened aw + held ae'"
    using opened_update [OF i(1), of ae'] i(2) by (simp add: slot_held_def)
  have sub: "held ae \<subseteq># opened aw" using slot_held_sub [OF i(1)] i(2) by (simp add: slot_held_def)
  then obtain r where r: "opened aw = held ae + r" by (metis subset_mset.le_iff_add)
  then have r': "opened (set_slot aw i ae') = held ae' + r" using o by (simp add: ac_simps)
  show ?thesis unfolding aw_ok_def st st' prod.case fst_conv snd_conv
  proof (intro conjI allI impI)
    show "map (map_option ae_proto) (aw_ep_cache ((set_slot aw i ae')\<lparr>aw_s := s'\<rparr>)) = map (map_option ae_proto) (aw_ep_cache aw)"
      using i b(3) by (simp add: set_slot_def map_update list_update_same_conv)
    show "opened ((set_slot aw i ae')\<lparr>aw_s := s'\<rparr>) + a + closed_sds w' = opened aw + a + closed_sds w"
      using b(1) by (simp add: r r' ac_simps)
    show "opened ((set_slot aw i ae')\<lparr>aw_s := s'\<rparr>) + a \<subseteq># opened aw + a"
      using b(2) by (simp add: r r')
    assume "counted (aw, w) a"
    then show "counted ((set_slot aw i ae')\<lparr>aw_s := s'\<rparr>, w') a" using b(4) by (simp add: counted_def r r')
  next
    fix k
    assume "k < ep_cache_sz aw" "k \<notin> J" "\<not> IS_SLOT_AVAIL (aw_ep_cache aw ! k)"
    then show "aw_ep_cache ((set_slot aw i ae')\<lparr>aw_s := s'\<rparr>) ! k = aw_ep_cache aw ! k"
      using assms(2) st by (cases "k = i") (auto simp: set_slot_def)
  qed
qed

lemma reset_bal: "ep_bal st (ajp_reset_endpoint st)"
  by (rule ep_kept_bal) (rule reset_kept)

lemma acquire_bal: "ep_bal st (upd_ep (\<lambda>ae. ae\<lparr>ae_avail := b\<rparr>) st)"
  by (rule ep_bal_upd) simp_all

lemma scan_connected_ok: "scan_connected st slots = Some (r, st') \<Longrightarrow> aw_ok J (st, a) (st', a)"
proof (induction slots arbitrary: st)
  case (Cons slot slots)
  obtain aw w where st: "st = (aw, w)" by (cases st)
  obtain e where e: "rd (aw_ep_cache aw) slot = Some e" using Cons.prems st by (auto simp: ub_simps)
  show ?case
  proof (cases "IS_SLOT_AVAIL e \<and> slot_open e")
    case False
    then show ?thesis using Cons st e by (auto simp del: aw_ok_refl)
  next
    case True
    then have av: "IS_SLOT_AVAIL (aw_ep_cache (fst st) ! slot) \<or> slot \<in> J" using e st by (simp add: ub_simps)
    show ?thesis
    proof (cases "ae_reuse (the e)")
      case reuse: True
      then have "at_slot (upd_ep (\<lambda>ae. ae\<lparr>ae_avail := False\<rparr>)) st slot = Some st'"
        using Cons.prems True e st by (auto simp: ub_simps)
      then show ?thesis using av by (rule at_slot_ok) (rule acquire_bal)
    next
      case no: False
      then obtain st1 where s1: "at_slot (\<lambda>s. upd_ep (\<lambda>ae. ae\<lparr>ae_avail := True\<rparr>) (ajp_reset_endpoint s)) st slot = Some st1"
          and s2: "scan_connected st1 slots = Some (r, st')"
        using Cons.prems True e st by (auto simp: ub_simps)
      have "aw_ok J (st, a) (st1, a)" using s1 av
        by (rule at_slot_ok) (rule ep_bal_trans [OF reset_bal acquire_bal])
      then show ?thesis using Cons.IH [OF s2] by (rule aw_ok_trans)
    qed
  qed
qed simp

lemma scan_free_ok: "scan_free st slots = Some (r, st') \<Longrightarrow> aw_ok J (st, a) (st', a)"
proof (induction slots arbitrary: st)
  case (Cons slot slots)
  obtain aw w where st: "st = (aw, w)" by (cases st)
  obtain e where e: "rd (aw_ep_cache aw) slot = Some e" using Cons.prems st by (auto simp: ub_simps)
  show ?case
  proof (cases "IS_SLOT_AVAIL e")
    case False
    then show ?thesis using Cons st e by (auto simp del: aw_ok_refl)
  next
    case True
    then have av: "IS_SLOT_AVAIL (aw_ep_cache (fst st) ! slot) \<or> slot \<in> J" using e st by (simp add: ub_simps)
    have "at_slot (upd_ep (\<lambda>ae. ae\<lparr>ae_avail := False\<rparr>)) st slot = Some st'"
      using Cons.prems True e st by (auto simp: ub_simps)
    then show ?thesis using av by (rule at_slot_ok) (rule acquire_bal)
  qed
qed simp

lemma try_endpoint_ok: "try_endpoint st = Some (r, st') \<Longrightarrow> aw_ok J (st, a) (st', a)"
proof -
  assume t: "try_endpoint st = Some (r, st')"
  then obtain r1 st1 where s1: "scan_connected st [0..<ep_cache_sz (fst st)] = Some (r1, st1)"
      and s2: "(if r1 = None then scan_free st1 [0..<ep_cache_sz (fst st1)] else Some (r1, st1)) = Some (r, st')"
    unfolding try_endpoint_def by (auto simp: ub_simps split del: if_split)
  have "aw_ok J (st1, a) (st', a)"
    using s2 scan_free_ok by (cases "r1 = None") auto
  with scan_connected_ok [OF s1] show ?thesis by (rule aw_ok_trans)
qed

lemma done_ok: "ajp_done st i now = Some st' \<Longrightarrow> aw_ok {i} (st, a) (st', a)"
  unfolding ajp_done_def Let_def
  by (erule at_slot_ok)
    (simp, rule ep_bal_trans [OF ep_bal_trans [OF ep_bal_trans [OF ep_bal_upd ep_bal_upd] reset_bal] acquire_bal], simp_all)

lemma abort_at_ok: "at_slot (\<lambda>s. ajp_abort_endpoint s True) st i = Some st' \<Longrightarrow> aw_ok {i} (st, a) (st', a)"
  by (erule at_slot_ok) (auto intro: ep_kept_bal abort_kept)

lemma if_slot_ok:
  assumes "do { e \<leftarrow> rd (aw_ep_cache (fst st)) i; if IS_SLOT_AVAIL e \<and> P e then at_slot f st i else Some st } = Some st'"
    and "\<And>ae s w. ep_bal (ae, s, w) (f (ae, s, w))"
  shows "aw_ok J (st, a) (st', a)"
proof -
  obtain e where e: "rd (aw_ep_cache (fst st)) i = Some e" using assms(1) by (auto simp: ub_simps)
  show ?thesis
  proof (cases "IS_SLOT_AVAIL e \<and> P e")
    case True
    then have "at_slot f st i = Some st'" "IS_SLOT_AVAIL (aw_ep_cache (fst st) ! i) \<or> i \<in> J"
      using assms(1) e by (simp_all add: ub_simps)
    then show ?thesis using assms(2) by (rule at_slot_ok)
  next
    case False
    have "(if IS_SLOT_AVAIL e \<and> P e then at_slot f st i else Some st) = Some st'" using assms(1) unfolding e bind.bind_lunit .
    then have "st' = st" unfolding if_not_P [OF False] by simp
    then show ?thesis by simp
  qed
qed

lemma close_idle_ok: "close_idle is st = Some st' \<Longrightarrow> aw_ok J (st, a) (st', a)"
proof (induction "is" arbitrary: st)
  case (Cons i "is")
  then obtain st1 where s1: "close_idle_slot st i = Some st1" and s2: "close_idle is st1 = Some st'"
    by (auto simp: ub_simps)
  have "aw_ok J (st, a) (st1, a)"
    by (rule if_slot_ok [OF s1 [unfolded close_idle_slot_def]]) (rule ep_bal_trans [OF drop_socket_bal ep_bal_upd], simp_all)
  then show ?case using Cons.IH [OF s2] by (rule aw_ok_trans)
qed simp

lemma shutdown_loop_ok: "shutdown_loop n st = Some st' \<Longrightarrow> aw_ok J (st, a) (st', a)"
proof (induction n arbitrary: st)
  case (Suc i)
  then obtain st1 where s1: "shutdown_slot st i = Some st1" and s2: "shutdown_loop i st1 = Some st'"
    by (auto simp: ub_simps)
  have "aw_ok J (st, a) (st1, a)"
    by (rule if_slot_ok [OF s1 [unfolded shutdown_slot_def]])
      (auto simp: ep_bal_def upd_ep_def ajp_reset_endpoint_def ajp_abort_endpoint_def held_def)
  then show ?case using Suc.IH [OF s2] by (rule aw_ok_trans)
qed simp

lemma config_ok:
  "aw_ep_cache aw' = aw_ep_cache aw \<Longrightarrow> sa_connected (aw_s aw') = sa_connected (aw_s aw) \<Longrightarrow>
     aw_ok J ((aw, w), a) ((aw', w), a)"
  by (simp add: aw_ok_def counted_def opened_def)

lemma fields_sel [simp]:
  "aw_ep_cache (pull_fields aw) = aw_ep_cache aw" "aw_s (pull_fields aw) = aw_s aw"
  "aw_ep_cache (push_fields aw) = aw_ep_cache aw" "sa_connected (aw_s (push_fields aw)) = sa_connected (aw_s aw)"
  by (simp_all add: pull_fields_def push_fields_def Let_def)

lemma config_close_ok:
  assumes "close_idle is (aw', w) = Some st'" and "aw_ep_cache aw' = aw_ep_cache aw"
    and "sa_connected (aw_s aw') = sa_connected (aw_s aw)"
  shows "aw_ok J ((aw, w), a) (st', a)"
  using config_ok [OF assms(2,3)] close_idle_ok [OF assms(1)] by (rule aw_ok_trans)

lemma pull_ok:
  assumes "jk_ajp_pull resolves (aw, w) = Some st'"
  shows "aw_ok J ((aw, w), a) (st', a)"
proof (cases "aw_addr_sequence aw \<noteq> sa_addr_sequence (aw_s aw) \<and> sa_port (aw_s aw) \<noteq> 0 \<and> resolves (sa_host (aw_s aw)) (sa_port (aw_s aw))")
  case True
  then have "close_idle [0..<ep_cache_sz aw] ((pull_fields aw)\<lparr>aw_addr_sequence := sa_addr_sequence (aw_s aw),
      aw_port := sa_port (aw_s aw), aw_host := sa_host (aw_s aw)\<rparr>, w) = Some st'"
    using assms unfolding jk_ajp_pull_def prod.case Let_def by simp
  then show ?thesis by (rule config_close_ok) simp_all
next
  case False
  then have "st' \<in> {(pull_fields aw, w), ((pull_fields aw)\<lparr>aw_addr_sequence := sa_addr_sequence (aw_s aw)\<rparr>, w),
      ((pull_fields aw)\<lparr>aw_addr_sequence := sa_addr_sequence (aw_s aw), aw_port := 0, aw_host := sa_host (aw_s aw)\<rparr>, w)}"
    using assms unfolding jk_ajp_pull_def prod.case Let_def by (auto split: if_splits)
  then show ?thesis by (auto intro: config_ok)
qed

lemma push_ok:
  assumes "jk_ajp_push (aw, w) = Some st'"
  shows "aw_ok J ((aw, w), a) (st', a)"
proof (cases "sa_addr_sequence (aw_s (push_fields aw)) \<noteq> aw_addr_sequence aw")
  case True
  let ?s = "aw_s (push_fields aw)"
  from True have "close_idle [0..<ep_cache_sz aw] ((push_fields aw)\<lparr>aw_s := ?s\<lparr>sa_addr_sequence := sa_addr_sequence ?s + 1,
      sa_host := aw_host aw, sa_port := aw_port aw\<rparr>, aw_addr_sequence := sa_addr_sequence ?s + 1\<rparr>, w) = Some st'"
    using assms unfolding jk_ajp_push_def prod.case Let_def by simp
  then show ?thesis by (rule config_close_ok) simp_all
next
  case False
  then show ?thesis using assms by (auto simp: jk_ajp_push_def intro: config_ok)
qed

text \<open>Sockets set aside.\<close>

definition aside :: "int list \<Rightarrow> int multiset" where
  "aside m_sock = mset (filter IS_VALID_SOCKET m_sock)"

lemma aside_simps [simp]:
  "aside [] = {#}" "aside (sd # m) = (if IS_VALID_SOCKET sd then add_mset sd (aside m) else aside m)"
  "aside (m @ [sd]) = (if IS_VALID_SOCKET sd then add_mset sd (aside m) else aside m)"
  by (simp_all add: aside_def)

lemma set_aside_ok:
  assumes "set_aside st i m = Some (st', m')" and "IS_SLOT_AVAIL (aw_ep_cache (fst st) ! i)"
  shows "aw_ok J (st, aside m) (st', aside m')"
proof -
  obtain aw w where st: "st = (aw, w)" by (cases st)
  obtain ae where i: "i < ep_cache_sz aw" "aw_ep_cache aw ! i = Some ae"
    using assms(1) st by (auto simp: set_aside_def ub_simps)
  define ae' where "ae' = ae\<lparr>ae_reuse := False, ae_sd := JK_INVALID_SOCKET, ae_last_op := JK_AJP13_END_RESPONSE\<rparr>"
  have r: "st' = (set_slot aw i ae', w)" "m' = m @ [ae_sd ae]"
    using assms(1) i
    by (auto simp: st set_aside_def at_slot_def upd_ep_def ajp_reset_endpoint_def ajp_abort_endpoint_def ae'_def set_slot_def)
  have h: "held ae' = {#}" "ae_proto ae' = ae_proto ae" by (simp_all add: ae'_def held_def)
  have o: "opened aw = opened (set_slot aw i ae') + held ae"
    using opened_update [OF i(1), of ae'] i(2) h by (simp add: slot_held_def)
  have m: "aside m' = aside m + held ae" by (simp add: r held_def)
  show ?thesis unfolding aw_ok_def st r(1) prod.case fst_conv snd_conv
  proof (intro conjI allI impI)
    show "map (map_option ae_proto) (aw_ep_cache (set_slot aw i ae')) = map (map_option ae_proto) (aw_ep_cache aw)"
      using i h(2) by (simp add: set_slot_def map_update list_update_same_conv)
    fix k
    assume "\<not> IS_SLOT_AVAIL (aw_ep_cache aw ! k)"
    then show "aw_ep_cache (set_slot aw i ae') ! k = aw_ep_cache aw ! k"
      using assms(2) st by (cases "k = i") (auto simp: set_slot_def)
  qed (simp_all add: o m counted_def)
qed

lemma expire_slot_ok:
  "expire_slot t i (n, st, m) = Some (n', st', m') \<Longrightarrow> aw_ok J (st, aside m) (st', aside m')"
  using set_aside_ok [of st i m st' m' J]
  by (auto simp: expire_slot_def ub_simps split: if_splits)

lemma expire_loop_ok:
  "expire_loop t cnt k (n, st, m) = Some (n', st', m') \<Longrightarrow> aw_ok J (st, aside m) (st', aside m')"
proof (induction k arbitrary: n st m)
  case (Suc i)
  then obtain n1 st1 m1 where s1: "expire_slot t i (n, st, m) = Some (n1, st1, m1)"
      and s2: "(if cnt \<le> aw_ep_mincache_sz (fst st1) + n1 then Some (n1, st1, m1) else expire_loop t cnt i (n1, st1, m1)) =
        Some (n', st', m')"
    by (cases "expire_slot t i (n, st, m)") auto
  show ?case
  proof (cases "cnt \<le> aw_ep_mincache_sz (fst st1) + n1")
    case True
    then show ?thesis using s2 expire_slot_ok [OF s1] by simp
  next
    case False
    then have "expire_loop t cnt i (n1, st1, m1) = Some (n', st', m')" using s2 by simp
    from aw_ok_trans [OF expire_slot_ok [OF s1] Suc.IH [OF this]] show ?thesis .
  qed
qed simp

text \<open>All endpoints of the pool speak AJP, and the messages have their buffers.\<close>

definition all_ajp :: "ajp_worker \<Rightarrow> bool" where
  "all_ajp aw \<longleftrightarrow> (\<forall>p \<in> set (map (map_option ae_proto) (aw_ep_cache aw)). p = None \<or> p = Some AJP13_PROTO \<or> p = Some AJP14_PROTO)"

lemma all_ajp_kept: "aw_ok J (st, a) (st', a') \<Longrightarrow> all_ajp (fst st) \<Longrightarrow> all_ajp (fst st')"
  by (simp add: aw_ok_def all_ajp_def)

lemma all_ajp_slot: "all_ajp aw \<Longrightarrow> i < ep_cache_sz aw \<Longrightarrow> aw_ep_cache aw ! i = Some ae \<Longrightarrow> ajp_proto ae"
  unfolding all_ajp_def ajp_proto_def by (metis image_eqI list.set_map nth_mem option.inject option.map(2) option.distinct(1))

lemma ping_slot_ok:
  assumes "ping_slot t msgs i (st, m) = Some (st', m')" and "all_ajp (fst st)" and "\<And>i. pred_option msg_room (msgs i)"
  shows "aw_ok J (st, aside m) (st', aside m')"
proof -
  obtain aw w where st: "st = (aw, w)" by (cases st)
  obtain e where e: "i < ep_cache_sz aw" "aw_ep_cache aw ! i = e" using assms(1) st by (auto simp: ping_slot_def ub_simps)
  show ?thesis
  proof (cases "IS_SLOT_AVAIL e \<and> slot_open e \<and> t - ae_last_access (the e) > aw_conn_ping_interval aw")
    case False
    have "(if IS_SLOT_AVAIL e \<and> slot_open e \<and> t - ae_last_access (the e) > aw_conn_ping_interval aw then X else Some ((aw, w), m)) =
        Some ((aw, w), m)" for X by (rule if_not_P [OF False])
    then show ?thesis using assms(1) e st by (auto simp: ping_slot_def simp del: if_split)
  next
    case True
    then obtain ae where ae: "e = Some ae" by (auto simp: IS_SLOT_AVAIL_def split: option.splits)
    obtain ok ae' s' w' where c: "ajp_handle_cping_cpong (ae, aw_s aw, w) (msgs i) = Some (ok, ae', s', w')"
        and r: "(if ok then Some (((set_slot aw i ae')\<lparr>aw_s := s'\<rparr>, w'), m)
          else set_aside ((set_slot aw i ae')\<lparr>aw_s := s'\<rparr>, w') i m) = Some (st', m')"
      using assms(1) st e ae True
      by (cases "ajp_handle_cping_cpong (ae, aw_s aw, w) (msgs i)") (auto simp: ping_slot_def Let_def split del: if_split)
    have k: "ep_kept (ae, aw_s aw, w) (ae', s', w')"
      using cping_kept [OF c] all_ajp_slot [of aw i ae] assms(2,3) st e ae by simp
    let ?f = "\<lambda>x. if x = (ae, aw_s aw, w) then (ae', s', w') else x"
    have "at_slot ?f (aw, w) i = Some ((set_slot aw i ae')\<lparr>aw_s := s'\<rparr>, w')" using e ae by (simp add: at_slot_def)
    then have ok1: "aw_ok J ((aw, w), aside m) (((set_slot aw i ae')\<lparr>aw_s := s'\<rparr>, w'), aside m)"
      by (rule at_slot_ok) (use True e ae ep_kept_bal [OF k] ep_kept_bal in auto)
    show ?thesis
    proof (cases ok)
      case True
      then show ?thesis using r ok1 st by simp
    next
      case False
      have "IS_SLOT_AVAIL (aw_ep_cache (fst ((set_slot aw i ae')\<lparr>aw_s := s'\<rparr>, w')) ! i)"
        using True k ae e by (simp add: set_slot_def IS_SLOT_AVAIL_def ep_kept_def)
      then have "aw_ok J (((set_slot aw i ae')\<lparr>aw_s := s'\<rparr>, w'), aside m) (st', aside m')"
        using r False by (intro set_aside_ok) simp_all
      with ok1 show ?thesis unfolding st by (rule aw_ok_trans)
    qed
  qed
qed

lemma ping_loop_ok:
  assumes "\<And>i. pred_option msg_room (msgs i)"
  shows "ping_loop t msgs k (st, m) = Some (st', m') \<Longrightarrow> all_ajp (fst st) \<Longrightarrow> aw_ok J (st, aside m) (st', aside m')"
proof (induction k arbitrary: st m)
  case (Suc i)
  then obtain st1 m1 where s1: "ping_slot t msgs i (st, m) = Some (st1, m1)"
      and s2: "ping_loop t msgs i (st1, m1) = Some (st', m')"
    by (cases "ping_slot t msgs i (st, m)") auto
  have o: "aw_ok J (st, aside m) (st1, aside m1)" using ping_slot_ok [OF s1 Suc.prems(2) assms] .
  from aw_ok_trans [OF this Suc.IH [OF s2 all_ajp_kept [OF o Suc.prems(2)]]] show ?case .
qed simp

lemma shut_all_spec:
  "shut_all s w m = (s', w') \<Longrightarrow> closed_sds w' = closed_sds w + aside m \<and>
     (int (size (aside m)) \<le> sa_connected s \<longrightarrow> sa_connected s' = sa_connected s - int (size (aside m)))"
  by (induction m arbitrary: s w) (auto split: if_splits)

lemma maintain_ok:
  assumes "ajp_maintain st t ok msgs = Some (r, st')" and "all_ajp (fst st)" and "\<And>i. pred_option msg_room (msgs i)"
  shows "aw_ok J (st, {#}) (st', {#})"
proof (cases "aw_cache_timeout (fst st) \<le> 0 \<and> aw_conn_ping_interval (fst st) \<le> 0")
  case True
  then show ?thesis using assms(1) by (simp add: ajp_maintain_def)
next
  case False
  let ?aw = "fst st" and ?cnt = "count_open (fst st)"
  obtain n st1 m1 where e: "(if aw_cache_timeout ?aw > 0 then expire_loop t ?cnt (ep_cache_sz ?aw) (0, st, []) else Some (0, st, [])) =
      Some (n, st1, m1)"
    using assms(1) False unfolding ajp_maintain_def Let_def if_not_P [OF False]
    by (cases "if aw_cache_timeout ?aw > 0 then expire_loop t ?cnt (ep_cache_sz ?aw) (0, st, []) else Some (0, st, [])")
      (auto split del: if_split)
  obtain st2 m2 where p: "(if aw_conn_ping_interval ?aw > 0 \<and> aw_ping_timeout ?aw > 0
      then ping_loop t msgs (ep_cache_sz ?aw) (st1, m1) else Some (st1, m1)) = Some (st2, m2)"
    using assms(1) unfolding ajp_maintain_def Let_def if_not_P [OF False] e bind.bind_lunit prod.case
    by (cases "if aw_conn_ping_interval ?aw > 0 \<and> aw_ping_timeout ?aw > 0
      then ping_loop t msgs (ep_cache_sz ?aw) (st1, m1) else Some (st1, m1)") (auto split del: if_split)
  obtain s' w' where sh: "shut_all (aw_s (fst st2)) (snd st2) m2 = (s', w')" by fastforce
  have st': "st' = ((fst st2)\<lparr>aw_s := s'\<rparr>, w')"
    using assms(1) unfolding ajp_maintain_def Let_def if_not_P [OF False] e p bind.bind_lunit prod.case sh
    by (auto simp: ub_simps)
  have o1: "aw_ok J (st, aside []) (st1, aside m1)"
    using e expire_loop_ok [of t ?cnt "ep_cache_sz ?aw" 0 st "[]" n st1 m1 J] by (cases "aw_cache_timeout ?aw > 0") simp_all
  have "all_ajp (fst st1)" using all_ajp_kept [OF o1 assms(2)] .
  then have o2: "aw_ok J (st1, aside m1) (st2, aside m2)" using p ping_loop_ok [where msgs = msgs, OF assms(3), of t "ep_cache_sz ?aw" st1 m1 st2 m2 J]
    by (cases "aw_conn_ping_interval ?aw > 0 \<and> aw_ping_timeout ?aw > 0") auto
  have "aw_ok J (st2, aside m2) (st', {#})"
    using shut_all_spec [OF sh] by (auto simp: aw_ok_def st' counted_def)
  from aw_ok_trans [OF aw_ok_trans [OF o1 o2] this] show ?thesis by simp
qed

lemma drop_at_slot:
  assumes "at_slot drop_socket (aw, w) i = Some (aw1, w1)"
  shows "i < ep_cache_sz aw1 \<and> (\<exists>ae. aw_ep_cache aw1 ! i = Some ae \<and> held ae = {#})"
proof -
  obtain x where x: "i < ep_cache_sz aw" "aw_ep_cache aw ! i = Some x" using assms by (auto simp: at_slot_def ub_simps)
  obtain ae s' w' where f: "drop_socket (x, aw_s aw, w) = (ae, s', w')" by (cases "drop_socket (x, aw_s aw, w)")
  then have "held ae = {#}" by (auto simp: drop_socket_def held_def split: if_splits)
  then show ?thesis using assms x f by (auto simp: at_slot_def set_slot_def)
qed

lemma steal_loop_ok:
  assumes "i < ep_cache_sz (fst st)" and "aw_ep_cache (fst st) ! i = Some ae" and "held ae = {#}"
  shows "steal_loop st i ks = Some st' \<Longrightarrow> aw_ok {i} (st, a) (st', a)"
proof (induction ks)
  case (Cons k ks)
  obtain aw w where st: "st = (aw, w)" by (cases st)
  obtain e where e: "k < ep_cache_sz aw" "aw_ep_cache aw ! k = e"
    using Cons.prems st by (auto simp: ub_simps)
  show ?case
  proof (cases "IS_SLOT_AVAIL e \<and> slot_open e")
    case False
    have "(if IS_SLOT_AVAIL e \<and> slot_open e then X else steal_loop (aw, w) i ks) = steal_loop (aw, w) i ks" for X
      by (rule if_not_P [OF False])
    then show ?thesis using Cons st e by (simp split del: if_split)
  next
    case True
    then obtain ek where ek: "e = Some ek" "IS_VALID_SOCKET (ae_sd ek)"
      by (auto simp: slot_open_def split: option.splits)
    have ki: "k \<noteq> i" using ek e assms(2,3) st by (auto simp: held_def)
    let ?i = "ae\<lparr>ae_sd := ae_sd ek\<rparr>" and ?k = "ek\<lparr>ae_sd := JK_INVALID_SOCKET\<rparr>"
    let ?aw1 = "set_slot aw i ?i" and ?aw2 = "set_slot (set_slot aw i ?i) k ?k"
    have st': "st' = (?aw2, w)" using Cons.prems st e ek assms True ki
      by (auto simp: at_slot_def upd_ep_def set_slot_def)
    have h: "held ?i = held ek" "held ?k = {#}" "held ek = {#ae_sd ek#}" using ek by (simp_all add: held_def)
    have o1: "opened ?aw1 = opened aw + held ek"
      using opened_update [of i aw ?i] assms st h by (simp add: slot_held_def)
    have "aw_ep_cache ?aw1 ! k = Some ek" using ki e ek by (simp add: set_slot_def)
    then have "opened ?aw2 + held ek = opened ?aw1"
      using opened_update [of k ?aw1 ?k] e h by (simp add: slot_held_def)
    then have o: "opened ?aw2 = opened aw" using o1 by simp
    show ?thesis unfolding aw_ok_def st st' prod.case fst_conv snd_conv
    proof (intro conjI allI impI)
      show "map (map_option ae_proto) (aw_ep_cache ?aw2) = map (map_option ae_proto) (aw_ep_cache aw)"
        by (rule nth_equalityI) (use assms st e ek in \<open>auto simp: set_slot_def nth_list_update\<close>)
      fix j
      assume "j \<notin> {i}" "\<not> IS_SLOT_AVAIL (aw_ep_cache aw ! j)"
      then show "aw_ep_cache ?aw2 ! j = aw_ep_cache aw ! j"
        using True e by (cases "j = k") (auto simp: set_slot_def)
    qed (simp_all add: o counted_def)
  qed
qed simp

lemma next_connection_ok:
  assumes "ajp_next_connection st i = Some (r, st')"
  shows "aw_ok {i} (st, a) (st', a)"
proof -
  obtain st1 where d: "at_slot drop_socket st i = Some st1" and s: "steal_loop st1 i [0..<ep_cache_sz (fst st1)] = Some st'"
    using assms by (auto simp: ajp_next_connection_def ub_simps)
  have o1: "aw_ok {i} (st, a) (st1, a)" using d by (rule at_slot_ok) (simp_all add: drop_socket_bal)
  obtain ae where "i < ep_cache_sz (fst st1)" "aw_ep_cache (fst st1) ! i = Some ae" "held ae = {#}"
    using drop_at_slot [of "fst st" "snd st" i "fst st1" "snd st1"] d by auto
  from aw_ok_trans [OF o1 steal_loop_ok [OF this s]] show ?thesis .
qed

section \<open>The pool as a transition system\<close>

text \<open>A step of some thread: of the thread that owns the endpoint in slot \<open>i\<close>, label \<open>Some i\<close>, or of any
  other; with the descriptors that it opens. A new descriptor is not one that is open in the pool.\<close>

inductive aw_step :: "nat option \<Rightarrow> int multiset \<Rightarrow> aw_state \<Rightarrow> aw_state \<Rightarrow> bool" where
  acquire: "try_endpoint st = Some (r, st') \<Longrightarrow> aw_step None {#} st st'"
| stamp: "at_slot (upd_ep (\<lambda>ae. ae\<lparr>ae_last_access := now\<rparr>)) st i = Some st' \<Longrightarrow> aw_step (Some i) {#} st st'"
| connect: "i < ep_cache_sz aw \<Longrightarrow> aw_ep_cache aw ! i = Some ae \<Longrightarrow> held ae = {#} \<Longrightarrow> sd \<notin># opened aw \<Longrightarrow>
    pred_option msg_room msg \<Longrightarrow>
    ajp_connect_to_endpoint (ae, aw_s aw, w) sd now (aw_cache_timeout aw) (aw_connect_timeout aw) None msg = Some (rc, ae', s', w') \<Longrightarrow>
    aw_step (Some i) (if IS_VALID_SOCKET sd then {#sd#} else {#}) (aw, w) ((set_slot aw i ae')\<lparr>aw_s := s'\<rparr>, w')"
| send: "i < ep_cache_sz aw \<Longrightarrow> aw_ep_cache aw ! i = Some ae \<Longrightarrow> 0 < mb_len msg \<Longrightarrow>
    ajp_connection_tcp_send_message (ae, aw_s aw, w) msg = Some (rc, msg', ae', s', w') \<Longrightarrow>
    aw_step (Some i) {#} (aw, w) ((set_slot aw i ae')\<lparr>aw_s := s'\<rparr>, w')"
| receive: "i < ep_cache_sz aw \<Longrightarrow> aw_ep_cache aw ! i = Some ae \<Longrightarrow> msg_room msg \<Longrightarrow>
    ajp_connection_tcp_get_message (ae, aw_s aw, w) msg = Some (rc, msg', ae', s', w') \<Longrightarrow>
    aw_step (Some i) {#} (aw, w) ((set_slot aw i ae')\<lparr>aw_s := s'\<rparr>, w')"
| abort: "at_slot (\<lambda>s. ajp_abort_endpoint s True) st i = Some st' \<Longrightarrow> aw_step (Some i) {#} st st'"
| next_conn: "ajp_next_connection st i = Some (r, st') \<Longrightarrow> aw_step (Some i) {#} st st'"
| give_back: "ajp_done st i now = Some st' \<Longrightarrow> aw_step (Some i) {#} st st'"
| maintain: "ajp_maintain st t ok msgs = Some (r, st') \<Longrightarrow> (\<And>i. pred_option msg_room (msgs i)) \<Longrightarrow> aw_step None {#} st st'"
| shutdown: "ajp_shutdown st = Some st' \<Longrightarrow> aw_step None {#} st st'"
| pull: "jk_ajp_pull resolves st = Some st' \<Longrightarrow> aw_step None {#} st st'"
| push: "jk_ajp_push st = Some st' \<Longrightarrow> aw_step None {#} st st'"

inductive aw_reach :: "aw_state \<Rightarrow> int multiset \<Rightarrow> bool" where
  start: "ajp_create_endpoint_cache True alloc sz proto now aw = (True, aw') \<Longrightarrow>
    proto = AJP13_PROTO \<or> proto = AJP14_PROTO \<Longrightarrow> sa_connected (aw_s aw) = 0 \<Longrightarrow> w_closed w = [] \<Longrightarrow>
    aw_reach (aw', w) {#}"
| step: "aw_reach st ever \<Longrightarrow> aw_step l new st st' \<Longrightarrow> aw_reach st' (ever + new)"

lemma slot_op_ok:
  assumes "i < ep_cache_sz aw" and "aw_ep_cache aw ! i = Some ae" and "ep_kept (ae, aw_s aw, w) (ae', s', w')"
  shows "aw_ok {i} ((aw, w), a) (((set_slot aw i ae')\<lparr>aw_s := s'\<rparr>, w'), a)"
proof -
  let ?f = "\<lambda>x. if x = (ae, aw_s aw, w) then (ae', s', w') else x"
  have "at_slot ?f (aw, w) i = Some ((set_slot aw i ae')\<lparr>aw_s := s'\<rparr>, w')" using assms by (simp add: at_slot_def)
  then show ?thesis by (rule at_slot_ok) (use ep_kept_bal [OF assms(3)] ep_kept_bal in auto)
qed

text \<open>Every step that opens nothing keeps the account.\<close>

lemma aw_step_ok:
  "aw_step l new st st' \<Longrightarrow> all_ajp (fst st) \<Longrightarrow> new = {#} \<Longrightarrow> l = Some i \<and> J = {i} \<or> l = None \<and> J = {} \<Longrightarrow>
     aw_ok J (st, {#}) (st', {#})"
proof (induction rule: aw_step.induct)
  case (connect i aw ae sd msg w now rc ae' s' w')
  then have inv: "\<not> IS_VALID_SOCKET sd" by (auto split: if_splits)
  have e: "(ae', s', w') = (ae\<lparr>ae_sd := sd\<rparr>, aw_s aw, w)"
    using connect_kept [OF connect(6)] all_ajp_slot [OF _ connect(1,2)] connect(5,7) inv by simp
  then have "ep_kept (ae, aw_s aw, w) (ae', s', w')" using connect(3) inv by (auto simp: ep_kept_def held_def)
  then show ?case using slot_op_ok [OF connect(1,2)] connect(9) by simp
next
  case (send i aw ae msg w rc msg' ae' s' w')
  then show ?case using slot_op_ok [OF send(1,2) send_message_kept [OF send(4,3)]] by simp
next
  case (receive i aw ae msg w rc msg' ae' s' w')
  have "ep_kept (ae, aw_s aw, w) (ae', s', w')"
    by (rule get_message_ok [OF all_ajp_slot [OF _ receive(1,2)] receive(3), of "aw_s aw" w]) (use receive in auto)
  then show ?case using slot_op_ok [OF receive(1,2)] receive by simp
next
  case (stamp now st i st')
  then show ?case using at_slot_ok [OF stamp(1), of J "{#}"] ep_bal_upd by auto
next
  case (pull resolves st st')
  then show ?case using pull_ok [of resolves "fst st" "snd st" st'] by simp
next
  case (push st st')
  then show ?case using push_ok [of "fst st" "snd st" st'] by simp
next
  case (maintain st t ok msgs r st')
  then show ?case using maintain_ok by blast
next
  case (shutdown st st')
  then show ?case using shutdown_loop_ok by (simp add: ajp_shutdown_def)
qed (auto simp: try_endpoint_ok abort_at_ok next_connection_ok done_ok)

definition pool_ok :: "aw_state \<Rightarrow> int multiset \<Rightarrow> bool" where
  "pool_ok st ever \<longleftrightarrow> all_ajp (fst st) \<and> counted st {#} \<and> opened (fst st) + closed_sds (snd st) = ever \<and>
     (\<forall>sd. count (opened (fst st)) sd \<le> 1)"

definition others_kept :: "nat option \<Rightarrow> aw_state \<Rightarrow> aw_state \<Rightarrow> bool" where
  "others_kept l st st' \<longleftrightarrow> (\<forall>i < ep_cache_sz (fst st). l \<noteq> Some i \<longrightarrow> \<not> IS_SLOT_AVAIL (aw_ep_cache (fst st) ! i) \<longrightarrow>
     aw_ep_cache (fst st') ! i = aw_ep_cache (fst st) ! i)"

lemma count_sub: "M \<subseteq># N \<Longrightarrow> \<forall>x. count N x \<le> 1 \<Longrightarrow> \<forall>x. count M x \<le> (1::nat)"
  by (meson mset_subset_eq_count order_trans)

lemma connect_pool_ok:
  assumes "pool_ok (aw, w) ever" and "i < ep_cache_sz aw" and "aw_ep_cache aw ! i = Some ae" and "held ae = {#}"
    and "sd \<notin># opened aw" and "pred_option msg_room msg" and "IS_VALID_SOCKET sd"
    and "ajp_connect_to_endpoint (ae, aw_s aw, w) sd now ct cto None msg = Some (rc, ae', s', w')"
  shows "pool_ok ((set_slot aw i ae')\<lparr>aw_s := s'\<rparr>, w') (ever + {#sd#}) \<and>
    others_kept (Some i) (aw, w) ((set_slot aw i ae')\<lparr>aw_s := s'\<rparr>, w')"
proof -
  have p: "all_ajp aw" "counted (aw, w) {#}" "opened aw + closed_sds w = ever" "\<forall>x. count (opened aw) x \<le> 1"
    using assms(1) by (simp_all add: pool_ok_def)
  obtain ae1 s1 where k: "ep_kept (ae1, s1, w) (ae', s', w')" "held ae1 = {#sd#}"
      "sa_connected s1 = sa_connected (aw_s aw) + 1" "ae_proto ae1 = ae_proto ae"
    using connect_kept [OF assms(8) all_ajp_slot [OF p(1) assms(2,3)] assms(6)] assms(7) by auto
  let ?aw1 = "(set_slot aw i ae1)\<lparr>aw_s := s1\<rparr>" and ?aw2 = "(set_slot aw i ae')\<lparr>aw_s := s'\<rparr>"
  have o: "opened ?aw1 = opened aw + {#sd#}"
    using opened_update [OF assms(2), of ae1] assms(3,4) k(2) by (simp add: slot_held_def)
  have c: "counted (?aw1, w) {#}" using p(2) o k(3) by (simp add: counted_def)
  have pr: "map (map_option ae_proto) (aw_ep_cache ?aw1) = map (map_option ae_proto) (aw_ep_cache aw)"
    using assms(2,3) k(4) by (simp add: set_slot_def map_update list_update_same_conv)
  have ok: "aw_ok {i} ((?aw1, w), {#}) ((?aw2, w'), {#})"
    using slot_op_ok [of i ?aw1 ae1 w ae' s' w' "{#}"] k(1) assms(2) by (simp add: set_slot_def)
  have cnt: "\<forall>x. count (opened aw + {#sd#}) x \<le> 1" using p(4) assms(5) by (auto simp: not_in_iff)
  have "opened ?aw2 \<subseteq># opened aw + {#sd#}" "counted (?aw2, w') {#}"
      "opened ?aw2 + closed_sds w' = opened aw + {#sd#} + closed_sds w"
      "map (map_option ae_proto) (aw_ep_cache ?aw2) = map (map_option ae_proto) (aw_ep_cache aw)"
    using ok c o pr unfolding aw_ok_def by simp_all
  then have "pool_ok (?aw2, w') (ever + {#sd#})"
    using p count_sub [OF _ cnt] unfolding pool_ok_def all_ajp_def by (auto simp: ac_simps)
  moreover have "others_kept (Some i) (aw, w) (?aw2, w')" by (auto simp: others_kept_def set_slot_def)
  ultimately show ?thesis ..
qed

lemma aw_step_inv:
  assumes "aw_step l new st st'" and "pool_ok st ever"
  shows "pool_ok st' (ever + new) \<and> others_kept l st st'"
proof (cases "new = {#}")
  case True
  obtain J where J: "(\<exists>i. l = Some i \<and> J = {i}) \<or> l = None \<and> J = {}" by (cases l) auto
  then have ok: "aw_ok J (st, {#}) (st', {#})" using aw_step_ok [OF assms(1)] assms(2) True by (auto simp: pool_ok_def)
  have "pool_ok st' ever"
    using ok assms(2) count_sub all_ajp_kept [OF ok] by (auto simp: pool_ok_def aw_ok_def)
  moreover have "others_kept l st st'" using ok J by (auto simp: others_kept_def aw_ok_def)
  ultimately show ?thesis using True by simp
next
  case False
  with assms(1) show ?thesis
  proof (cases rule: aw_step.cases)
    case (connect i aw ae sd msg w now rc ae' s' w')
    then have v: "IS_VALID_SOCKET sd" using False by (auto split: if_splits)
    show ?thesis using connect_pool_ok [OF assms(2) [unfolded connect(3)] connect(5,6,7,8,9) v connect(10)] connect(1-4) v
      by simp
  qed auto
qed

lemma create_slots_spec:
  "create_slots alloc proto now is aw = (True, aw') \<Longrightarrow> aw_s aw' = aw_s aw \<and>
     (\<forall>e \<in> set (aw_ep_cache aw'). e \<in> set (aw_ep_cache aw) \<or> e = Some (new_endpoint proto now))"
proof (induction "is" arbitrary: aw)
  case (Cons i "is")
  then have c: "create_slots alloc proto now is (set_slot aw i (new_endpoint proto now)) = (True, aw')" by (simp split: if_splits)
  show ?case using Cons.IH [OF c] set_update_subset_insert [of "aw_ep_cache aw" i "Some (new_endpoint proto now)"]
    by (auto simp: set_slot_def)
qed simp

lemma aw_reach_ok: "aw_reach st ever \<Longrightarrow> pool_ok st ever"
proof (induction rule: aw_reach.induct)
  case (start alloc sz proto now aw aw' w)
  then have c: "create_slots alloc proto now [0..<sz] (aw\<lparr>aw_ep_cache := replicate sz None\<rparr>) = (True, aw')"
    by (simp add: ajp_create_endpoint_cache_def)
  have e: "e = None \<or> e = Some (new_endpoint proto now)" if "e \<in> set (aw_ep_cache aw')" for e
    using create_slots_spec [OF c] that by auto
  then have "slot_held e = {#}" if "e \<in> set (aw_ep_cache aw')" for e
    using that by (fastforce simp: slot_held_def held_def new_endpoint_def)
  then have "opened aw' = {#}" unfolding opened_def by (simp add: sum_list_0 cong: map_cong)
  moreover have "all_ajp aw'" using e start(2) by (fastforce simp: all_ajp_def new_endpoint_def)
  ultimately show ?case using create_slots_spec [OF c] start(3,4) by (simp add: pool_ok_def counted_def closed_sds_def)
next
  case (step st ever l new st')
  then show ?case using aw_step_inv by blast
qed

lemma size_opened: "size (opened aw) = count_open aw"
proof -
  have "size (sum_list (map slot_held xs)) = length (filter slot_open xs)" for xs
    by (induction xs) (auto simp: slot_held_def slot_open_def held_def split: option.splits)
  then show ?thesis by (simp add: opened_def count_open_def)
qed

section \<open>The theorems\<close>


definition demo_aw :: ajp_worker where
  "demo_aw = \<lparr>aw_s = demo_shm\<lparr>sa_connected := 0\<rparr>, aw_sequence = 0, aw_host = ''localhost'', aw_port = 8009,
     aw_addr_sequence = 0, aw_ep_cache = [], aw_ep_mincache_sz = 1, aw_cache_acquire_timeout = 200,
     aw_cache_timeout = 60, aw_connect_timeout = 0, aw_reply_timeout = 0, aw_prepost_timeout = 0,
     aw_conn_ping_interval = 0, aw_ping_timeout = 0, aw_recovery_opts = 0, aw_retries = 2, aw_retry_interval = 100,
     aw_busy_limit = 0, aw_max_packet_size = 8192, aw_secret = None, aw_http_status_fail = []\<rparr>"

definition demo_pool :: ajp_worker where
  "demo_pool = snd (ajp_create_endpoint_cache True (\<lambda>_. True) 2 AJP13_PROTO 0 demo_aw)"

lemma demo_pool_reach: "aw_reach (demo_pool, demo_world []) {#}"
  by (rule aw_reach.start [of "\<lambda>_. True" 2 AJP13_PROTO 0 demo_aw])
    (simp_all add: demo_pool_def demo_aw_def demo_world_def ajp_create_endpoint_cache_def set_slot_def numeral_2_eq_2)


text \<open>Claim C18: an endpoint in use belongs to its thread. No step of another thread, maintenance, shutdown and
  configuration changes included, writes the endpoint in a slot that is not available.\<close>

theorem ajp_endpoint_private:
  assumes "aw_reach (aw, w) ever" and "aw_step l new (aw, w) (aw', w')" and "l \<noteq> Some i"
    and "i < ep_cache_sz aw" and "\<not> IS_SLOT_AVAIL (aw_ep_cache aw ! i)"
  shows "aw_ep_cache aw' ! i = aw_ep_cache aw ! i"
  using aw_step_inv [OF assms(2) aw_reach_ok [OF assms(1)]] assms(3-5) by (simp add: others_kept_def)

definition demo_taken :: aw_state where
  "demo_taken = snd (the (try_endpoint (demo_pool, demo_world [])))"

lemma demo_taken_step:
  "\<exists>r. try_endpoint (demo_pool, demo_world []) = Some (r, demo_taken)"
  "\<exists>r st'. try_endpoint demo_taken = Some (r, st')" "ep_cache_sz (fst demo_taken) = 2"
  "\<not> IS_SLOT_AVAIL (aw_ep_cache (fst demo_taken) ! 0)"
  by (simp_all add: demo_taken_def demo_pool_def demo_aw_def ajp_create_endpoint_cache_def set_slot_def numeral_2_eq_2
      try_endpoint_def IS_SLOT_AVAIL_def slot_open_def new_endpoint_def at_slot_def upd_ep_def)

theorem ajp_endpoint_private_witness:
  "\<exists>r aw' w'. try_endpoint demo_taken = Some (r, aw', w') \<and> aw_ep_cache aw' ! 0 = aw_ep_cache (fst demo_taken) ! 0"
proof -
  obtain r st' where t: "try_endpoint demo_taken = Some (r, st')" using demo_taken_step(2) by auto
  obtain r0 where t0: "try_endpoint (demo_pool, demo_world []) = Some (r0, demo_taken)" using demo_taken_step(1) by auto
  have "aw_reach demo_taken ({#} + {#})" using demo_pool_reach aw_step.acquire [OF t0] by (rule aw_reach.step)
  then have "aw_ep_cache (fst st') ! 0 = aw_ep_cache (fst demo_taken) ! 0"
    using ajp_endpoint_private [of "fst demo_taken" "snd demo_taken" "{#} + {#}" None "{#}" "fst st'" "snd st'" 0]
      aw_step.acquire [OF t] demo_taken_step(3,4) by simp
  then show ?thesis using t by (cases st') auto
qed

text \<open>The scans are defined, and their outcome.\<close>

definition usable_slot :: "ajp_endpoint option \<Rightarrow> bool" where
  "usable_slot e \<longleftrightarrow> IS_SLOT_AVAIL e \<and> slot_open e \<and> ae_reuse (the e)"

lemma reset_avail [simp]: "ae_avail (fst (ajp_reset_endpoint st)) = ae_avail (fst st)"
  by (cases st) (simp add: ajp_reset_endpoint_def ajp_abort_endpoint_def)

lemma at_slot_some:
  assumes "i < ep_cache_sz aw" and "aw_ep_cache aw ! i = Some ae"
  obtains ae' s' w' where "f (ae, aw_s aw, w) = (ae', s', w')"
    "at_slot f (aw, w) i = Some ((set_slot aw i ae')\<lparr>aw_s := s'\<rparr>, w')"
  using assms by (cases "f (ae, aw_s aw, w)") (auto simp: at_slot_def)

lemma avail_some: "IS_SLOT_AVAIL e \<Longrightarrow> \<exists>ae. e = Some ae \<and> ae_avail ae"
  by (auto simp: IS_SLOT_AVAIL_def split: option.splits)

definition slot_taken :: "ajp_endpoint option \<Rightarrow> bool" where
  "slot_taken e \<longleftrightarrow> (case e of None \<Rightarrow> False | Some ae \<Rightarrow> \<not> ae_avail ae)"

definition scan_post :: "ajp_worker \<Rightarrow> nat list \<Rightarrow> nat option \<Rightarrow> ajp_worker \<Rightarrow> bool" where
  "scan_post aw slots r aw' \<longleftrightarrow> ep_cache_sz aw' = ep_cache_sz aw \<and>
     (case r of
        Some k \<Rightarrow> k \<in> set slots \<and> usable_slot (aw_ep_cache aw ! k) \<and> slot_taken (aw_ep_cache aw' ! k)
      | None \<Rightarrow> (\<forall>k \<in> set slots. \<not> usable_slot (aw_ep_cache aw ! k)) \<and>
          (\<forall>k < ep_cache_sz aw. IS_SLOT_AVAIL (aw_ep_cache aw' ! k) = IS_SLOT_AVAIL (aw_ep_cache aw ! k)))"

lemma scan_connected_spec:
  assumes "distinct slots" and "\<forall>k \<in> set slots. k < ep_cache_sz aw"
  shows "\<exists>r aw' w'. scan_connected (aw, w) slots = Some (r, aw', w') \<and> scan_post aw slots r aw'"
  using assms
proof (induction slots arbitrary: aw w)
  case (Cons k ks)
  let ?e = "aw_ep_cache aw ! k"
  have k: "k < ep_cache_sz aw" "k \<notin> set ks" "distinct ks" "\<forall>j \<in> set ks. j < ep_cache_sz aw" using Cons.prems by simp_all
  show ?case
  proof (cases "IS_SLOT_AVAIL ?e \<and> slot_open ?e")
    case False
    then have "scan_connected (aw, w) (k # ks) = scan_connected (aw, w) ks" using k(1) by auto
    moreover have "\<not> usable_slot ?e" using False by (auto simp: usable_slot_def)
    moreover obtain r aw' w' where "scan_connected (aw, w) ks = Some (r, aw', w')" "scan_post aw ks r aw'"
      using Cons.IH [OF k(3,4)] by blast
    ultimately show ?thesis by (cases r) (auto simp: scan_post_def)
  next
    case True
    then obtain ae where ae: "?e = Some ae" "ae_avail ae" using avail_some by blast
    show ?thesis
    proof (cases "ae_reuse ae")
      case reuse: True
      have "scan_connected (aw, w) (k # ks) = Some (Some k, set_slot aw k (ae\<lparr>ae_avail := False\<rparr>), w)"
        using k True ae reuse by (simp add: at_slot_def upd_ep_def set_slot_def)
      moreover have "usable_slot ?e" using True reuse ae by (simp add: usable_slot_def)
      ultimately show ?thesis using k(1) by (auto simp: scan_post_def set_slot_def slot_taken_def)
    next
      case no: False
      let ?f = "\<lambda>s. upd_ep (\<lambda>ae. ae\<lparr>ae_avail := True\<rparr>) (ajp_reset_endpoint s)"
      obtain ae' s' w' where f: "?f (ae, aw_s aw, w) = (ae', s', w')"
          and at: "at_slot ?f (aw, w) k = Some ((set_slot aw k ae')\<lparr>aw_s := s'\<rparr>, w')"
        using at_slot_some [OF k(1) ae(1), of ?f w] by blast
      let ?aw1 = "(set_slot aw k ae')\<lparr>aw_s := s'\<rparr>"
      have "ae_avail ae'" using f by (auto simp: upd_ep_def)
      then have same: "IS_SLOT_AVAIL (aw_ep_cache ?aw1 ! j) = IS_SLOT_AVAIL (aw_ep_cache aw ! j)" if "j < ep_cache_sz aw" for j
        using that True ae by (cases "j = k") (simp_all add: set_slot_def IS_SLOT_AVAIL_def)
      have other: "aw_ep_cache ?aw1 ! j = aw_ep_cache aw ! j" if "j \<in> set ks" for j
        using that k(2) by (cases "j = k") (simp_all add: set_slot_def)
      have step: "scan_connected (aw, w) (k # ks) = scan_connected (?aw1, w') ks" using k True ae no at by simp
      have nu: "\<not> usable_slot ?e" using no ae by (simp add: usable_slot_def)
      have "\<forall>j \<in> set ks. j < ep_cache_sz ?aw1" using k(4) by (simp add: set_slot_def)
      from Cons.IH [OF k(3) this, of w'] obtain r aw' w'' where ih: "scan_connected (?aw1, w') ks = Some (r, aw', w'')"
          "scan_post ?aw1 ks r aw'" by blast
      have "scan_post aw (k # ks) r aw'"
      proof (cases r)
        case None
        then show ?thesis using ih(2) nu same other unfolding scan_post_def by (auto simp: set_slot_def)
      next
        case (Some j)
        then show ?thesis using ih(2) other unfolding scan_post_def by (auto simp: set_slot_def)
      qed
      with step ih(1) show ?thesis by metis
    qed
  qed
qed (simp add: scan_post_def)

lemma scan_free_spec:
  assumes "\<forall>k \<in> set slots. k < ep_cache_sz aw"
  shows "\<exists>r aw' w'. scan_free (aw, w) slots = Some (r, aw', w') \<and>
    (case r of
       Some k \<Rightarrow> k \<in> set slots \<and> IS_SLOT_AVAIL (aw_ep_cache aw ! k) \<and> slot_taken (aw_ep_cache aw' ! k) \<and> ep_cache_sz aw' = ep_cache_sz aw
     | None \<Rightarrow> \<forall>k \<in> set slots. \<not> IS_SLOT_AVAIL (aw_ep_cache aw ! k))"
  using assms
proof (induction slots)
  case (Cons k ks)
  let ?e = "aw_ep_cache aw ! k"
  have k: "k < ep_cache_sz aw" using Cons.prems by simp
  show ?case
  proof (cases "IS_SLOT_AVAIL ?e")
    case True
    then obtain ae where ae: "?e = Some ae" "ae_avail ae" using avail_some by blast
    have "scan_free (aw, w) (k # ks) = Some (Some k, set_slot aw k (ae\<lparr>ae_avail := False\<rparr>), w)"
      using k True ae by (simp add: at_slot_def upd_ep_def set_slot_def)
    then show ?thesis using k True by (auto simp: set_slot_def slot_taken_def)
  next
    case False
    then have "scan_free (aw, w) (k # ks) = scan_free (aw, w) ks" using k by simp
    moreover obtain r aw' w' where "scan_free (aw, w) ks = Some (r, aw', w') \<and>
      (case r of
         Some k \<Rightarrow> k \<in> set ks \<and> IS_SLOT_AVAIL (aw_ep_cache aw ! k) \<and> slot_taken (aw_ep_cache aw' ! k) \<and> ep_cache_sz aw' = ep_cache_sz aw
       | None \<Rightarrow> \<forall>k \<in> set ks. \<not> IS_SLOT_AVAIL (aw_ep_cache aw ! k))"
      using Cons.IH Cons.prems by auto
    ultimately show ?thesis using False by (cases r) auto
  qed
qed simp

definition got_slot :: "ajp_worker \<Rightarrow> nat option \<Rightarrow> ajp_worker \<Rightarrow> bool" where
  "got_slot aw r aw' \<longleftrightarrow>
     (case r of
        Some k \<Rightarrow> k < ep_cache_sz aw \<and> IS_SLOT_AVAIL (aw_ep_cache aw ! k) \<and> ep_cache_sz aw' = ep_cache_sz aw \<and>
          slot_taken (aw_ep_cache aw' ! k) \<and>
          ((\<exists>j < ep_cache_sz aw. usable_slot (aw_ep_cache aw ! j)) \<longrightarrow> usable_slot (aw_ep_cache aw ! k))
      | None \<Rightarrow> \<forall>k < ep_cache_sz aw. \<not> IS_SLOT_AVAIL (aw_ep_cache aw ! k))"

lemma try_endpoint_spec: "\<exists>r aw' w'. try_endpoint (aw, w) = Some (r, aw', w') \<and> got_slot aw r aw'"
proof -
  obtain r1 aw1 w1 where a: "scan_connected (aw, w) [0..<ep_cache_sz aw] = Some (r1, aw1, w1)"
      "scan_post aw [0..<ep_cache_sz aw] r1 aw1"
    using scan_connected_spec [of "[0..<ep_cache_sz aw]" aw w] by auto
  show ?thesis
  proof (cases r1)
    case (Some k)
    then have "try_endpoint (aw, w) = Some (Some k, aw1, w1)" using a(1) by (simp add: try_endpoint_def)
    moreover have "got_slot aw (Some k) aw1" using a(2) Some by (auto simp: scan_post_def got_slot_def usable_slot_def)
    ultimately show ?thesis by blast
  next
    case None
    obtain r aw' w' where b: "scan_free (aw1, w1) [0..<ep_cache_sz aw1] = Some (r, aw', w')"
        "case r of
           Some k \<Rightarrow> k \<in> set [0..<ep_cache_sz aw1] \<and> IS_SLOT_AVAIL (aw_ep_cache aw1 ! k) \<and> slot_taken (aw_ep_cache aw' ! k) \<and>
             ep_cache_sz aw' = ep_cache_sz aw1
         | None \<Rightarrow> \<forall>k \<in> set [0..<ep_cache_sz aw1]. \<not> IS_SLOT_AVAIL (aw_ep_cache aw1 ! k)"
      using scan_free_spec [of "[0..<ep_cache_sz aw1]" aw1 w1] by auto
    have "try_endpoint (aw, w) = Some (r, aw', w')" using a(1) None b(1) by (simp add: try_endpoint_def)
    moreover have "got_slot aw r aw'"
      using a(2) None b(2) by (cases r) (auto simp: scan_post_def got_slot_def)
    ultimately show ?thesis by blast
  qed
qed

lemma touch_slot:
  assumes "k < ep_cache_sz aw" and "slot_taken (aw_ep_cache aw ! k)"
  shows "\<exists>aw'. at_slot (upd_ep (\<lambda>ae. ae\<lparr>ae_last_access := now\<rparr>)) (aw, w) k = Some (aw', w) \<and> slot_taken (aw_ep_cache aw' ! k)"
  using assms by (cases "aw_ep_cache aw ! k") (simp_all add: slot_taken_def at_slot_def upd_ep_def set_slot_def)

lemma get_endpoint_found:
  assumes "int retry * JK_SLEEP_DEF < timeout" and "try_endpoint (aw, w) = Some (Some k, aw1, w1)" and "got_slot aw (Some k) aw1"
  shows "\<exists>aw'. get_endpoint_loop others now timeout retry (aw, w) = Some (Some k, aw', w1) \<and> slot_taken (aw_ep_cache aw' ! k)"
proof -
  have k: "k < ep_cache_sz aw1" "slot_taken (aw_ep_cache aw1 ! k)" using assms(3) by (auto simp: got_slot_def)
  obtain aw' where "at_slot (upd_ep (\<lambda>ae. ae\<lparr>ae_last_access := now\<rparr>)) (aw1, w1) k = Some (aw', w1)" "slot_taken (aw_ep_cache aw' ! k)"
    using touch_slot [OF k] by blast
  then show ?thesis using assms(1,2) k by (subst get_endpoint_loop.simps) simp
qed

lemma get_endpoint_sleep:
  assumes "int retry * JK_SLEEP_DEF < timeout" and "try_endpoint (aw, w) = Some (None, aw1, w1)"
    and "others retry (aw_ep_cache aw1, aw_s aw1, w1) = (eps, s, w2)"
  shows "get_endpoint_loop others now timeout retry (aw, w) =
    get_endpoint_loop others now timeout (retry + 1) (aw1\<lparr>aw_ep_cache := eps, aw_s := s\<rparr>, w2)"
  using assms by (subst get_endpoint_loop.simps) simp

lemma get_endpoint_loop_defined: "\<exists>r st'. get_endpoint_loop others now timeout retry st = Some (r, st')"
proof (induction others now timeout retry st rule: get_endpoint_loop.induct)
  case (1 others now timeout retry aw w)
  obtain r aw1 w1 where t: "try_endpoint (aw, w) = Some (r, aw1, w1)" "got_slot aw r aw1" using try_endpoint_spec by blast
  obtain eps s w2 where e: "others retry (aw_ep_cache aw1, aw_s aw1, w1) = (eps, s, w2)"
    by (cases "others retry (aw_ep_cache aw1, aw_s aw1, w1)")
  show ?case
  proof (cases "int retry * JK_SLEEP_DEF < timeout")
    case False
    then show ?thesis by (simp add: get_endpoint_loop.simps)
  next
    case True
    show ?thesis
    proof (cases r)
      case None
      then show ?thesis using "1" [OF True t(1) refl refl None e [symmetric] refl refl] get_endpoint_sleep [of retry timeout aw w aw1 w1 others eps s w2 now] True e t(1) by simp
    next
      case (Some k)
      then show ?thesis using get_endpoint_found [OF True] t by blast
    qed
  qed
qed

text \<open>Claim C19: \<open>ajp_get_endpoint\<close> always returns, and with a positive acquire timeout it hands out an endpoint
  whenever one is available when it is called: an endpoint that was available and no longer is, and one
  with an open reusable connection if there is such an endpoint.\<close>

theorem ajp_get_endpoint_acquires:
  assumes "aw_cache_acquire_timeout aw > 0"
  shows "\<exists>r aw' w'. ajp_get_endpoint others now (aw, w) = Some (r, aw', w') \<and>
    ((\<exists>k < ep_cache_sz aw. IS_SLOT_AVAIL (aw_ep_cache aw ! k)) \<longrightarrow>
     (\<exists>k < ep_cache_sz aw. r = Some k \<and> IS_SLOT_AVAIL (aw_ep_cache aw ! k) \<and> slot_taken (aw_ep_cache aw' ! k) \<and>
       ((\<exists>j < ep_cache_sz aw. usable_slot (aw_ep_cache aw ! j)) \<longrightarrow> usable_slot (aw_ep_cache aw ! k))))"
proof -
  obtain r aw1 w1 where t: "try_endpoint (aw, w) = Some (r, aw1, w1)" "got_slot aw r aw1" using try_endpoint_spec by blast
  have z: "int 0 * JK_SLEEP_DEF < aw_cache_acquire_timeout aw" using assms by simp
  show ?thesis
  proof (cases r)
    case None
    then show ?thesis using get_endpoint_loop_defined [of others now "aw_cache_acquire_timeout aw" 0 "(aw, w)"] t(2)
      by (auto simp: ajp_get_endpoint_def got_slot_def)
  next
    case (Some k)
    then obtain aw' where "get_endpoint_loop others now (aw_cache_acquire_timeout aw) 0 (aw, w) = Some (Some k, aw', w1)"
        "slot_taken (aw_ep_cache aw' ! k)"
      using get_endpoint_found [OF z] t by blast
    then show ?thesis using t(2) Some by (auto simp: ajp_get_endpoint_def got_slot_def)
  qed
qed

theorem ajp_get_endpoint_acquires_witness:
  "\<exists>r aw' w'. ajp_get_endpoint (\<lambda>_ x. x) 5 (demo_pool, demo_world []) = Some (r, aw', w') \<and> r \<noteq> None"
proof -
  have c: "aw_cache_acquire_timeout demo_pool > 0" "ep_cache_sz demo_pool = 2" "IS_SLOT_AVAIL (aw_ep_cache demo_pool ! 0)"
    by (simp_all add: demo_pool_def demo_aw_def ajp_create_endpoint_cache_def set_slot_def numeral_2_eq_2
        IS_SLOT_AVAIL_def new_endpoint_def)
  show ?thesis using ajp_get_endpoint_acquires [OF c(1), of "\<lambda>_ x. x" 5 "demo_world []"] c(2,3) by fastforce
qed

text \<open>The minimum size of the pool is compared only after a connection was closed, so maintenance
  closes an idle connection in the last slot even when the number of open connections does not exceed
  \<open>connection_pool_minsize\<close>.\<close>

theorem maintain_below_minimum:
  assumes "aw_ep_cache aw = eps @ [Some ae]" and "ae_avail ae" and "IS_VALID_SOCKET (ae_sd ae)"
    and "aw_cache_timeout aw > 0" and "mstarted - ae_last_access ae > aw_cache_timeout aw"
    and "count_open aw \<le> aw_ep_mincache_sz aw" and "aw_conn_ping_interval aw \<le> 0"
  shows "\<exists>aw' w'. ajp_maintain (aw, w) mstarted True msgs = Some (True, aw', w') \<and>
    count_open aw' = count_open aw - 1 \<and> closed_sds w' = closed_sds w + {#ae_sd ae#}"
proof -
  let ?ae = "ae\<lparr>ae_reuse := False, ae_sd := JK_INVALID_SOCKET, ae_last_op := JK_AJP13_END_RESPONSE\<rparr>"
  let ?aw = "set_slot aw (length eps) ?ae"
  have inv: "\<not> IS_VALID_SOCKET JK_INVALID_SOCKET" by (simp add: IS_VALID_SOCKET_def JK_INVALID_SOCKET_def)
  have aside: "set_aside (aw, w) (length eps) [] = Some ((?aw, w), [ae_sd ae])"
    using assms(1) inv by (simp add: set_aside_def at_slot_def upd_ep_def ajp_reset_endpoint_def ajp_abort_endpoint_def set_slot_def)
  have "expire_slot mstarted (length eps) (0, (aw, w), []) = Some (1, (?aw, w), [ae_sd ae])"
    using assms(1-5) aside by (simp add: expire_slot_def IS_SLOT_AVAIL_def slot_open_def)
  moreover have "aw_ep_mincache_sz ?aw = aw_ep_mincache_sz aw" by (simp add: set_slot_def)
  ultimately have "expire_loop mstarted (count_open aw) (Suc (length eps)) (0, (aw, w), []) = Some (1, (?aw, w), [ae_sd ae])"
    using assms(6) by simp
  then have "ajp_maintain (aw, w) mstarted True msgs =
      Some (True, ?aw\<lparr>aw_s := dec_connected (aw_s aw)\<rparr>, jk_shutdown_socket w (ae_sd ae))"
    using assms(1,3,4,7) by (simp add: ajp_maintain_def Let_def set_slot_def del: expire_loop.simps)
  moreover have "count_open (?aw\<lparr>aw_s := dec_connected (aw_s aw)\<rparr>) = count_open aw - 1"
    using assms(1,3) inv by (simp add: count_open_def set_slot_def slot_open_def)
  ultimately show ?thesis using assms(3) by auto
qed

definition demo_idle :: ajp_endpoint where
  "demo_idle = (new_endpoint AJP13_PROTO 0)\<lparr>ae_sd := 3, ae_reuse := True\<rparr>"

theorem maintain_below_minimum_witness:
  "\<exists>aw' w'. ajp_maintain (demo_aw\<lparr>aw_ep_cache := [Some demo_idle]\<rparr>, demo_world []) 100 True (\<lambda>_. None) = Some (True, aw', w') \<and>
    count_open aw' = 0"
proof -
  have "count_open (demo_aw\<lparr>aw_ep_cache := [Some demo_idle]\<rparr>) = 1"
    by (simp add: count_open_def slot_open_def demo_idle_def IS_VALID_SOCKET_def)
  then show ?thesis
    using maintain_below_minimum [of "demo_aw\<lparr>aw_ep_cache := [Some demo_idle]\<rparr>" "[]" demo_idle 100 "demo_world []" "\<lambda>_. None"]
    by (auto simp: demo_aw_def demo_idle_def new_endpoint_def IS_VALID_SOCKET_def)
qed

end
