(* ===== verification/Jk_Lb.thy ===== *)
theory Jk_Lb
  imports Jk_Ajp_Pool
begin

text \<open>
  The load balancer (\<open>jk_lb_worker.c\<close>): its data in process and shared memory, the load multipliers,
  the exchange of the configuration, global maintenance (decay, recovery, idleness) and the choice of a
  worker for a request. The record of a process embeds the shared records it points to; the shared
  memory lock makes each operation atomic. Times are seconds as integers.
\<close>

section \<open>Data\<close>

record jk_shm_lb_sub_worker =
  ss_sequence :: u32
  ss_route :: string
  ss_domain :: string
  ss_redirect :: string
  ss_distance :: int
  ss_activation :: int
  ss_state :: int
  ss_lb_factor :: int
  ss_lb_mult :: u64
  ss_lb_value :: u64
  ss_first_error_time :: int
  ss_last_error_time :: int
  ss_elected_snapshot :: u64
  ss_sessions :: u64
  ss_errors :: u32

record jk_shm_lb_worker =
  sl_sequence :: u32
  sl_busy :: int
  sl_max_busy :: int
  sl_sticky_session :: bool
  sl_sticky_session_force :: bool
  sl_recover_wait_time :: int
  sl_error_escalation_time :: int
  sl_max_reply_timeouts :: int
  sl_retries :: int
  sl_retry_interval :: int
  sl_lbmethod :: int
  sl_lblock :: int
  sl_max_packet_size :: u32
  sl_last_maintain_time :: int

record lb_sub_worker =
  sw_aw :: ajp_worker
  sw_s :: jk_shm_lb_sub_worker
  sw_name :: string
  sw_sequence :: u32
  sw_route :: string
  sw_domain :: string
  sw_redirect :: string
  sw_distance :: int
  sw_activation :: int
  sw_lb_factor :: int
  sw_i :: nat
  sw_lb_mult :: u64

record lb_worker =
  lb_s :: jk_shm_lb_worker
  lb_name :: string
  lb_sequence :: u32
  lb_workers :: "lb_sub_worker list"
  lb_sticky_session :: bool
  lb_sticky_session_force :: bool
  lb_recover_wait_time :: int
  lb_error_escalation_time :: int
  lb_max_reply_timeouts :: int
  lb_retries_num :: int
  lb_lb_retries :: int
  lb_retry_interval :: int
  lb_lbmethod :: int
  lb_lblock :: int
  lb_maintain_time :: int
  lb_max_packet_size :: u32
  lb_next_offset :: nat
  lb_session_cookie :: string
  lb_session_path :: string
  lb_set_session_cookie :: bool
  lb_session_cookie_path :: string

type_synonym lb_state = "lb_worker \<times> world"

abbreviation num_of_workers :: "lb_worker \<Rightarrow> nat" where
  "num_of_workers p \<equiv> length (lb_workers p)"

abbreviation sw_value :: "lb_sub_worker \<Rightarrow> u64" where
  "sw_value w \<equiv> ss_lb_value (sw_s w)"

abbreviation sw_state :: "lb_sub_worker \<Rightarrow> int" where
  "sw_state w \<equiv> ss_state (sw_s w)"

abbreviation (input) JK_AJP_STATE_IDLE :: int where
  "JK_AJP_STATE_IDLE \<equiv> 0"

abbreviation (input) JK_AJP_STATE_OK :: int where
  "JK_AJP_STATE_OK \<equiv> 1"

abbreviation (input) JK_LB_DECAY_MULT :: int where
  "JK_LB_DECAY_MULT \<equiv> 1"

definition JK_WORKER_USABLE :: "int \<Rightarrow> int \<Rightarrow> bool" where
  "JK_WORKER_USABLE s activation \<longleftrightarrow> s \<le> JK_LB_STATE_FORCE \<and> activation = JK_LB_ACTIVATION_ACTIVE"

definition JK_WORKER_USABLE_STICKY :: "int \<Rightarrow> int \<Rightarrow> bool" where
  "JK_WORKER_USABLE_STICKY s activation \<longleftrightarrow> s \<le> JK_LB_STATE_FORCE \<and> activation \<noteq> JK_LB_ACTIVATION_STOPPED"

text \<open>Writing the shared record of a member, and of its AJP worker.\<close>

definition on_s :: "(jk_shm_lb_sub_worker \<Rightarrow> jk_shm_lb_sub_worker) \<Rightarrow> lb_sub_worker \<Rightarrow> lb_sub_worker" where
  "on_s f w = w\<lparr>sw_s := f (sw_s w)\<rparr>"

definition on_aws :: "(jk_shm_ajp_worker \<Rightarrow> jk_shm_ajp_worker) \<Rightarrow> lb_sub_worker \<Rightarrow> lb_sub_worker" where
  "on_aws f w = w\<lparr>sw_aw := (sw_aw w)\<lparr>aw_s := f (aw_s (sw_aw w))\<rparr>\<rparr>"

lemma on_s_simps [simp]:
  "sw_s (on_s f w) = f (sw_s w)" "sw_aw (on_s f w) = sw_aw w" "sw_i (on_s f w) = sw_i w"
  "sw_distance (on_s f w) = sw_distance w" "sw_activation (on_s f w) = sw_activation w"
  "sw_lb_mult (on_s f w) = sw_lb_mult w" "sw_lb_factor (on_s f w) = sw_lb_factor w"
  "sw_route (on_s f w) = sw_route w" "sw_domain (on_s f w) = sw_domain w" "sw_redirect (on_s f w) = sw_redirect w"
  "sw_s (on_aws g w) = sw_s w" "aw_s (sw_aw (on_aws g w)) = g (aw_s (sw_aw w))" "sw_i (on_aws g w) = sw_i w"
  "sw_distance (on_aws g w) = sw_distance w" "sw_activation (on_aws g w) = sw_activation w"
  "sw_lb_mult (on_aws g w) = sw_lb_mult w" "sw_lb_factor (on_aws g w) = sw_lb_factor w"
  "sw_route (on_aws g w) = sw_route w" "sw_domain (on_aws g w) = sw_domain w" "sw_redirect (on_aws g w) = sw_redirect w"
  by (simp_all add: on_s_def on_aws_def)

section \<open>Load multipliers\<close>

function gcd_loop :: "u64 \<Rightarrow> u64 \<Rightarrow> u64" where
  "gcd_loop a b = (if b > 0 then gcd_loop b (a mod b) else a)"
  by pat_completeness auto
termination
  by (relation "measure (\<lambda>(a, b). unat b)") (auto simp: unat_mod word_greater_zero_iff unat_gt_0)

declare gcd_loop.simps [simp del]

definition gcd64 :: "u64 \<Rightarrow> u64 \<Rightarrow> u64" where
  "gcd64 a b = (if b > a then gcd_loop b a else gcd_loop a b)"

text \<open>Division by zero is undefined.\<close>

definition scm :: "u64 \<Rightarrow> u64 \<Rightarrow> u64 ub" where
  "scm a b = (let g = gcd64 a b in do { guard (g \<noteq> 0); Some (a * b div g) })"

fun scm_all :: "u64 \<Rightarrow> lb_sub_worker list \<Rightarrow> u64 ub" where
  "scm_all s [] = Some s"
| "scm_all s (w # ws) = do { s' \<leftarrow> scm s (word_of_int (sw_lb_factor w)); scm_all s' ws }"

fun set_mults :: "u64 \<Rightarrow> lb_sub_worker list \<Rightarrow> lb_sub_worker list ub" where
  "set_mults s [] = Some []"
| "set_mults s (w # ws) =
     do {
       guard (word_of_int (sw_lb_factor w) \<noteq> (0 :: u64));
       ws' \<leftarrow> set_mults s ws;
       Some (w\<lparr>sw_lb_mult := s div word_of_int (sw_lb_factor w)\<rparr> # ws')
     }"

definition update_mult :: "lb_worker \<Rightarrow> lb_worker ub" where
  "update_mult p =
     do {
       s \<leftarrow> scm_all 1 (lb_workers p);
       ws \<leftarrow> set_mults s (lb_workers p);
       Some (p\<lparr>lb_workers := ws\<rparr>)
     }"

definition reset_lb_values :: "lb_worker \<Rightarrow> lb_worker" where
  "reset_lb_values p =
     (if lb_lbmethod p \<noteq> JK_LB_METHOD_BUSYNESS
      then p\<lparr>lb_workers := map (on_s (\<lambda>s. s\<lparr>ss_lb_value := 0\<rparr>)) (lb_workers p)\<rparr> else p)"

section \<open>Configuration in shared memory\<close>

definition pull_member_fields :: "lb_sub_worker \<Rightarrow> lb_sub_worker" where
  "pull_member_fields w =
     (let s = sw_s w in
      w\<lparr>sw_route := ss_route s, sw_domain := ss_domain s, sw_redirect := ss_redirect s,
        sw_distance := ss_distance s, sw_activation := ss_activation s, sw_lb_factor := ss_lb_factor s,
        sw_lb_mult := ss_lb_mult s, sw_sequence := ss_sequence s\<rparr>)"

definition jk_lb_pull_worker :: "(string \<Rightarrow> int \<Rightarrow> bool) \<Rightarrow> lb_sub_worker \<Rightarrow> world \<Rightarrow> (lb_sub_worker \<times> world) ub" where
  "jk_lb_pull_worker resolves w wd =
     (if sw_sequence w < ss_sequence (sw_s w) then
        do {
          (aw, wd1) \<leftarrow> jk_ajp_pull resolves (sw_aw w, wd);
          Some (pull_member_fields (w\<lparr>sw_aw := aw\<rparr>), wd1)
        }
      else Some (w, wd))"

text \<open>A pass over the members that threads the world.\<close>

fun each_member :: "(lb_sub_worker \<Rightarrow> world \<Rightarrow> (lb_sub_worker \<times> world) ub) \<Rightarrow> lb_sub_worker list \<Rightarrow> world
     \<Rightarrow> (lb_sub_worker list \<times> world) ub" where
  "each_member f [] wd = Some ([], wd)"
| "each_member f (w # ws) wd =
     do { (w', wd1) \<leftarrow> f w wd; (ws', wd2) \<leftarrow> each_member f ws wd1; Some (w' # ws', wd2) }"

definition lb_pull_fields :: "lb_worker \<Rightarrow> lb_worker" where
  "lb_pull_fields p =
     (let s = lb_s p in
      p\<lparr>lb_sticky_session := sl_sticky_session s, lb_sticky_session_force := sl_sticky_session_force s,
        lb_recover_wait_time := sl_recover_wait_time s, lb_error_escalation_time := sl_error_escalation_time s,
        lb_max_reply_timeouts := sl_max_reply_timeouts s, lb_retries_num := sl_retries s,
        lb_retry_interval := sl_retry_interval s, lb_lbmethod := sl_lbmethod s, lb_lblock := sl_lblock s,
        lb_max_packet_size := sl_max_packet_size s\<rparr>)"

definition jk_lb_pull :: "(string \<Rightarrow> int \<Rightarrow> bool) \<Rightarrow> lb_state \<Rightarrow> lb_state ub" where
  "jk_lb_pull resolves st =
     (case st of (p, wd) \<Rightarrow>
        if lb_sequence p = sl_sequence (lb_s p) then Some (p, wd)
        else do {
          (ws, wd1) \<leftarrow> each_member (jk_lb_pull_worker resolves) (lb_workers p) wd;
          Some ((lb_pull_fields p)\<lparr>lb_workers := ws, lb_sequence := sl_sequence (lb_s p)\<rparr>, wd1)
        })"

definition push_member_fields :: "lb_sub_worker \<Rightarrow> lb_sub_worker" where
  "push_member_fields w =
     w\<lparr>sw_s := (sw_s w)\<lparr>ss_route := sw_route w, ss_domain := sw_domain w, ss_redirect := sw_redirect w,
          ss_distance := sw_distance w, ss_activation := sw_activation w, ss_lb_factor := sw_lb_factor w,
          ss_lb_mult := sw_lb_mult w, ss_sequence := ss_sequence (sw_s w) + 1\<rparr>,
       sw_sequence := ss_sequence (sw_s w) + 1\<rparr>"

definition lb_push_worker :: "bool \<Rightarrow> lb_sub_worker \<Rightarrow> world \<Rightarrow> (lb_sub_worker \<times> world) ub" where
  "lb_push_worker push_all w wd =
     (if push_all \<or> sw_sequence w \<noteq> ss_sequence (sw_s w) then
        do { (aw, wd1) \<leftarrow> jk_ajp_push (sw_aw w, wd); Some (push_member_fields (w\<lparr>sw_aw := aw\<rparr>), wd1) }
      else Some (w, wd))"

definition lb_push_fields :: "lb_worker \<Rightarrow> jk_shm_lb_worker" where
  "lb_push_fields p =
     (lb_s p)\<lparr>sl_sticky_session := lb_sticky_session p, sl_sticky_session_force := lb_sticky_session_force p,
       sl_recover_wait_time := lb_recover_wait_time p, sl_error_escalation_time := lb_error_escalation_time p,
       sl_max_reply_timeouts := lb_max_reply_timeouts p, sl_retries := lb_retries_num p,
       sl_retry_interval := lb_retry_interval p, sl_lbmethod := lb_lbmethod p, sl_lblock := lb_lblock p,
       sl_max_packet_size := lb_max_packet_size p, sl_sequence := sl_sequence (lb_s p) + 1\<rparr>"

definition jk_lb_push :: "bool \<Rightarrow> lb_state \<Rightarrow> lb_state ub" where
  "jk_lb_push push_all st =
     (case st of (p, wd) \<Rightarrow>
        do {
          (ws, wd1) \<leftarrow> each_member (lb_push_worker push_all) (lb_workers p) wd;
          Some (p\<lparr>lb_s := lb_push_fields p, lb_workers := ws, lb_sequence := sl_sequence (lb_s p) + 1\<rparr>, wd1)
        })"

section \<open>Global maintenance\<close>

text \<open>One member: whether it is not in error, and its new record.\<close>

definition recover_member :: "lb_worker \<Rightarrow> u64 \<Rightarrow> int \<Rightarrow> lb_sub_worker \<Rightarrow> bool \<times> lb_sub_worker" where
  "recover_member p curmax now w =
     (let s = sw_s w;
          (ok, w1) =
            (if ss_state s = JK_LB_STATE_ERROR then
               if now - ss_last_error_time s \<le> lb_recover_wait_time p then (False, w)
               else
                 (True,
                  on_aws (\<lambda>a. a\<lparr>sa_reply_timeouts := 0\<rparr>)
                    (on_s (\<lambda>s. s\<lparr>ss_lb_value := (if lb_lbmethod p \<noteq> JK_LB_METHOD_BUSYNESS then curmax else ss_lb_value s),
                                 ss_state := JK_LB_STATE_RECOVER\<rparr>) w))
             else if ss_first_error_time s > 0 \<and> now - ss_first_error_time s \<ge> lb_error_escalation_time p
                     \<and> ss_state s \<noteq> JK_LB_STATE_RECOVER
             then (False, on_s (\<lambda>s. s\<lparr>ss_state := JK_LB_STATE_ERROR\<rparr>) w)
             else
               (True,
                if ss_state s = JK_LB_STATE_OK \<and> sa_used (aw_s (sw_aw w)) = ss_elected_snapshot s
                then on_s (\<lambda>s. s\<lparr>ss_state := JK_LB_STATE_IDLE\<rparr>) w else w))
      in (ok, on_s (\<lambda>s. s\<lparr>ss_elected_snapshot := sa_used (aw_s (sw_aw w1))\<rparr>) w1))"

definition recover_workers :: "(string \<Rightarrow> int \<Rightarrow> bool) \<Rightarrow> lb_state \<Rightarrow> u64 \<Rightarrow> int \<Rightarrow> (nat \<times> lb_state) ub" where
  "recover_workers resolves st curmax now =
     do {
       (p, wd) \<leftarrow> (if lb_sequence (fst st) < sl_sequence (lb_s (fst st)) then jk_lb_pull resolves st else Some st);
       let rs = map (recover_member p curmax now) (lb_workers p) in
       Some (length (filter fst rs), (p\<lparr>lb_workers := map snd rs\<rparr>, wd))
     }"

definition force_member :: "lb_sub_worker \<Rightarrow> lb_sub_worker" where
  "force_member w =
     (if sw_state w = JK_LB_STATE_ERROR
      then on_s (\<lambda>s. s\<lparr>ss_state := JK_LB_STATE_FORCE\<rparr>) (on_aws (\<lambda>a. a\<lparr>sa_reply_timeouts := 0\<rparr>) w) else w)"

text \<open>The states of a request, when given, are indexed by the position of the member.\<close>

fun force_states :: "lb_sub_worker list \<Rightarrow> nat \<Rightarrow> int list \<Rightarrow> int list ub" where
  "force_states [] i states = Some states"
| "force_states (w # ws) i states =
     do {
       states' \<leftarrow> (if sw_state w = JK_LB_STATE_ERROR then wr states i JK_LB_STATE_FORCE else Some states);
       force_states ws (i + 1) states'
     }"

definition force_recovery :: "lb_worker \<Rightarrow> int list option \<Rightarrow> (nat \<times> lb_worker \<times> int list option) ub" where
  "force_recovery p states =
     do {
       states' \<leftarrow> (case states of None \<Rightarrow> Some None | Some xs \<Rightarrow> map_option Some (force_states (lb_workers p) 0 xs));
       Some (length (filter (\<lambda>w. sw_state w = JK_LB_STATE_ERROR) (lb_workers p)),
             p\<lparr>lb_workers := map force_member (lb_workers p)\<rparr>, states')
     }"

text \<open>A shift by a negative number or by the width of the operand or more is undefined.\<close>

definition decay_member :: "int \<Rightarrow> int \<Rightarrow> lb_sub_worker \<Rightarrow> lb_sub_worker ub" where
  "decay_member lbmethod exponent w =
     do {
       w1 \<leftarrow> (if lbmethod \<noteq> JK_LB_METHOD_BUSYNESS \<and> lbmethod \<noteq> JK_LB_METHOD_NEXT then
                do {
                  guard (0 \<le> exponent \<and> exponent < 64);
                  Some (on_s (\<lambda>s. s\<lparr>ss_lb_value := drop_bit (nat exponent) (ss_lb_value s)\<rparr>) w)
                }
              else Some w);
       guard (0 \<le> exponent \<and> exponent < 32);
       Some (on_aws (\<lambda>a. a\<lparr>sa_reply_timeouts := drop_bit (nat exponent) (sa_reply_timeouts a)\<rparr>) w1)
     }"

fun decay_pass :: "int \<Rightarrow> int \<Rightarrow> u64 \<Rightarrow> lb_sub_worker list \<Rightarrow> (u64 \<times> lb_sub_worker list) ub" where
  "decay_pass lbmethod exponent curmax [] = Some (curmax, [])"
| "decay_pass lbmethod exponent curmax (w # ws) =
     do {
       w' \<leftarrow> decay_member lbmethod exponent w;
       (m, ws') \<leftarrow> decay_pass lbmethod exponent
                     (if lbmethod \<noteq> JK_LB_METHOD_BUSYNESS \<and> sw_value w' > curmax then sw_value w' else curmax) ws;
       Some (m, w' # ws')
     }"

text \<open>The minimum of the load values of the usable members, none if there is none.\<close>

fun next_min :: "u64 option \<Rightarrow> lb_sub_worker list \<Rightarrow> u64 option" where
  "next_min m [] = m"
| "next_min m (w # ws) =
     next_min (if JK_WORKER_USABLE (sw_state w) (sw_activation w) \<and> (case m of None \<Rightarrow> True | Some c \<Rightarrow> sw_value w < c)
               then Some (sw_value w) else m) ws"

definition shift_down :: "u64 \<Rightarrow> lb_sub_worker \<Rightarrow> lb_sub_worker" where
  "shift_down curmin = on_s (\<lambda>s. s\<lparr>ss_lb_value := (if ss_lb_value s \<ge> curmin then ss_lb_value s - curmin else 0)\<rparr>)"

definition decay_load :: "lb_worker \<Rightarrow> int \<Rightarrow> (u64 \<times> lb_worker) ub" where
  "decay_load p exponent =
     do {
       (curmax, ws) \<leftarrow> decay_pass (lb_lbmethod p) exponent 0 (lb_workers p);
       let curmin = (case next_min None ws of None \<Rightarrow> 0 | Some c \<Rightarrow> c) in
       Some (curmax, p\<lparr>lb_workers := (if lb_lbmethod p = JK_LB_METHOD_NEXT then map (shift_down curmin) ws else ws)\<rparr>)
     }"

definition idle_member :: "lb_sub_worker \<Rightarrow> lb_sub_worker" where
  "idle_member =
     on_aws (\<lambda>a. a\<lparr>sa_state := (if sa_state a = JK_AJP_STATE_OK \<and> sa_used a = sa_used_snapshot a then JK_AJP_STATE_IDLE
                               else sa_state a),
                  sa_used_snapshot := sa_used a\<rparr>)"

text \<open>Division of C, rounding towards zero.\<close>

definition cdiv :: "int \<Rightarrow> int \<Rightarrow> int" where
  "cdiv a b = sgn a * sgn b * (\<bar>a\<bar> div \<bar>b\<bar>)"

definition global_maintain :: "(string \<Rightarrow> int \<Rightarrow> bool) \<Rightarrow> lb_state \<Rightarrow> int \<Rightarrow> lb_state ub" where
  "global_maintain resolves st now =
     (case st of (p, wd) \<Rightarrow>
        do {
          guard (lb_maintain_time p \<noteq> 0);
          let exponent = cdiv (JK_LB_DECAY_MULT * (now - sl_last_maintain_time (lb_s p))) (lb_maintain_time p) in
          do {
            (curmax, p1) \<leftarrow> decay_load (p\<lparr>lb_s := (lb_s p)\<lparr>sl_last_maintain_time := now\<rparr>\<rparr>) exponent;
            (non_error, p2, wd2) \<leftarrow> recover_workers resolves (p1, wd) curmax now;
            p3 \<leftarrow> (if non_error = 0 then do { (_, q, _) \<leftarrow> force_recovery p2 None; Some q } else Some p2);
            Some (p3\<lparr>lb_workers := map idle_member (lb_workers p3)\<rparr>, wd2)
          }
        })"

text \<open>The members' own maintenance: \<open>m_sock_ok i\<close> and \<open>msgs i\<close> are the allocations member \<open>i\<close> makes.\<close>

definition maintain_member :: "int \<Rightarrow> (nat \<Rightarrow> bool) \<Rightarrow> (nat \<Rightarrow> nat \<Rightarrow> jk_msg_buf option) \<Rightarrow> lb_sub_worker \<Rightarrow> world
     \<Rightarrow> (lb_sub_worker \<times> world) ub" where
  "maintain_member now m_sock_ok msgs w wd =
     do {
       (_, aw, wd1) \<leftarrow> ajp_maintain (sw_aw w, wd) now (m_sock_ok (sw_i w)) (msgs (sw_i w));
       Some (w\<lparr>sw_aw := aw\<rparr>, wd1)
     }"

definition maintain_workers :: "(string \<Rightarrow> int \<Rightarrow> bool) \<Rightarrow> lb_state \<Rightarrow> int \<Rightarrow> bool \<Rightarrow> (nat \<Rightarrow> bool)
     \<Rightarrow> (nat \<Rightarrow> nat \<Rightarrow> jk_msg_buf option) \<Rightarrow> lb_state ub" where
  "maintain_workers resolves st now is_global m_sock_ok msgs =
     do {
       (p, wd) \<leftarrow> (if is_global then global_maintain resolves st now else Some st);
       (ws, wd1) \<leftarrow> each_member (maintain_member now m_sock_ok msgs) (lb_workers p) wd;
       Some (p\<lparr>lb_workers := ws\<rparr>, wd1)
     }"

definition shutdown_workers :: "lb_state \<Rightarrow> lb_state ub" where
  "shutdown_workers st =
     (case st of (p, wd) \<Rightarrow>
        do {
          (ws, wd1) \<leftarrow> each_member (\<lambda>w wd. do { (aw, wd1) \<leftarrow> ajp_shutdown (sw_aw w, wd); Some (w\<lparr>sw_aw := aw\<rparr>, wd1) })
                        (lb_workers p) wd;
          Some (p\<lparr>lb_workers := ws\<rparr>, wd1)
        })"

section \<open>The request\<close>

text \<open>What the balancer reads and writes of \<open>jk_ws_service_t\<close>. The request URI and the header values are
  memory: the string, its terminator and the bytes behind it that may be read.\<close>

record jk_ws_service =
  sv_pool :: mem
  sv_req_uri :: string
  sv_headers :: "(string \<times> string) list"
  sv_route :: "string option"
  sv_sticky :: bool
  sv_activation :: "string option"
  sv_ext_activation :: "int list option"
  sv_ext_stateless :: bool
  sv_ext_sticky_ignore :: bool
  sv_ext_session_path :: "string option"
  sv_ext_session_cookie :: "string option"
  sv_ext_set_session_cookie :: bool
  sv_resp_headers :: "(string \<times> string option) list"
  sv_is_ssl :: bool
  sv_reco_buf :: "jk_msg_buf option"
  sv_reco_status :: int

definition activation_of :: "jk_ws_service \<Rightarrow> lb_worker \<Rightarrow> nat \<Rightarrow> int ub" where
  "activation_of s p i =
     do {
       w \<leftarrow> rd (lb_workers p) i;
       a \<leftarrow> (case sv_ext_activation s of None \<Rightarrow> Some JK_LB_ACTIVATION_UNSET | Some as \<Rightarrow> rd as i);
       Some (if a = JK_LB_ACTIVATION_UNSET then sw_activation w else a)
     }"

section \<open>Choosing a worker\<close>

text \<open>An index, or none for \<open>-1\<close>.\<close>

fun find_route :: "lb_sub_worker list \<Rightarrow> string \<Rightarrow> nat \<Rightarrow> nat option" where
  "find_route [] route i = None"
| "find_route (w # ws) route i = (if sw_route w = route then Some i else find_route ws route (i + 1))"

definition find_by_session :: "lb_worker \<Rightarrow> string \<Rightarrow> nat option" where
  "find_by_session p session_route = find_route (lb_workers p) session_route 0"

text \<open>The best candidate so far, its load value and its distance.\<close>

type_synonym best = "nat option \<times> u64 \<times> int"

definition better :: "bool \<Rightarrow> best \<Rightarrow> lb_sub_worker \<Rightarrow> bool" where
  "better by_value b w \<longleftrightarrow>
     (case b of (candidate, curmin, d) \<Rightarrow>
        candidate = None \<or> sw_distance w < d \<or> by_value \<and> sw_value w < curmin \<and> sw_distance w = d)"

definition usable_at :: "jk_ws_service \<Rightarrow> lb_worker \<Rightarrow> int list \<Rightarrow> nat \<Rightarrow> bool ub" where
  "usable_at s p states i =
     do {
       w \<leftarrow> rd (lb_workers p) i;
       a \<leftarrow> activation_of s p i;
       st \<leftarrow> rd states (sw_i w);
       Some (JK_WORKER_USABLE st a)
     }"

definition usable_sticky_at :: "jk_ws_service \<Rightarrow> lb_worker \<Rightarrow> int list \<Rightarrow> nat \<Rightarrow> bool ub" where
  "usable_sticky_at s p states i =
     do {
       w \<leftarrow> rd (lb_workers p) i;
       a \<leftarrow> activation_of s p i;
       st \<leftarrow> rd states (sw_i w);
       Some (JK_WORKER_USABLE_STICKY st a)
     }"

definition in_domain :: "string \<Rightarrow> nat \<Rightarrow> lb_sub_worker \<Rightarrow> bool" where
  "in_domain route_or_domain domain_len w \<longleftrightarrow>
     \<not> (sw_domain w = [] \<or> length (sw_domain w) \<noteq> domain_len \<or> sw_domain w \<noteq> take domain_len route_or_domain)"

fun bydomain_loop :: "jk_ws_service \<Rightarrow> lb_worker \<Rightarrow> int list \<Rightarrow> string \<Rightarrow> nat \<Rightarrow> best \<Rightarrow> nat list \<Rightarrow> best ub" where
  "bydomain_loop s p states r n b [] = Some b"
| "bydomain_loop s p states r n b (i # is) =
     do {
       w \<leftarrow> rd (lb_workers p) i;
       if \<not> in_domain r n w then bydomain_loop s p states r n b is
       else do {
         u \<leftarrow> usable_at s p states i;
         bydomain_loop s p states r n (if u \<and> better True b w then (Some i, sw_value w, sw_distance w) else b) is
       }
     }"

definition find_best_bydomain :: "jk_ws_service \<Rightarrow> lb_worker \<Rightarrow> string \<Rightarrow> int list \<Rightarrow> nat option ub" where
  "find_best_bydomain s p route_or_domain states =
     map_option fst (bydomain_loop s p states route_or_domain (length (takeWhile (\<lambda>c. c \<noteq> CHR ''.'') route_or_domain))
       (None, 0, 0) [0..<num_of_workers p])"

text \<open>The loop starts behind the worker chosen last and records where the next one starts.\<close>

fun byvalue_loop :: "jk_ws_service \<Rightarrow> lb_worker \<Rightarrow> int list \<Rightarrow> best \<Rightarrow> nat \<Rightarrow> nat list \<Rightarrow> (best \<times> nat) ub" where
  "byvalue_loop s p states b next [] = Some (b, next)"
| "byvalue_loop s p states b next (j # js) =
     (let i = j mod num_of_workers p in
      do {
        w \<leftarrow> rd (lb_workers p) i;
        u \<leftarrow> usable_at s p states i;
        if u \<and> better (\<not> sv_ext_stateless s) b w
        then byvalue_loop s p states (Some i, sw_value w, sw_distance w) (i + 1) js
        else byvalue_loop s p states b next js
      })"

definition find_best_byvalue :: "jk_ws_service \<Rightarrow> lb_worker \<Rightarrow> int list \<Rightarrow> (nat option \<times> lb_worker) ub" where
  "find_best_byvalue s p states =
     do {
       (b, next) \<leftarrow> byvalue_loop s p states (None, 0, 0) (lb_next_offset p) [lb_next_offset p..<num_of_workers p + lb_next_offset p];
       Some (fst b, p\<lparr>lb_next_offset := next\<rparr>)
     }"

text \<open>What replaces a worker that the session names but that is not usable: nothing when stickiness is
  forced, its redirect, a member of its domain, or itself.\<close>

definition replace_sticky :: "jk_ws_service \<Rightarrow> lb_worker \<Rightarrow> int list \<Rightarrow> bool \<Rightarrow> nat \<Rightarrow> lb_sub_worker \<Rightarrow> (nat option \<times> jk_ws_service) ub" where
  "replace_sticky s p states uses_domain c wk =
     (if lb_sticky_session_force p then Some (None, s)
      else if sw_redirect wk \<noteq> [] then Some (find_by_session p (sw_redirect wk), s\<lparr>sv_route := None\<rparr>)
      else if sw_domain wk \<noteq> [] \<and> \<not> uses_domain then
        do {
          r \<leftarrow> find_best_bydomain s p (sw_domain wk) states;
          Some (r, s\<lparr>sv_route := (if r \<noteq> None then Some (sw_domain wk) else None)\<rparr>)
        }
      else Some (Some c, s))"

definition find_bysession_route :: "jk_ws_service \<Rightarrow> lb_worker \<Rightarrow> string \<Rightarrow> int list \<Rightarrow> (nat option \<times> jk_ws_service) ub" where
  "find_bysession_route s p session_route states =
     do {
       (candidate, uses_domain, s1) \<leftarrow>
         (case find_by_session p session_route of
            Some c \<Rightarrow> Some (Some c, False, s\<lparr>sv_sticky := True\<rparr>)
          | None \<Rightarrow> do { c \<leftarrow> find_best_bydomain s p session_route states; Some (c, True, s) });
       (case candidate of
          None \<Rightarrow> Some (None, s1)
        | Some c \<Rightarrow>
            do {
              wk \<leftarrow> rd (lb_workers p) c;
              let s2 = (if uses_domain then s1\<lparr>sv_route := Some (sw_domain wk)\<rparr> else s1) in
              do {
                u \<leftarrow> usable_sticky_at s2 p states c;
                if u then Some (Some c, s2)
                else do {
                  (candidate2, s3) \<leftarrow> replace_sticky s2 p states uses_domain c wk;
                  (case candidate2 of
                     None \<Rightarrow> Some (None, s3)
                   | Some c2 \<Rightarrow>
                       do {
                         u2 \<leftarrow> usable_sticky_at s3 p states c2;
                         Some (if u2 then Some c2 else None, s3)
                       })
                }
              }
            })
     }"

fun first_redirect :: "lb_sub_worker list \<Rightarrow> string option" where
  "first_redirect [] = None"
| "first_redirect (w # ws) = (if sw_redirect w \<noteq> [] then Some (sw_redirect w) else first_redirect ws)"

definition find_failover_worker :: "jk_ws_service \<Rightarrow> lb_worker \<Rightarrow> int list \<Rightarrow> (nat option \<times> jk_ws_service) ub" where
  "find_failover_worker s p states =
     (case first_redirect (lb_workers p) of
        None \<Rightarrow> Some (None, s)
      | Some redirect \<Rightarrow>
          do { (rc, s1) \<leftarrow> find_bysession_route s p redirect states; Some (rc, s1\<lparr>sv_sticky := False\<rparr>) })"

definition find_best_worker :: "jk_ws_service \<Rightarrow> lb_worker \<Rightarrow> int list \<Rightarrow> (nat option \<times> jk_ws_service \<times> lb_worker) ub" where
  "find_best_worker s p states =
     do {
       (rc, p1) \<leftarrow> find_best_byvalue s p states;
       (if rc = None then do { (rc2, s1) \<leftarrow> find_failover_worker s p1 states; Some (rc2, s1, p1) }
        else Some (rc, s, p1))
     }"

text \<open>The partial session identifiers are separated by semicolons; the route follows the first period.\<close>

definition session_part :: "string \<Rightarrow> string" where
  "session_part sid = takeWhile (\<lambda>c. c \<noteq> CHR '';'') sid"

definition session_next :: "string \<Rightarrow> string option" where
  "session_next sid = (case dropWhile (\<lambda>c. c \<noteq> CHR '';'') sid of [] \<Rightarrow> None | _ # r \<Rightarrow> Some r)"

definition session_route :: "string \<Rightarrow> string option" where
  "session_route part = (case dropWhile (\<lambda>c. c \<noteq> CHR ''.'') part of [] \<Rightarrow> None | _ # r \<Rightarrow> Some r)"

lemma session_next_shorter: "session_next sid = Some r \<Longrightarrow> length r < length sid"
  by (auto simp: session_next_def split: list.splits)
    (metis length_dropWhile_le le_less_trans length_Cons lessI not_less_eq)

function session_loop :: "jk_ws_service \<Rightarrow> lb_worker \<Rightarrow> int list \<Rightarrow> string \<Rightarrow> (nat option \<times> jk_ws_service) ub" where
  "session_loop s p states sid =
     do {
       (rc, s1) \<leftarrow> (case session_route (session_part sid) of
                      None \<Rightarrow> Some (None, s)
                    | Some route \<Rightarrow> find_bysession_route s p route states);
       (if rc \<noteq> None then Some (rc, s1)
        else (case session_next sid of None \<Rightarrow> Some (None, s1) | Some r \<Rightarrow> session_loop s1 p states r))
     }"
  by pat_completeness auto
termination
  by (relation "measure (\<lambda>(s, p, states, sid). length sid)") (auto dest: session_next_shorter)

declare session_loop.simps [simp del]

text \<open>\<open>lock_ok\<close> tells whether the lock of the shared memory is granted. The session identifier of the caller
  is cut at its first semicolon in place.\<close>

definition get_most_suitable_worker :: "bool \<Rightarrow> jk_ws_service \<Rightarrow> lb_worker \<Rightarrow> string option \<Rightarrow> int list
     \<Rightarrow> (nat option \<times> string option \<times> jk_ws_service \<times> lb_worker) ub" where
  "get_most_suitable_worker lock_ok s0 p sessionid states =
     (let s = s0\<lparr>sv_sticky := False\<rparr>;
          rest =
            (if lb_lblock p = JK_LB_LOCK_PESSIMISTIC \<and> \<not> lock_ok then Some (None, sessionid, s, p)
             else
               (case sessionid of
                  None \<Rightarrow> do { (rc, s1, p1) \<leftarrow> find_best_worker s p states; Some (rc, None, s1, p1) }
                | Some sid \<Rightarrow>
                    do {
                      (rc, s1) \<leftarrow> session_loop s p states sid;
                      let sid' = Some (session_part sid) in
                      if rc \<noteq> None then Some (rc, sid', s1, p)
                      else if lb_sticky_session_force p then Some (None, sid', s1, p)
                      else do { (rc2, s2, p2) \<leftarrow> find_best_worker s1 p states; Some (rc2, sid', s2, p2) }
                    }))
      in
      if num_of_workers p = 1 then
        do {
          a \<leftarrow> activation_of s p 0;
          st \<leftarrow> rd states 0;
          if JK_WORKER_USABLE_STICKY st a then
            if a \<noteq> JK_LB_ACTIVATION_DISABLED then Some (Some 0, sessionid, s\<lparr>sv_sticky := True\<rparr>, p) else rest
          else Some (None, sessionid, s, p)
        }
      else rest)"

text \<open>The charge for a request that goes to a member, before it is sent.\<close>

definition charge_request :: "int \<Rightarrow> bool \<Rightarrow> bool \<Rightarrow> lb_sub_worker \<Rightarrow> lb_sub_worker" where
  "charge_request lbmethod has_session stateless w =
     (let fresh = (\<not> has_session \<and> \<not> stateless) in
      on_s (\<lambda>s. s\<lparr>ss_lb_value :=
               (if lbmethod = JK_LB_METHOD_REQUESTS \<or> lbmethod = JK_LB_METHOD_BUSYNESS \<or>
                   fresh \<and> (lbmethod = JK_LB_METHOD_SESSIONS \<or> lbmethod = JK_LB_METHOD_NEXT)
                then ss_lb_value s + sw_lb_mult w else ss_lb_value s),
             ss_sessions := (if fresh then ss_sessions s + 1 else ss_sessions s)\<rparr>) w)"

section \<open>Load multipliers: the least common multiple\<close>

lemma unat_gcd_loop: "unat (gcd_loop a b) = gcd (unat a) (unat b)"
proof (induction a b rule: gcd_loop.induct)
  case (1 a b)
  show ?case
  proof (cases "b > 0")
    case True
    then show ?thesis using 1 by (subst gcd_loop.simps) (simp add: unat_mod gcd.commute gcd_red_nat [symmetric])
  next
    case False
    then show ?thesis by (subst gcd_loop.simps) (simp add: word_greater_zero_iff)
  qed
qed

lemma unat_gcd64: "unat (gcd64 a b) = gcd (unat a) (unat b)"
  by (simp add: gcd64_def unat_gcd_loop gcd.commute)

lemma scm_lcm:
  assumes "unat a * unat b < 2 ^ 64" and "b \<noteq> 0"
  shows "\<exists>c. scm a b = Some c \<and> unat c = lcm (unat a) (unat b)"
proof -
  have "unat (gcd64 a b) \<noteq> 0" using assms(2) by (simp add: unat_gcd64 unat_eq_zero)
  then have "gcd64 a b \<noteq> 0" by (metis unat_0)
  moreover have "unat (a * b div gcd64 a b) = unat a * unat b div gcd (unat a) (unat b)"
    using assms(1) by (simp add: unat_div unat_gcd64 unat_word_ariths)
  ultimately show ?thesis by (simp add: scm_def Let_def lcm_nat_def)
qed

definition factors :: "lb_sub_worker list \<Rightarrow> nat list" where
  "factors ws = map (\<lambda>w. nat (sw_lb_factor w)) ws"

definition factors_ok :: "lb_sub_worker list \<Rightarrow> bool" where
  "factors_ok ws \<longleftrightarrow> (\<forall>w \<in> set ws. 1 \<le> sw_lb_factor w \<and> sw_lb_factor w < 2 ^ 31)"

lemma factor_word:
  assumes "1 \<le> f" and "f < 2 ^ 31"
  shows "unat (word_of_int f :: u64) = nat f" "(word_of_int f :: u64) \<noteq> 0"
proof -
  have m: "f mod 2 ^ 64 = f" using assms by (simp add: mod_pos_pos_trivial)
  then show u: "unat (word_of_int f :: u64) = nat f" by (simp only: unat_eq_nat_uint uint_word_of_int len_num1 len_num0 len_bit0)
      (simp add: m)
  show "(word_of_int f :: u64) \<noteq> 0" using u assms by (metis nat_0_iff not_one_le_zero order_trans unat_0 le_numeral_extra(2) linorder_not_le)
qed

lemma lcm_le_mult: "lcm a b \<le> a * (b :: nat)"
  by (cases "a = 0 \<or> b = 0") (auto intro: dvd_imp_le lcm_least)

lemma scm_all_lcm:
  assumes "factors_ok ws" and "unat s * prod_list (factors ws) < 2 ^ 64" and "s \<noteq> 0"
  shows "\<exists>c. scm_all s ws = Some c \<and> unat c = Lcm (insert (unat s) (set (factors ws)))"
  using assms
proof (induction ws arbitrary: s)
  case Nil
  then show ?case by (simp add: factors_def)
next
  case (Cons w ws)
  let ?f = "nat (sw_lb_factor w)" and ?r = "prod_list (factors ws)"
  have f: "1 \<le> sw_lb_factor w" "sw_lb_factor w < 2 ^ 31" and ok: "factors_ok ws" using Cons.prems(1) by (simp_all add: factors_ok_def)
  have fs: "factors (w # ws) = ?f # factors ws" by (simp add: factors_def)
  have r: "1 \<le> ?r" using ok
    by (induction ws) (auto simp: factors_ok_def factors_def Suc_le_eq)
  have b: "unat s * ?f * ?r < 2 ^ 64" using Cons.prems(2) fs by (simp add: mult.assoc)
  have "unat s * ?f \<le> unat s * ?f * ?r" using r by simp
  then have "unat s * unat (word_of_int (sw_lb_factor w) :: u64) < 2 ^ 64" using b factor_word(1) [OF f] by (metis le_less_trans)
  then obtain c where c: "scm s (word_of_int (sw_lb_factor w)) = Some c" "unat c = lcm (unat s) ?f"
    using scm_lcm [of s "word_of_int (sw_lb_factor w)"] factor_word [OF f] by auto
  have "c \<noteq> 0" using c(2) Cons.prems(3) f by (metis lcm_eq_0_iff nat_0_iff not_one_le_zero order_trans unat_0 unat_eq_zero le_numeral_extra(2))
  moreover have "unat c * ?r < 2 ^ 64"
    unfolding c(2) by (rule le_less_trans [OF mult_le_mono1 [OF lcm_le_mult] b])
  ultimately obtain d where "scm_all c ws = Some d" "unat d = Lcm (insert (unat c) (set (factors ws)))"
    using Cons.IH [OF ok] by blast
  then show ?case using c fs by (simp add: lcm.assoc)
qed

lemma set_mults_spec:
  assumes "factors_ok ws"
  shows "set_mults s ws = Some (map (\<lambda>w. w\<lparr>sw_lb_mult := s div word_of_int (sw_lb_factor w)\<rparr>) ws)"
  using assms by (induction ws) (simp_all add: factors_ok_def factor_word(2))

lemma update_mult_spec:
  assumes "factors_ok (lb_workers p)" and "prod_list (factors (lb_workers p)) < 2 ^ 64"
  shows "\<exists>p'. update_mult p = Some p' \<and> num_of_workers p' = num_of_workers p \<and>
    (\<forall>i < num_of_workers p. sw_lb_factor (lb_workers p' ! i) = sw_lb_factor (lb_workers p ! i) \<and>
       unat (sw_lb_mult (lb_workers p' ! i)) * nat (sw_lb_factor (lb_workers p ! i)) = Lcm (set (factors (lb_workers p))))"
proof -
  let ?ws = "lb_workers p"
  obtain c where c: "scm_all 1 ?ws = Some c" "unat c = Lcm (insert 1 (set (factors ?ws)))"
    using scm_all_lcm [OF assms(1), of 1] assms(2) by auto
  have u: "update_mult p = Some (p\<lparr>lb_workers := map (\<lambda>w. w\<lparr>sw_lb_mult := c div word_of_int (sw_lb_factor w)\<rparr>) ?ws\<rparr>)"
    using c(1) set_mults_spec [OF assms(1)] by (simp add: update_mult_def)
  have "unat (c div word_of_int (sw_lb_factor w)) * nat (sw_lb_factor w) = Lcm (set (factors ?ws))" if "w \<in> set ?ws" for w
  proof -
    have f: "1 \<le> sw_lb_factor w" "sw_lb_factor w < 2 ^ 31" using assms(1) that by (auto simp: factors_ok_def)
    have "nat (sw_lb_factor w) dvd Lcm (set (factors ?ws))" using that by (intro dvd_Lcm) (auto simp: factors_def)
    then show ?thesis using c(2) factor_word(1) [OF f] by (simp add: unat_div)
  qed
  then show ?thesis using u by simp
qed

section \<open>The best worker\<close>

text \<open>What a request sees of the balancer: positions agree with indices, and states and activations cover them.\<close>

definition lb_wf :: "jk_ws_service \<Rightarrow> lb_worker \<Rightarrow> int list \<Rightarrow> bool" where
  "lb_wf s p states \<longleftrightarrow> (\<forall>i < num_of_workers p. sw_i (lb_workers p ! i) = i) \<and> length states = num_of_workers p \<and>
     pred_option (\<lambda>as. length as = num_of_workers p) (sv_ext_activation s)"

definition act :: "jk_ws_service \<Rightarrow> lb_worker \<Rightarrow> nat \<Rightarrow> int" where
  "act s p i =
     (let a = (case sv_ext_activation s of None \<Rightarrow> JK_LB_ACTIVATION_UNSET | Some as \<Rightarrow> as ! i)
      in if a = JK_LB_ACTIVATION_UNSET then sw_activation (lb_workers p ! i) else a)"

definition eligible :: "jk_ws_service \<Rightarrow> lb_worker \<Rightarrow> int list \<Rightarrow> nat \<Rightarrow> bool" where
  "eligible s p states i \<longleftrightarrow> JK_WORKER_USABLE (states ! i) (act s p i)"

lemma activation_of_wf: "lb_wf s p states \<Longrightarrow> i < num_of_workers p \<Longrightarrow> activation_of s p i = Some (act s p i)"
  by (auto simp: activation_of_def act_def lb_wf_def split: option.splits)

lemma usable_at_wf: "lb_wf s p states \<Longrightarrow> i < num_of_workers p \<Longrightarrow> usable_at s p states i = Some (eligible s p states i)"
  using activation_of_wf [of s p states i] by (simp add: usable_at_def eligible_def lb_wf_def)

lemma usable_sticky_at_wf:
  "lb_wf s p states \<Longrightarrow> i < num_of_workers p \<Longrightarrow>
   usable_sticky_at s p states i = Some (JK_WORKER_USABLE_STICKY (states ! i) (act s p i))"
  using activation_of_wf [of s p states i] by (simp add: usable_sticky_at_def lb_wf_def)

text \<open>The candidate is the best of the eligible indices seen so far.\<close>

definition no_worse :: "bool \<Rightarrow> lb_worker \<Rightarrow> nat \<Rightarrow> nat \<Rightarrow> bool" where
  "no_worse by_value p i k \<longleftrightarrow> sw_distance (lb_workers p ! i) \<le> sw_distance (lb_workers p ! k) \<and>
     (by_value \<and> sw_distance (lb_workers p ! k) = sw_distance (lb_workers p ! i) \<longrightarrow>
        sw_value (lb_workers p ! i) \<le> sw_value (lb_workers p ! k))"

lemma no_worse_trans: "no_worse v p i j \<Longrightarrow> no_worse v p j k \<Longrightarrow> no_worse v p i k"
  by (auto simp: no_worse_def)

definition best_of :: "(nat \<Rightarrow> bool) \<Rightarrow> bool \<Rightarrow> lb_worker \<Rightarrow> nat set \<Rightarrow> best \<Rightarrow> bool" where
  "best_of E by_value p S b \<longleftrightarrow>
     (case b of (c, v, d) \<Rightarrow>
        (case c of
           None \<Rightarrow> \<forall>k \<in> S. \<not> E k
         | Some i \<Rightarrow> i \<in> S \<and> E i \<and> v = sw_value (lb_workers p ! i) \<and> d = sw_distance (lb_workers p ! i) \<and>
             (\<forall>k \<in> S. E k \<longrightarrow> no_worse by_value p i k)))"

lemma best_of_step:
  assumes "best_of E by_value p S b"
  shows "best_of E by_value p (insert i S)
    (if E i \<and> better by_value b (lb_workers p ! i)
     then (Some i, sw_value (lb_workers p ! i), sw_distance (lb_workers p ! i)) else b)"
proof -
  obtain c v d where b: "b = (c, v, d)" by (cases b)
  show ?thesis
  proof (cases c)
    case None
    then show ?thesis using assms b by (auto simp: best_of_def better_def no_worse_def)
  next
    case (Some k)
    have k: "k \<in> S" "E k" "v = sw_value (lb_workers p ! k)" "d = sw_distance (lb_workers p ! k)"
      "\<forall>j \<in> S. E j \<longrightarrow> no_worse by_value p k j" using assms b Some by (auto simp: best_of_def)
    show ?thesis
    proof (cases "E i \<and> better by_value b (lb_workers p ! i)")
      case True
      then have "sw_distance (lb_workers p ! i) < sw_distance (lb_workers p ! k) \<or>
          by_value \<and> sw_value (lb_workers p ! i) < sw_value (lb_workers p ! k) \<and> sw_distance (lb_workers p ! i) = sw_distance (lb_workers p ! k)"
        using b Some k(3,4) by (simp add: better_def)
      then have "no_worse by_value p i k" by (elim disjE) (simp_all add: no_worse_def less_imp_le)
      then have "no_worse by_value p i j" if "j \<in> S" "E j" for j using that k(5) no_worse_trans [of by_value p i k j] by blast
      moreover have "no_worse by_value p i i" by (simp add: no_worse_def)
      ultimately show ?thesis using True by (auto simp: best_of_def)
    next
      case False
      then have "E i \<Longrightarrow> no_worse by_value p k i" using b Some k(3,4) by (auto simp: better_def no_worse_def not_less)
      then show ?thesis using False b Some k by (auto simp: best_of_def)
    qed
  qed
qed

definition offset_of :: "nat \<Rightarrow> best \<Rightarrow> nat" where
  "offset_of n b = (case fst b of None \<Rightarrow> n | Some i \<Rightarrow> i + 1)"

lemma byvalue_loop_best:
  assumes "lb_wf s p states" and "0 < num_of_workers p" and "best_of (eligible s p states) (\<not> sv_ext_stateless s) p S b"
  shows "\<exists>b'. byvalue_loop s p states b (offset_of n b) js = Some (b', offset_of n b') \<and>
    best_of (eligible s p states) (\<not> sv_ext_stateless s) p (S \<union> (\<lambda>j. j mod num_of_workers p) ` set js) b'"
  using assms(3)
proof (induction js arbitrary: S b)
  case (Cons j js)
  let ?i = "j mod num_of_workers p"
  let ?b = "if eligible s p states ?i \<and> better (\<not> sv_ext_stateless s) b (lb_workers p ! ?i)
     then (Some ?i, sw_value (lb_workers p ! ?i), sw_distance (lb_workers p ! ?i)) else b"
  have i: "?i < num_of_workers p" using assms(2) by simp
  have "byvalue_loop s p states b (offset_of n b) (j # js) = byvalue_loop s p states ?b (offset_of n ?b) js"
    using i usable_at_wf [OF assms(1) i] by (simp add: Let_def offset_of_def)
  then show ?case using Cons.IH [OF best_of_step [OF Cons.prems, of ?i]] by simp
qed simp

lemma mod_window: "0 < n \<Longrightarrow> (\<lambda>j. j mod n) ` {a..<n + a} = {..<(n :: nat)}"
proof -
  assume n: "0 < n"
  have "inj_on (\<lambda>j. j mod n) {a..<n + a}"
  proof (rule inj_onI)
    fix x y assume xy: "x \<in> {a..<n + a}" "y \<in> {a..<n + a}" "x mod n = y mod n"
    show "x = y"
    proof (rule ccontr)
      assume "x \<noteq> y"
      then have "n dvd max x y - min x y" using xy(3) by (metis max_def min_def mod_eq_dvd_iff_nat nat_le_linear)
      moreover have "0 < max x y - min x y" "max x y - min x y < n" using xy(1,2) \<open>x \<noteq> y\<close> by auto
      ultimately show False using dvd_imp_le by fastforce
    qed
  qed
  then have "card ((\<lambda>j. j mod n) ` {a..<n + a}) = card {..<n}" by (simp add: card_image)
  moreover have "(\<lambda>j. j mod n) ` {a..<n + a} \<subseteq> {..<n}" using n by auto
  ultimately show ?thesis by (simp add: card_subset_eq)
qed

lemma byvalue_spec:
  assumes "lb_wf s p states"
  shows "\<exists>r. find_best_byvalue s p states = Some (r, p\<lparr>lb_next_offset := (case r of None \<Rightarrow> lb_next_offset p | Some i \<Rightarrow> i + 1)\<rparr>) \<and>
    (case r of
       None \<Rightarrow> \<forall>k < num_of_workers p. \<not> eligible s p states k
     | Some i \<Rightarrow> i < num_of_workers p \<and> eligible s p states i \<and>
         (\<forall>k < num_of_workers p. eligible s p states k \<longrightarrow> no_worse (\<not> sv_ext_stateless s) p i k))"
proof (cases "num_of_workers p = 0")
  case True
  then show ?thesis by (intro exI [of _ None]) (simp add: find_best_byvalue_def)
next
  case False
  have "best_of (eligible s p states) (\<not> sv_ext_stateless s) p {} (None, 0, 0)" by (simp add: best_of_def)
  from byvalue_loop_best [OF assms _ this, of "lb_next_offset p" "[lb_next_offset p..<num_of_workers p + lb_next_offset p]"]
  obtain b where b: "byvalue_loop s p states (None, 0, 0) (lb_next_offset p) [lb_next_offset p..<num_of_workers p + lb_next_offset p]
        = Some (b, offset_of (lb_next_offset p) b)"
      "best_of (eligible s p states) (\<not> sv_ext_stateless s) p {..<num_of_workers p} b"
    using False mod_window [of "num_of_workers p" "lb_next_offset p"] by (auto simp: offset_of_def)
  then show ?thesis
    by (intro exI [of _ "fst b"]) (auto simp: find_best_byvalue_def best_of_def offset_of_def split: option.splits prod.splits)
qed

section \<open>Fairness\<close>

text \<open>One request without session: the best member by value is chosen and charged.\<close>

definition elect :: "jk_ws_service \<Rightarrow> lb_worker \<Rightarrow> int list \<Rightarrow> (nat \<times> lb_worker) ub" where
  "elect s p states =
     do {
       (r, p1) \<leftarrow> find_best_byvalue s p states;
       i \<leftarrow> r;
       w \<leftarrow> rd (lb_workers p1) i;
       Some (i, p1\<lparr>lb_workers := (lb_workers p1)[i := charge_request (lb_lbmethod p1) False (sv_ext_stateless s) w]\<rparr>)
     }"

fun elections :: "jk_ws_service \<Rightarrow> lb_worker \<Rightarrow> int list \<Rightarrow> nat \<Rightarrow> (nat list \<times> lb_worker) ub" where
  "elections s p states 0 = Some ([], p)"
| "elections s p states (Suc n) =
     do { (i, p1) \<leftarrow> elect s p states; (is, p2) \<leftarrow> elections s p1 states n; Some (i # is, p2) }"

text \<open>All members are eligible at the same distance, and requests are counted.\<close>

definition uniform :: "jk_ws_service \<Rightarrow> lb_worker \<Rightarrow> int list \<Rightarrow> bool" where
  "uniform s p states \<longleftrightarrow> lb_wf s p states \<and> 0 < num_of_workers p \<and> lb_lbmethod p = JK_LB_METHOD_REQUESTS \<and> \<not> sv_ext_stateless s \<and>
     (\<forall>i < num_of_workers p. eligible s p states i \<and> sw_distance (lb_workers p ! i) = sw_distance (lb_workers p ! 0))"

abbreviation lv :: "lb_worker \<Rightarrow> nat \<Rightarrow> nat" where
  "lv p i \<equiv> unat (sw_value (lb_workers p ! i))"

abbreviation lm :: "lb_worker \<Rightarrow> nat \<Rightarrow> nat" where
  "lm p i \<equiv> unat (sw_lb_mult (lb_workers p ! i))"

definition balanced :: "lb_worker \<Rightarrow> bool" where
  "balanced p \<longleftrightarrow> (\<forall>i < num_of_workers p. \<forall>j < num_of_workers p. lv p i \<le> lv p j + lm p i)"

definition room :: "lb_worker \<Rightarrow> nat \<Rightarrow> bool" where
  "room p n \<longleftrightarrow> (\<forall>i < num_of_workers p. lv p i + n * lm p i < 2 ^ 64)"

lemma elect_spec:
  assumes "uniform s p states" and "balanced p" and "room p (Suc n)"
  shows "\<exists>i p'. elect s p states = Some (i, p') \<and> i < num_of_workers p \<and> num_of_workers p' = num_of_workers p \<and>
    uniform s p' states \<and> balanced p' \<and> room p' n \<and>
    (\<forall>k < num_of_workers p. lm p' k = lm p k \<and> lv p' k = lv p k + (if k = i then lm p k else 0))"
proof -
  let ?n = "num_of_workers p"
  have u: "lb_wf s p states" "0 < ?n" "lb_lbmethod p = JK_LB_METHOD_REQUESTS" "\<not> sv_ext_stateless s"
      "\<And>i. i < ?n \<Longrightarrow> eligible s p states i \<and> sw_distance (lb_workers p ! i) = sw_distance (lb_workers p ! 0)"
    using assms(1) unfolding uniform_def by blast+
  obtain r where r: "find_best_byvalue s p states = Some (r, p\<lparr>lb_next_offset := (case r of None \<Rightarrow> lb_next_offset p | Some i \<Rightarrow> i + 1)\<rparr>)"
      "case r of
         None \<Rightarrow> \<forall>k < ?n. \<not> eligible s p states k
       | Some i \<Rightarrow> i < ?n \<and> eligible s p states i \<and> (\<forall>k < ?n. eligible s p states k \<longrightarrow> no_worse (\<not> sv_ext_stateless s) p i k)"
    using byvalue_spec [OF u(1)] by blast
  have "r \<noteq> None" using r(2) u(2) u(5) [OF u(2)] by (cases r) auto
  then obtain i where i: "r = Some i" "i < ?n" "\<forall>k < ?n. eligible s p states k \<longrightarrow> no_worse True p i k"
    using r(2) u(4) by auto
  have min: "lv p i \<le> lv p k" if "k < ?n" for k
    using i(3) that u(5) [OF that] u(5) [OF i(2)] by (simp add: no_worse_def word_le_nat_alt)
  let ?w = "charge_request (lb_lbmethod p) False False (lb_workers p ! i)"
  let ?p = "p\<lparr>lb_next_offset := i + 1, lb_workers := (lb_workers p)[i := ?w]\<rparr>"
  have e: "elect s p states = Some (i, ?p)" using r(1) i(1,2) u(4) by (simp add: elect_def)
  have len: "num_of_workers ?p = ?n" by simp
  have m: "lm ?p k = lm p k" if "k < ?n" for k
    using that i(2) by (cases "k = i") (simp_all add: charge_request_def Let_def)
  have "lv p i + lm p i < 2 ^ 64" using assms(3) i(2) by (auto simp: room_def)
  then have v: "lv ?p k = lv p k + (if k = i then lm p k else 0)" if "k < ?n" for k
    using that i(2) u(3) by (cases "k = i") (simp_all add: charge_request_def Let_def unat_word_ariths)
  have "balanced ?p" unfolding balanced_def len
  proof (intro allI impI)
    fix a b assume ab: "a < ?n" "b < ?n"
    have "lv p a \<le> lv p b + lm p a" using assms(2) ab by (simp add: balanced_def)
    then show "lv ?p a \<le> lv ?p b + lm ?p a" using v [OF ab(1)] v [OF ab(2)] m [OF ab(1)] min [OF ab(2)] by simp
  qed
  moreover have "room ?p n" unfolding room_def len
  proof (intro allI impI)
    fix a assume a: "a < ?n"
    have "lv p a + Suc n * lm p a < 2 ^ 64" using assms(3) a by (simp only: room_def)
    then show "lv ?p a + n * lm ?p a < 2 ^ 64" using v [OF a] m [OF a] by (auto split: if_splits)
  qed
  moreover have "uniform s ?p states"
  proof -
    have k: "sw_i (lb_workers ?p ! k) = sw_i (lb_workers p ! k)" "sw_distance (lb_workers ?p ! k) = sw_distance (lb_workers p ! k)"
        "sw_activation (lb_workers ?p ! k) = sw_activation (lb_workers p ! k)" if "k < ?n" for k
      using that i(2) by (cases "k = i"; simp add: charge_request_def Let_def)+
    have "eligible s ?p states k" if "k < ?n" for k
    proof -
      have "act s ?p k = act s p k" using k(3) [OF that] by (simp add: act_def Let_def)
      then show ?thesis using u(5) [OF that] by (simp only: eligible_def)
    qed
    moreover have "sw_distance (lb_workers ?p ! k) = sw_distance (lb_workers ?p ! 0)" if "k < ?n" for k
      unfolding k(2) [OF that] k(2) [OF u(2)] using u(5) [OF that] by blast
    moreover have "lb_wf s ?p states" using u(1) k(1) by (simp add: lb_wf_def)
    moreover have "lb_lbmethod ?p = JK_LB_METHOD_REQUESTS" using u(3) by simp
    ultimately show ?thesis unfolding uniform_def len using u(2,4) by blast
  qed
  ultimately show ?thesis using e i(2) m v len by blast
qed

lemma elections_spec:
  assumes "uniform s p states" and "balanced p" and "room p n"
  shows "\<exists>is p'. elections s p states n = Some (is, p') \<and> length is = n \<and> num_of_workers p' = num_of_workers p \<and> balanced p' \<and>
    (\<forall>k < num_of_workers p. lm p' k = lm p k \<and> lv p' k = lv p k + count_list is k * lm p k)"
  using assms
proof (induction n arbitrary: p)
  case (Suc n)
  obtain i p1 where e: "elect s p states = Some (i, p1)" "num_of_workers p1 = num_of_workers p" "uniform s p1 states" "balanced p1"
      "room p1 n" "\<forall>k < num_of_workers p. lm p1 k = lm p k \<and> lv p1 k = lv p k + (if k = i then lm p k else 0)"
    using elect_spec [OF Suc.prems] by blast
  obtain "is" p2 where es: "elections s p1 states n = Some (is, p2)" "length is = n" "num_of_workers p2 = num_of_workers p1" "balanced p2"
      "\<forall>k < num_of_workers p1. lm p2 k = lm p1 k \<and> lv p2 k = lv p1 k + count_list is k * lm p1 k"
    using Suc.IH [OF e(3-5)] by blast
  show ?case
  proof (intro exI conjI allI impI)
    show "elections s p states (Suc n) = Some (i # is, p2)" using e(1) es(1) by simp
    fix k assume "k < num_of_workers p"
    then show "lm p2 k = lm p k" "lv p2 k = lv p k + count_list (i # is) k * lm p k" using e(2,6) es(5) by simp_all
  qed (use e es in simp_all)
qed simp

text \<open>Claim C13: with the method \<open>Request\<close>, members that are all usable at the same distance share the requests in
  the ratio of their factors, exactly up to one request: after any number of requests, the requests of member
  \<open>i\<close> divided by its factor exceed those of any member \<open>j\<close> divided by its factor by at most one request of \<open>i\<close>.\<close>

theorem lb_requests_fair:
  assumes "factors_ok (lb_workers p)" and "prod_list (factors (lb_workers p)) < 2 ^ 64"
    and "update_mult p = Some p1" and "uniform s p1 states" and "\<forall>w \<in> set (lb_workers p1). sw_value w = 0"
    and "n * Lcm (set (factors (lb_workers p))) < 2 ^ 64"
  shows "\<exists>is p2. elections s p1 states n = Some (is, p2) \<and> length is = n \<and>
    (\<forall>i < num_of_workers p. \<forall>j < num_of_workers p.
       count_list is i * factors (lb_workers p) ! j \<le> count_list is j * factors (lb_workers p) ! i + factors (lb_workers p) ! j)"
proof -
  let ?L = "Lcm (set (factors (lb_workers p)))" and ?f = "\<lambda>i. factors (lb_workers p) ! i" and ?n = "num_of_workers p"
  have u: "num_of_workers p1 = ?n" "\<And>i. i < ?n \<Longrightarrow> lm p1 i * ?f i = ?L"
    using update_mult_spec [OF assms(1,2)] assms(3) by (auto simp: factors_def)
  have f: "0 < ?f i" if "i < ?n" for i
  proof -
    have "1 \<le> sw_lb_factor (lb_workers p ! i)" using assms(1) that by (simp add: factors_ok_def)
    then show ?thesis using that by (simp add: factors_def)
  qed
  have "0 \<notin> set (factors (lb_workers p))" using f by (metis in_set_conv_nth length_map factors_def less_irrefl)
  then have L: "0 < ?L" using Lcm_0_iff_nat [of "set (factors (lb_workers p))"] by (metis finite_set gr0I)
  have v0: "lv p1 i = 0" if "i < ?n" for i using assms(5) that u(1) by simp
  have le: "lm p1 i \<le> ?L" if "i < ?n" for i using mult_le_mono2 [of 1 "?f i" "lm p1 i"] u(2) [OF that] f [OF that] by simp
  have "room p1 n" unfolding room_def u(1)
  proof (intro allI impI)
    fix i assume i: "i < ?n"
    have "n * lm p1 i \<le> n * ?L" using le [OF i] by simp
    then have "n * lm p1 i < 2 ^ 64" using assms(6) by (rule le_less_trans)
    then show "lv p1 i + n * lm p1 i < 2 ^ 64" using v0 [OF i] by simp
  qed
  moreover have "balanced p1" using v0 u(1) by (simp add: balanced_def)
  ultimately obtain "is" p2 where e: "elections s p1 states n = Some (is, p2)" "length is = n" "num_of_workers p2 = ?n" "balanced p2"
      "\<forall>k < ?n. lm p2 k = lm p1 k \<and> lv p2 k = lv p1 k + count_list is k * lm p1 k"
    using elections_spec [OF assms(4), of n] unfolding u(1) by blast
  have "count_list is i * ?f j \<le> count_list is j * ?f i + ?f j" if ij: "i < ?n" "j < ?n" for i j
  proof -
    have "count_list is i * lm p1 i \<le> count_list is j * lm p1 j + lm p1 i"
      using e(3-5) ij v0 [OF ij(1)] v0 [OF ij(2)] by (fastforce simp: balanced_def)
    then have "count_list is i * lm p1 i * (?f i * ?f j) \<le> (count_list is j * lm p1 j + lm p1 i) * (?f i * ?f j)"
      by (rule mult_le_mono1)
    moreover have "count_list is i * lm p1 i * (?f i * ?f j) = count_list is i * ?f j * ?L" using u(2) [OF ij(1)] by (simp add: ac_simps)
    moreover have "(count_list is j * lm p1 j + lm p1 i) * (?f i * ?f j) = (count_list is j * ?f i + ?f j) * ?L"
      using u(2) [OF ij(1)] u(2) [OF ij(2)] by (simp add: algebra_simps)
    ultimately show ?thesis using L by simp
  qed
  then show ?thesis using e(1,2) by blast
qed

section \<open>The theorems\<close>

text \<open>\<open>update_mult\<close> gives every member the multiplier that makes factor times multiplier the least common
  multiple of all factors, the same for all members, whenever the product of the factors fits in 64 bits.\<close>

theorem update_mult_lcm:
  assumes "factors_ok (lb_workers p)" and "prod_list (factors (lb_workers p)) < 2 ^ 64"
  shows "\<exists>p'. update_mult p = Some p' \<and> num_of_workers p' = num_of_workers p \<and>
    (\<forall>i < num_of_workers p. sw_lb_factor (lb_workers p' ! i) = sw_lb_factor (lb_workers p ! i) \<and>
       unat (sw_lb_mult (lb_workers p' ! i)) * nat (sw_lb_factor (lb_workers p ! i)) = Lcm (set (factors (lb_workers p))))"
  using assms by (rule update_mult_spec)

text \<open>Claim C16: \<open>find_best_byvalue\<close> finds a member whenever one is usable, and the best one: no usable member is
  nearer, and among those as near none has a smaller load value (a stateless request only looks at the
  distance). The next search starts behind the member found.\<close>

theorem find_best_byvalue_optimal:
  assumes "lb_wf s p states"
  shows "\<exists>r. find_best_byvalue s p states = Some (r, p\<lparr>lb_next_offset := (case r of None \<Rightarrow> lb_next_offset p | Some i \<Rightarrow> i + 1)\<rparr>) \<and>
    (case r of
       None \<Rightarrow> \<forall>k < num_of_workers p. \<not> eligible s p states k
     | Some i \<Rightarrow> i < num_of_workers p \<and> eligible s p states i \<and>
         (\<forall>k < num_of_workers p. eligible s p states k \<longrightarrow> no_worse (\<not> sv_ext_stateless s) p i k))"
  using assms by (rule byvalue_spec)

definition demo_member :: "nat \<Rightarrow> int \<Rightarrow> string \<Rightarrow> lb_sub_worker" where
  "demo_member i f route =
     \<lparr>sw_aw = demo_aw,
      sw_s = \<lparr>ss_sequence = 1, ss_route = route, ss_domain = [], ss_redirect = [], ss_distance = 0, ss_activation = 0,
              ss_state = 0, ss_lb_factor = f, ss_lb_mult = 1, ss_lb_value = 0, ss_first_error_time = 0,
              ss_last_error_time = 0, ss_elected_snapshot = 0, ss_sessions = 0, ss_errors = 0\<rparr>,
      sw_name = route, sw_sequence = 1, sw_route = route, sw_domain = [], sw_redirect = [], sw_distance = 0,
      sw_activation = 0, sw_lb_factor = f, sw_i = i, sw_lb_mult = 1\<rparr>"

definition demo_lb :: "lb_sub_worker list \<Rightarrow> lb_worker" where
  "demo_lb ws =
     \<lparr>lb_s = \<lparr>sl_sequence = 1, sl_busy = 0, sl_max_busy = 0, sl_sticky_session = True, sl_sticky_session_force = False,
              sl_recover_wait_time = 60, sl_error_escalation_time = 30, sl_max_reply_timeouts = 0, sl_retries = 2,
              sl_retry_interval = 100, sl_lbmethod = 0, sl_lblock = 0, sl_max_packet_size = 8192,
              sl_last_maintain_time = 0\<rparr>,
      lb_name = ''lb'', lb_sequence = 1, lb_workers = ws, lb_sticky_session = True, lb_sticky_session_force = False,
      lb_recover_wait_time = 60, lb_error_escalation_time = 30, lb_max_reply_timeouts = 0, lb_retries_num = 2,
      lb_lb_retries = 2, lb_retry_interval = 100, lb_lbmethod = 0, lb_lblock = 0, lb_maintain_time = 60,
      lb_max_packet_size = 8192, lb_next_offset = 0, lb_session_cookie = ''JSESSIONID'', lb_session_path = '';jsessionid'',
      lb_set_session_cookie = False, lb_session_cookie_path = ''/''\<rparr>"

definition demo_ws :: jk_ws_service where
  "demo_ws =
     \<lparr>sv_pool = (jk_open_pool 8192, \<lparr>live = [], next_id = 0, limit = 100000\<rparr>), sv_req_uri = [NUL], sv_headers = [],
      sv_route = None, sv_sticky = False, sv_activation = None, sv_ext_activation = None, sv_ext_stateless = False,
      sv_ext_sticky_ignore = False, sv_ext_session_path = None, sv_ext_session_cookie = None,
      sv_ext_set_session_cookie = False, sv_resp_headers = [], sv_is_ssl = False, sv_reco_buf = None, sv_reco_status = 0\<rparr>"

definition demo_two :: "lb_sub_worker list" where
  "demo_two = [demo_member 0 2 ''r0'', demo_member 1 3 ''r1'']"

lemmas demo_defs = demo_lb_def demo_two_def demo_member_def demo_ws_def

lemma demo_two_ok: "factors_ok demo_two" "factors demo_two = [2, 3]" "Lcm (set (factors demo_two)) = 6"
  "\<forall>w \<in> set demo_two. sw_value w = 0" "length demo_two = 2"
  by (simp_all add: demo_two_def demo_member_def factors_ok_def factors_def lcm_nat_def)

lemma demo_two_wf: "lb_wf demo_ws (demo_lb demo_two) [0, 0]"
  by (simp add: lb_wf_def demo_defs All_less_Suc)

theorem update_mult_lcm_witness:
  "\<exists>p'. update_mult (demo_lb demo_two) = Some p' \<and> unat (sw_lb_mult (lb_workers p' ! 1)) * 3 = 6"
  using update_mult_lcm [of "demo_lb demo_two"] demo_two_ok by (auto simp: demo_lb_def demo_two_def demo_member_def)

theorem find_best_byvalue_optimal_witness:
  "\<exists>r p'. find_best_byvalue demo_ws (demo_lb demo_two) [0, 0] = Some (r, p') \<and> r \<noteq> None"
proof -
  have e: "eligible demo_ws (demo_lb demo_two) [0, 0] 0" "0 < num_of_workers (demo_lb demo_two)"
    by (simp_all add: eligible_def act_def JK_WORKER_USABLE_def demo_defs)
  show ?thesis using find_best_byvalue_optimal [OF demo_two_wf] e by (fastforce split: option.splits)
qed

definition demo_mult :: lb_worker where
  "demo_mult = the (update_mult (demo_lb demo_two))"

lemma demo_mult_ok: "update_mult (demo_lb demo_two) = Some demo_mult"
  using update_mult_spec [of "demo_lb demo_two"] demo_two_ok by (auto simp: demo_lb_def demo_mult_def)

lemma update_mult_shape:
  assumes "update_mult p = Some p'" and "factors_ok (lb_workers p)"
  shows "\<exists>c. p' = p\<lparr>lb_workers := map (\<lambda>w. w\<lparr>sw_lb_mult := c div word_of_int (sw_lb_factor w)\<rparr>) (lb_workers p)\<rparr>"
  using assms set_mults_spec [OF assms(2)] by (auto simp: update_mult_def ub_simps)

lemma demo_mult_workers: "\<exists>a b. lb_workers demo_mult = [demo_member 0 2 ''r0''\<lparr>sw_lb_mult := a\<rparr>, demo_member 1 3 ''r1''\<lparr>sw_lb_mult := b\<rparr>]"
  and demo_mult_fields: "lb_lbmethod demo_mult = JK_LB_METHOD_REQUESTS"
proof -
  obtain c where c: "demo_mult = (demo_lb demo_two)\<lparr>lb_workers := map (\<lambda>w. w\<lparr>sw_lb_mult := c div word_of_int (sw_lb_factor w)\<rparr>) demo_two\<rparr>"
    using update_mult_shape [OF demo_mult_ok] demo_two_ok(1) by (auto simp: demo_lb_def)
  have d: "lb_workers demo_mult = map (\<lambda>w. w\<lparr>sw_lb_mult := c div word_of_int (sw_lb_factor w)\<rparr>) demo_two" by (subst c) simp
  have e: "lb_lbmethod demo_mult = lb_lbmethod (demo_lb demo_two)" by (subst c) simp
  show "\<exists>a b. lb_workers demo_mult = [demo_member 0 2 ''r0''\<lparr>sw_lb_mult := a\<rparr>, demo_member 1 3 ''r1''\<lparr>sw_lb_mult := b\<rparr>]"
    unfolding d demo_two_def by simp blast
  show "lb_lbmethod demo_mult = JK_LB_METHOD_REQUESTS" unfolding e by (simp add: demo_lb_def)
qed

theorem lb_requests_fair_witness:
  "\<exists>is p2. elections demo_ws demo_mult [0, 0] 5 = Some (is, p2) \<and> length is = 5 \<and>
     count_list is 0 * 3 \<le> count_list is 1 * 2 + 3 \<and> count_list is 1 * 2 \<le> count_list is 0 * 3 + 2"
proof -
  obtain a b where w: "lb_workers demo_mult = [demo_member 0 2 ''r0''\<lparr>sw_lb_mult := a\<rparr>, demo_member 1 3 ''r1''\<lparr>sw_lb_mult := b\<rparr>]"
    using demo_mult_workers by blast
  have u: "uniform demo_ws demo_mult [0, 0]"
    by (simp add: uniform_def lb_wf_def eligible_def act_def JK_WORKER_USABLE_def w demo_mult_fields demo_ws_def demo_member_def
        All_less_Suc)
  have f: "lb_workers (demo_lb demo_two) = demo_two" by (simp add: demo_lb_def)
  have "\<forall>w \<in> set (lb_workers demo_mult). sw_value w = 0" by (simp add: w demo_member_def)
  from lb_requests_fair [OF _ _ demo_mult_ok u this, of 5, unfolded f demo_two_ok]
  obtain "is" p2 where "elections demo_ws demo_mult [0, 0] 5 = Some (is, p2)" "length is = 5"
      "\<forall>i < 2. \<forall>j < 2. count_list is i * [2, 3] ! j \<le> count_list is j * [2, 3] ! i + [2, 3] ! j"
    using demo_two_ok(1,3) by (auto simp: demo_two_ok(2))
  then show ?thesis by (intro exI [of _ "is"] exI [of _ p2]) (simp add: less_2_cases_iff)
qed

section \<open>Maintenance\<close>

lemma div_less_mult:
  assumes "0 < (m :: int)"
  shows "a div m < k \<longleftrightarrow> a < k * m"
proof -
  have d: "a = a div m * m + a mod m" "0 \<le> a mod m" "a mod m < m" using assms by simp_all
  show ?thesis
  proof
    assume "a div m < k"
    then have "a div m * m \<le> (k - 1) * m" using assms by (intro mult_right_mono) simp_all
    moreover have "(k - 1) * m = k * m - m" by (simp add: left_diff_distrib)
    ultimately show "a < k * m" using d by linarith
  next
    assume "a < k * m"
    then show "a div m < k" using d assms by (metis add_increasing2 leD leI mult_right_mono less_imp_le order_trans)
  qed
qed

lemma decay_member_None: "decay_member m e w = None \<longleftrightarrow> \<not> (0 \<le> e \<and> e < 32)"
  by (auto simp: decay_member_def guard_def)

lemma decay_pass_None: "decay_pass m e c ws = None \<longleftrightarrow> ws \<noteq> [] \<and> \<not> (0 \<le> e \<and> e < 32)"
proof (induction ws arbitrary: c)
  case (Cons w ws)
  show ?case
  proof (cases "decay_member m e w")
    case None
    then have "\<not> (0 \<le> e \<and> e < 32)" using decay_member_None [of m e w] by blast
    then show ?thesis using None by simp
  next
    case (Some w')
    then have "0 \<le> e \<and> e < 32" using decay_member_None [of m e w] by simp
    then show ?thesis using Some Cons.IH by (auto simp: ub_simps)
  qed
qed simp

lemma decay_load_None: "decay_load p e = None \<longleftrightarrow> lb_workers p \<noteq> [] \<and> \<not> (0 \<le> e \<and> e < 32)"
  using decay_pass_None [of "lb_lbmethod p" e 0 "lb_workers p"]
  by (cases "decay_pass (lb_lbmethod p) e 0 (lb_workers p)") (auto simp: decay_load_def)

lemma decay_load_fields: "decay_load p e = Some (c, p') \<Longrightarrow>
    lb_sequence p' = lb_sequence p \<and> lb_s p' = lb_s p \<and> num_of_workers p' = num_of_workers p"
proof -
  assume a: "decay_load p e = Some (c, p')"
  have "decay_pass m e c0 ws = Some (c1, ws') \<Longrightarrow> length ws' = length ws" for m c0 ws c1 ws'
    by (induction ws arbitrary: c0 c1 ws') (auto simp: ub_simps)
  then show ?thesis using a by (auto simp: decay_load_def ub_simps Let_def split: prod.splits)
qed

lemma recover_current: "lb_sequence p = sl_sequence (lb_s p) \<Longrightarrow> \<exists>n q. recover_workers resolves (p, wd) c now = Some (n, q, wd)"
  by (simp add: recover_workers_def Let_def)

text \<open>Global maintenance of a balancer whose configuration is current shifts by the number of maintenance
  intervals since the last one, which is undefined exactly when these are 32 or more: an idle balancer
  that was not maintained for 32 intervals.\<close>

theorem maintain_decay_faults:
  assumes "lb_sequence p = sl_sequence (lb_s p)" and "lb_maintain_time p > 0" and "lb_workers p \<noteq> []"
    and "sl_last_maintain_time (lb_s p) \<le> now"
  shows "global_maintain resolves (p, wd) now = None \<longleftrightarrow> 32 * lb_maintain_time p \<le> now - sl_last_maintain_time (lb_s p)"
proof -
  let ?e = "(now - sl_last_maintain_time (lb_s p)) div lb_maintain_time p"
  let ?p = "p\<lparr>lb_s := (lb_s p)\<lparr>sl_last_maintain_time := now\<rparr>\<rparr>"
  have e: "cdiv (JK_LB_DECAY_MULT * (now - sl_last_maintain_time (lb_s p))) (lb_maintain_time p) = ?e"
    using assms(2,4) by (auto simp: cdiv_def sgn_if)
  have nn: "0 \<le> ?e" using assms(2,4) by (simp add: pos_imp_zdiv_nonneg_iff)
  have iff: "?e < 32 \<longleftrightarrow> now - sl_last_maintain_time (lb_s p) < 32 * lb_maintain_time p"
    using div_less_mult [OF assms(2)] by simp
  show ?thesis
  proof (cases "decay_load ?p ?e")
    case None
    then show ?thesis using decay_load_None [of ?p ?e] nn iff assms(2) e by (simp add: global_maintain_def Let_def)
  next
    case (Some x)
    obtain c p1 where x: "x = (c, p1)" by (cases x)
    then have "lb_sequence p1 = sl_sequence (lb_s p1)" using Some assms(1) decay_load_fields by fastforce
    then obtain n q where r: "recover_workers resolves (p1, wd) c now = Some (n, q, wd)" using recover_current by blast
    have "?e < 32" using Some decay_load_None [of ?p ?e] assms(3) by auto
    then show ?thesis using Some x r iff assms(2) e by (simp add: global_maintain_def Let_def force_recovery_def)
  qed
qed

theorem maintain_decay_faults_witness:
  "global_maintain (\<lambda>_ _. True) (demo_lb demo_two, demo_world []) 1920 = None"
  using maintain_decay_faults [of "demo_lb demo_two" 1920 "\<lambda>_ _. True" "demo_world []"]
  by (simp add: demo_lb_def demo_two_def)

lemma recover_member_alive: "recover_member p c now w = (True, w') \<Longrightarrow> sw_state w' \<noteq> JK_LB_STATE_ERROR"
  by (auto simp: recover_member_def Let_def split: if_splits)

lemma force_member_alive: "sw_state (force_member w) \<noteq> JK_LB_STATE_ERROR"
  by (simp add: force_member_def)

text \<open>Claim C34: after global maintenance some member is not in the error state: when all members are in error and none
  has waited long enough to recover, recovery is forced.\<close>

theorem maintain_leaves_one_alive:
  assumes "global_maintain resolves (p, wd) now = Some (p', wd')" and "lb_workers p' \<noteq> []"
  shows "\<exists>w \<in> set (lb_workers p'). sw_state w \<noteq> JK_LB_STATE_ERROR"
proof -
  obtain c p1 n p2 wd2 p3 where s: "recover_workers resolves (p1, wd) c now = Some (n, p2, wd2)"
      "(if n = 0 then do { (_, q, _) \<leftarrow> force_recovery p2 None; Some q } else Some p2) = Some p3"
      "p' = p3\<lparr>lb_workers := map idle_member (lb_workers p3)\<rparr>"
    using assms(1) by (auto simp: global_maintain_def Let_def ub_simps split del: if_split)
  have idle: "sw_state (idle_member w) = sw_state w" for w by (simp add: idle_member_def)
  have "\<exists>w \<in> set (lb_workers p3). sw_state w \<noteq> JK_LB_STATE_ERROR"
  proof (cases "n = 0")
    case True
    then have "p3 = p2\<lparr>lb_workers := map force_member (lb_workers p2)\<rparr>" using s(2) by (simp add: force_recovery_def)
    then show ?thesis using force_member_alive assms(2) s(3) by (cases "lb_workers p2") auto
  next
    case False
    obtain q wd0 where "p2 = q\<lparr>lb_workers := map snd (map (recover_member q c now) (lb_workers q))\<rparr>"
        "n = length (filter fst (map (recover_member q c now) (lb_workers q)))"
      using s(1) by (auto simp: recover_workers_def Let_def ub_simps split del: if_split)
    then obtain w where w: "w \<in> set (lb_workers q)" "fst (recover_member q c now w)"
        "lb_workers p2 = map (\<lambda>w. snd (recover_member q c now w)) (lb_workers q)"
      using False by (auto simp: filter_empty_conv)
    have "sw_state (snd (recover_member q c now w)) \<noteq> JK_LB_STATE_ERROR"
      using recover_member_alive [of q c now w] w(2) by (cases "recover_member q c now w") simp
    moreover have "snd (recover_member q c now w) \<in> set (lb_workers p2)" using w by simp
    ultimately show ?thesis using s(2) False by auto
  qed
  then show ?thesis using s(3) idle by auto
qed

theorem maintain_leaves_one_alive_witness:
  "\<exists>p' wd'. global_maintain (\<lambda>_ _. True) (demo_lb [on_s (\<lambda>s. s\<lparr>ss_state := JK_LB_STATE_ERROR\<rparr>) (demo_member 0 1 ''r0'')], demo_world []) 30
       = Some (p', wd') \<and> (\<exists>w \<in> set (lb_workers p'). sw_state w \<noteq> JK_LB_STATE_ERROR)"
proof -
  let ?p = "demo_lb [on_s (\<lambda>s. s\<lparr>ss_state := JK_LB_STATE_ERROR\<rparr>) (demo_member 0 1 ''r0'')]"
  obtain p' wd' where g: "global_maintain (\<lambda>_ _. True) (?p, demo_world []) 30 = Some (p', wd')" "lb_workers p' \<noteq> []"
    by (simp add: global_maintain_def demo_lb_def cdiv_def decay_load_def decay_member_def guard_def recover_workers_def
        recover_member_def force_recovery_def Let_def demo_member_def on_s_def on_aws_def)
  then show ?thesis using maintain_leaves_one_alive [OF g] by blast
qed

section \<open>Sticky sessions\<close>

lemma find_route_bound: "find_route ws r k = Some i \<Longrightarrow> k \<le> i \<and> i < k + length ws"
  by (induction ws arbitrary: k) (fastforce split: if_splits)+

lemma find_by_session_bound: "find_by_session p r = Some i \<Longrightarrow> i < num_of_workers p"
  using find_route_bound [of "lb_workers p" r 0 i] by (simp add: find_by_session_def)

lemma lb_wf_service [simp]:
  "lb_wf (s\<lparr>sv_sticky := b\<rparr>) p states = lb_wf s p states" "lb_wf (s\<lparr>sv_route := r\<rparr>) p states = lb_wf s p states"
  "act (s\<lparr>sv_sticky := b\<rparr>) p i = act s p i" "act (s\<lparr>sv_route := r\<rparr>) p i = act s p i"
  by (simp_all add: lb_wf_def act_def)

lemma bysession_direct:
  assumes "lb_wf s p states" and "find_by_session p r = Some i" and "JK_WORKER_USABLE_STICKY (states ! i) (act s p i)"
  shows "find_bysession_route s p r states = Some (Some i, s\<lparr>sv_sticky := True\<rparr>)"
proof -
  have i: "i < num_of_workers p" using find_by_session_bound [OF assms(2)] .
  then show ?thesis using assms usable_sticky_at_wf [of "s\<lparr>sv_sticky := True\<rparr>" p states i] by (simp add: find_bysession_route_def)
qed

lemma no_route: "\<forall>w \<in> set ws. sw_route w \<noteq> r \<Longrightarrow> find_route ws r k = None"
  by (induction ws arbitrary: k) auto

lemma no_domain:
  assumes "\<forall>w \<in> set (lb_workers p). \<not> in_domain r n w" and "\<forall>i \<in> set is. i < num_of_workers p"
  shows "bydomain_loop s p states r n b is = Some b"
  using assms by (induction "is") auto

lemma bysession_none:
  assumes "\<forall>w \<in> set (lb_workers p). sw_route w \<noteq> r \<and> sw_domain w \<noteq> takeWhile (\<lambda>c. c \<noteq> CHR ''.'') r"
  shows "find_bysession_route s p r states = Some (None, s)"
proof -
  have "take (length (takeWhile (\<lambda>c. c \<noteq> CHR ''.'') r)) r = takeWhile (\<lambda>c. c \<noteq> CHR ''.'') r" by (simp add: takeWhile_eq_take [symmetric])
  then have "find_best_bydomain s p r states = Some None"
    using assms by (simp add: find_best_bydomain_def no_domain in_domain_def)
  moreover have "find_by_session p r = None" using assms by (simp add: find_by_session_def no_route)
  ultimately show ?thesis by (simp add: find_bysession_route_def)
qed

text \<open>A partial identifier and its route.\<close>

definition plain_id :: "string \<Rightarrow> string \<Rightarrow> bool" where
  "plain_id ident route \<longleftrightarrow> CHR ''.'' \<notin> set ident \<and> CHR '';'' \<notin> set ident \<and> CHR '';'' \<notin> set route"

lemma session_parts:
  assumes "plain_id ident route"
  shows "session_part (ident @ ''.'' @ route) = ident @ ''.'' @ route"
    and "session_part (ident @ ''.'' @ route @ CHR '';'' # rest) = ident @ ''.'' @ route"
    and "session_next (ident @ ''.'' @ route) = None"
    and "session_next (ident @ ''.'' @ route @ CHR '';'' # rest) = Some rest"
    and "session_route (ident @ ''.'' @ route) = Some route"
proof -
  have d: "dropWhile (\<lambda>c. c \<noteq> CHR '';'') (ident @ ''.'' @ route @ xs) = dropWhile (\<lambda>c. c \<noteq> CHR '';'') xs"
    and t: "takeWhile (\<lambda>c. c \<noteq> CHR '';'') (ident @ ''.'' @ route @ xs) = ident @ ''.'' @ route @ takeWhile (\<lambda>c. c \<noteq> CHR '';'') xs"
    and r: "dropWhile (\<lambda>c. c \<noteq> CHR ''.'') (ident @ ''.'' @ route) = ''.'' @ route" for xs
    using assms by (auto simp: plain_id_def dropWhile_append takeWhile_append)
  have e: "dropWhile (\<lambda>c. c \<noteq> CHR '';'') (ident @ ''.'' @ route) = []"
    "takeWhile (\<lambda>c. c \<noteq> CHR '';'') (ident @ ''.'' @ route) = ident @ ''.'' @ route"
    using t [of "[]"] d [of "[]"] by (simp_all only: append_Nil2 dropWhile.simps takeWhile.simps)
  show "session_part (ident @ ''.'' @ route) = ident @ ''.'' @ route" "session_next (ident @ ''.'' @ route) = None"
    by (simp_all only: session_part_def session_next_def e list.case)
  show "session_part (ident @ ''.'' @ route @ CHR '';'' # rest) = ident @ ''.'' @ route"
      "session_next (ident @ ''.'' @ route @ CHR '';'' # rest) = Some rest"
    using t [of "CHR '';'' # rest"] d [of "CHR '';'' # rest"] by (simp_all add: session_part_def session_next_def)
  show "session_route (ident @ ''.'' @ route) = Some route" using r by (simp add: session_route_def)
qed



text \<open>The search for a session destroys the identifier it is given. With two partial identifiers, of which
  only the second names a member, the first attempt finds that member, but hands back the first
  identifier alone; a second attempt on the same request ignores the session and chooses like a
  request without one.\<close>

theorem session_ids_cut:
  assumes "lb_wf s p states" and "num_of_workers p \<noteq> 1" and "lb_lblock p \<noteq> JK_LB_LOCK_PESSIMISTIC" and "\<not> lb_sticky_session_force p"
    and "plain_id ida ra" and "plain_id idb rb" and "find_by_session p rb = Some i"
    and "JK_WORKER_USABLE_STICKY (states ! i) (act s p i)"
    and "\<forall>w \<in> set (lb_workers p). sw_route w \<noteq> ra \<and> sw_domain w \<noteq> takeWhile (\<lambda>c. c \<noteq> CHR ''.'') ra"
  shows "get_most_suitable_worker lock_ok s p (Some (ida @ ''.'' @ ra @ CHR '';'' # idb @ ''.'' @ rb)) states =
      Some (Some i, Some (ida @ ''.'' @ ra), s\<lparr>sv_sticky := True\<rparr>, p) \<and>
    map_option (\<lambda>(r, _, s', p'). (r, s', p')) (get_most_suitable_worker lock_ok s' p (Some (ida @ ''.'' @ ra)) states') =
      map_option (\<lambda>(r, _, s', p'). (r, s', p')) (get_most_suitable_worker lock_ok s' p None states')"
proof
  let ?s = "s\<lparr>sv_sticky := False\<rparr>"
  have none: "session_route (ida @ ''.'' @ ra) = Some ra" "find_bysession_route s0 p ra st = Some (None, s0)" for s0 st
    using session_parts(5) [OF assms(5)] bysession_none [OF assms(9)] by simp_all
  have "find_bysession_route ?s p rb states = Some (Some i, ?s\<lparr>sv_sticky := True\<rparr>)"
    using bysession_direct [of ?s p states rb i] assms by simp
  then have "session_loop ?s p states (idb @ ''.'' @ rb) = Some (Some i, s\<lparr>sv_sticky := True\<rparr>)"
    using session_parts [OF assms(6)] by (subst session_loop.simps) simp
  then have "session_loop ?s p states (ida @ ''.'' @ ra @ CHR '';'' # idb @ ''.'' @ rb) = Some (Some i, s\<lparr>sv_sticky := True\<rparr>)"
    using session_parts(2,4) [OF assms(5), of "idb @ ''.'' @ rb"] none by (subst session_loop.simps) simp
  then show "get_most_suitable_worker lock_ok s p (Some (ida @ ''.'' @ ra @ CHR '';'' # idb @ ''.'' @ rb)) states =
      Some (Some i, Some (ida @ ''.'' @ ra), s\<lparr>sv_sticky := True\<rparr>, p)"
    using assms(2,3) session_parts(2) [OF assms(5), of "idb @ ''.'' @ rb"] by (simp add: get_most_suitable_worker_def Let_def)
  have "session_loop s0 p states' (ida @ ''.'' @ ra) = Some (None, s0)" for s0
    using session_parts [OF assms(5)] none by (subst session_loop.simps) simp
  then show "map_option (\<lambda>(r, _, s', p'). (r, s', p')) (get_most_suitable_worker lock_ok s' p (Some (ida @ ''.'' @ ra)) states') =
      map_option (\<lambda>(r, _, s', p'). (r, s', p')) (get_most_suitable_worker lock_ok s' p None states')"
    using assms(2-4)
    by (cases "find_best_worker (s'\<lparr>sv_sticky := False\<rparr>) p states'") (auto simp: get_most_suitable_worker_def Let_def)
qed

theorem session_ids_cut_witness:
  "get_most_suitable_worker True demo_ws (demo_lb demo_two) (Some ''A1.old;B2.r1'') [0, 0] =
     Some (Some 1, Some ''A1.old'', demo_ws\<lparr>sv_sticky := True\<rparr>, demo_lb demo_two)"
  using session_ids_cut [OF demo_two_wf, of "''A1''" "''old''" "''B2''" "''r1''" 1 True demo_ws "[0, 0]"]
  by (simp add: plain_id_def find_by_session_def JK_WORKER_USABLE_STICKY_def act_def demo_defs)

end
