(* ===== verification/Jk_Lb_Service.thy ===== *)
theory Jk_Lb_Service
  imports Jk_Lb
begin

text \<open>
  The service of a request by the load balancer (\<open>jk_lb_worker.c\<close>): the session identifier in the URI or in
  the cookies, the attempts on the members and what their outcome does to the state of a member, and the
  loop over attempts and retries. The members' endpoints come from their connection pools; what
  \<open>ajp_service\<close> does on an endpoint, the clock, the lock of the shared memory and the changes by others
  during a sleep are an environment.
\<close>

section \<open>The session identifier\<close>

text \<open>The C string at a position of a block of memory.\<close>

definition str_at :: "string \<Rightarrow> nat \<Rightarrow> string ub" where
  "str_at buf k = (if NUL \<in> set (drop k buf) then Some (takeWhile (\<lambda>c. c \<noteq> NUL) (drop k buf)) else None)"

definition strstr_at :: "string \<Rightarrow> nat \<Rightarrow> string \<Rightarrow> nat option ub" where
  "strstr_at buf k name = do { s \<leftarrow> str_at buf k; Some (map_option (\<lambda>i. k + i) (c_strstr s name)) }"

lemma str_at_in: "str_at buf k = Some s \<Longrightarrow> k < length buf"
  by (cases "k < length buf") (simp_all add: str_at_def)

lemma strstr_at_bound: "strstr_at buf k name = Some (Some j) \<Longrightarrow> k \<le> j \<and> j \<le> length buf"
proof -
  assume a: "strstr_at buf k name = Some (Some j)"
  then obtain s i where s: "str_at buf k = Some s" "c_strstr s name = Some i" "j = k + i" by (auto simp: strstr_at_def ub_simps)
  have "i \<le> length s" using c_strstr_Some [OF s(2)] by simp
  moreover have "s = takeWhile (\<lambda>c. c \<noteq> NUL) (drop k buf)" using s(1) by (simp add: str_at_def split: if_splits)
  then have "length s \<le> length (drop k buf)" by (simp add: length_takeWhile_le del: length_drop)
  moreover have "k < length buf" using str_at_in [OF s(1)] .
  ultimately show ?thesis using s(3) by simp
qed

definition cut :: "char \<Rightarrow> string \<Rightarrow> string" where
  "cut c s = takeWhile (\<lambda>x. x \<noteq> c) s"

text \<open>\<open>id_start\<close> is a position, none for null. A failed copy is a null pointer that is searched.\<close>

function path_param_loop :: "mem \<Rightarrow> string \<Rightarrow> string \<Rightarrow> nat option \<Rightarrow> (string option \<times> mem) ub" where
  "path_param_loop m buf name None = Some (None, m)"
| "path_param_loop m buf name (Some k) =
     do {
       c \<leftarrow> rd buf (k + length name);
       if c = CHR ''='' then
         do {
           v \<leftarrow> str_at buf (k + length name + 1);
           if v \<noteq> [] then
             do {
               (r, m1) \<leftarrow> jk_pool_strdup m (Some v);
               d \<leftarrow> r;
               Some (Some (cut CHR ''/'' (cut CHR '';'' (cut CHR ''?'' d))), m1)
             }
           else do { nx \<leftarrow> strstr_at buf (k + length name + 1 + 1) name; path_param_loop m buf name nx }
         }
       else do { nx \<leftarrow> strstr_at buf (k + 1) name; path_param_loop m buf name nx }
     }"
  by pat_completeness auto
termination
proof (relation "measure (\<lambda>(m, buf, name, k). case k of None \<Rightarrow> 0 | Some k \<Rightarrow> Suc (length buf - k))", goal_cases)
  case (2 m buf name k c v nx)
  then have "k < length buf" using str_at_in [of buf "k + length name + 1" v] by simp
  then show ?case using 2 strstr_at_bound [of buf "k + length name + 1 + 1" name] by (cases nx) fastforce+
next
  case (3 m buf name k c nx)
  then have "k < length buf" by (simp add: ub_simps)
  then show ?case using 3 strstr_at_bound [of buf "k + 1" name] by (cases nx) fastforce+
qed simp

definition get_path_param :: "mem \<Rightarrow> string \<Rightarrow> string \<Rightarrow> (string option \<times> mem) ub" where
  "get_path_param m uri name = do { k \<leftarrow> strstr_at uri 0 name; path_param_loop m uri name k }"

function skip_space :: "string \<Rightarrow> nat \<Rightarrow> nat ub" where
  "skip_space buf k = do { c \<leftarrow> rd buf k; if c \<noteq> NUL \<and> jk_isspace c then skip_space buf (k + 1) else Some k }"
  by pat_completeness auto
termination
  by (relation "measure (\<lambda>(buf, k). length buf - k)") (auto simp: ub_simps)

declare skip_space.simps [simp del]

lemma skip_space_ge: "skip_space buf k = Some q \<Longrightarrow> k \<le> q \<and> q < length buf"
proof (induction buf k rule: skip_space.induct)
  case (1 buf k)
  then show ?case by (subst (asm) (2) skip_space.simps) (fastforce simp: ub_simps split: if_splits)
qed

text \<open>The values found are joined by semicolons.\<close>

definition add_cookie :: "mem \<Rightarrow> string option \<Rightarrow> string \<Rightarrow> (string \<times> mem) ub" where
  "add_cookie m result v =
     (case result of
        None \<Rightarrow> do { (r, m1) \<leftarrow> jk_pool_alloc m (of_nat (length v + 1)); _ \<leftarrow> r; Some (v, m1) }
      | Some old \<Rightarrow>
          do {
            (r, m1) \<leftarrow> jk_pool_realloc NUL 1 m (of_nat (length old + 1 + length v + 1)) (Some (old @ [NUL])) (of_nat (length old + 1));
            _ \<leftarrow> r;
            Some (old @ '';'' @ v, m1)
          })"

text \<open>A quoted value loses its quotes.\<close>

definition unquote :: "string \<Rightarrow> string" where
  "unquote v =
     (if length v > 1 \<and> v ! 0 = CHR 0x22 \<and> v ! (length v - 1) = CHR 0x22 then take (length v - 2) (drop 1 v) else v)"

definition cookie_start :: "string \<Rightarrow> nat \<Rightarrow> bool ub" where
  "cookie_start buf k =
     (if k = 0 then Some True
      else do { b \<leftarrow> rd buf (k - 1); Some (b = CHR '';'' \<or> b = CHR '','' \<or> jk_isspace b) })"

function cookie_loop :: "mem \<Rightarrow> string \<Rightarrow> string \<Rightarrow> string option \<Rightarrow> nat option \<Rightarrow> (string option \<times> mem) ub" where
  "cookie_loop m buf name result None = Some (result, m)"
| "cookie_loop m buf name result (Some k) =
     do {
       here \<leftarrow> cookie_start buf k;
       if here then
         do {
           q \<leftarrow> skip_space buf (k + length name);
           e \<leftarrow> rd buf q;
           f \<leftarrow> (if e = CHR ''='' then rd buf (q + 1) else Some NUL);
           if e = CHR ''='' \<and> f \<noteq> NUL then
             do {
               v \<leftarrow> str_at buf (q + 1);
               let w = takeWhile (\<lambda>c. c \<noteq> CHR '';'' \<and> c \<noteq> CHR '','') v in
               do {
                 (r, m1) \<leftarrow> add_cookie m result (unquote w);
                 nx \<leftarrow> strstr_at buf (q + 1 + length w + 1) name;
                 cookie_loop m1 buf name (Some r) nx
               }
             }
           else do { nx \<leftarrow> strstr_at buf (q + 1) name; cookie_loop m buf name result nx }
         }
       else do { nx \<leftarrow> strstr_at buf (k + 1) name; cookie_loop m buf name result nx }
     }"
  by pat_completeness auto
termination
proof (relation "measure (\<lambda>(m, buf, name, result, k). case k of None \<Rightarrow> 0 | Some k \<Rightarrow> Suc (length buf - k))", goal_cases)
  case (2 m buf name result k here q e f v w y r m1 nx)
  then have "k \<le> q" "q < length buf" using skip_space_ge [of buf "k + length name" q] by simp_all
  then show ?case using 2 strstr_at_bound [of buf "q + 1 + length w + 1" name] by (cases nx) fastforce+
next
  case (3 m buf name result k here q e f nx)
  then have "k \<le> q" "q < length buf" using skip_space_ge [of buf "k + length name" q] by simp_all
  then show ?case using 3 strstr_at_bound [of buf "q + 1" name] by (cases nx) fastforce+
next
  case (4 m buf name result k here nx)
  have "strstr_at buf (k + 1) name = Some nx" using 4 by simp
  moreover have "k < length buf" using 4 str_at_in [of buf "k + 1"] by (fastforce simp: strstr_at_def ub_simps)
  ultimately show ?case using strstr_at_bound [of buf "k + 1" name] by (cases nx) fastforce+
qed simp

fun cookie_headers :: "mem \<Rightarrow> (string \<times> string) list \<Rightarrow> string \<Rightarrow> string option \<Rightarrow> (string option \<times> mem) ub" where
  "cookie_headers m [] name result = Some (result, m)"
| "cookie_headers m ((hn, hv) # hs) name result =
     (if map tolower hn = ''cookie'' then
        do {
          k \<leftarrow> strstr_at hv 0 name;
          (r, m1) \<leftarrow> cookie_loop m hv name result k;
          cookie_headers m1 hs name r
        }
      else cookie_headers m hs name result)"

definition get_cookie :: "jk_ws_service \<Rightarrow> string \<Rightarrow> (string option \<times> jk_ws_service) ub" where
  "get_cookie s name =
     do { (r, m) \<leftarrow> cookie_headers (sv_pool s) (sv_headers s) name None; Some (r, s\<lparr>sv_pool := m\<rparr>) }"

definition get_sessionid :: "jk_ws_service \<Rightarrow> lb_worker \<Rightarrow> (string option \<times> jk_ws_service) ub" where
  "get_sessionid s p =
     (case sv_route s of
        Some route \<Rightarrow>
          do { (r, m) \<leftarrow> jk_pool_alloc (sv_pool s) (of_nat (length route + 1 + 1)); _ \<leftarrow> r;
               Some (Some (CHR ''.'' # route), s\<lparr>sv_pool := m\<rparr>) }
      | None \<Rightarrow>
          do {
            (v, m) \<leftarrow> get_path_param (sv_pool s) (sv_req_uri s)
                        (case sv_ext_session_path s of Some n \<Rightarrow> n | None \<Rightarrow> lb_session_path p);
            let s1 = s\<lparr>sv_pool := m\<rparr> in
            do {
              (v2, s2) \<leftarrow> (if v = None
                           then get_cookie s1 (case sv_ext_session_cookie s of Some n \<Rightarrow> n | None \<Rightarrow> lb_session_cookie p)
                           else Some (v, s1));
              Some (if v2 = Some [] then None else v2, s2)
            }
          })"

section \<open>One attempt\<close>

abbreviation (input) JK_CLIENT_ERROR :: int where
  "JK_CLIENT_ERROR \<equiv> - 4"

abbreviation (input) JK_SERVER_ERROR :: int where
  "JK_SERVER_ERROR \<equiv> - 5"

abbreviation (input) JK_STATUS_ERROR :: int where
  "JK_STATUS_ERROR \<equiv> - 8"

abbreviation (input) JK_STATUS_FATAL_ERROR :: int where
  "JK_STATUS_FATAL_ERROR \<equiv> - 9"

abbreviation (input) JK_REPLY_TIMEOUT :: int where
  "JK_REPLY_TIMEOUT \<equiv> - 10"

abbreviation (input) JK_BUSY_ERROR :: int where
  "JK_BUSY_ERROR \<equiv> - 12"

abbreviation (input) JK_HTTP_OK :: int where
  "JK_HTTP_OK \<equiv> 200"

abbreviation (input) JK_HTTP_SERVER_ERROR :: int where
  "JK_HTTP_SERVER_ERROR \<equiv> 500"

abbreviation (input) JK_HTTP_SERVER_BUSY :: int where
  "JK_HTTP_SERVER_BUSY \<equiv> 503"

abbreviation (input) RECO_INITED :: int where
  "RECO_INITED \<equiv> 1"

text \<open>What \<open>end->service\<close> reports.\<close>

record service_result =
  sr_stat :: int
  sr_is_error :: int
  sr_rd :: u64
  sr_wr :: u64
  sr_recoverable :: bool

text \<open>The environment; the first argument of its functions is the number of the round.\<close>

record lb_env =
  ev_serve :: "nat \<Rightarrow> nat \<Rightarrow> ajp_worker \<times> world \<times> jk_ws_service \<Rightarrow> (service_result \<times> ajp_worker \<times> world \<times> jk_ws_service) ub"
  ev_others :: "nat \<Rightarrow> nat \<Rightarrow> ajp_endpoint option list \<times> jk_shm_ajp_worker \<times> world \<Rightarrow> ajp_endpoint option list \<times> jk_shm_ajp_worker \<times> world"
  ev_sleep :: "nat \<Rightarrow> lb_state \<Rightarrow> lb_state"
  ev_now :: "nat \<Rightarrow> int"
  ev_lock :: "nat \<Rightarrow> bool"
  ev_resolves :: "string \<Rightarrow> int \<Rightarrow> bool"
  ev_junk :: "nat \<Rightarrow> u8 list"

text \<open>The \<open>Set-Cookie\<close> header. The new arrays have room for one more header; if they cannot be allocated, the
  header is written behind the old ones. A null first argument ends the list of strings to join.\<close>

definition strcatv_from :: "mem \<Rightarrow> string option \<Rightarrow> string list \<Rightarrow> (string option \<times> mem) ub" where
  "strcatv_from m first rest = jk_pool_strcatv m (case first of None \<Rightarrow> [] | Some x \<Rightarrow> x # rest)"

definition add_session_cookie :: "jk_ws_service \<Rightarrow> lb_worker \<Rightarrow> lb_sub_worker \<Rightarrow> jk_ws_service ub" where
  "add_session_cookie s p w =
     (let sz = of_nat ((length (sv_resp_headers s) + 1) * 8) in
      do {
        (names, m1) \<leftarrow> jk_pool_alloc (sv_pool s) sz;
        (vals, m2) \<leftarrow> jk_pool_alloc m1 sz;
        guard (names \<noteq> None \<and> vals \<noteq> None);
        (v1, m3) \<leftarrow> jk_pool_strcatv m2 [lb_session_cookie p, ''=.'', sw_route w];
        (v2, m4) \<leftarrow> (if lb_session_cookie_path p \<noteq> [] then strcatv_from m3 v1 ['';PATH='', lb_session_cookie_path p] else Some (v1, m3));
        (v3, m5) \<leftarrow> strcatv_from m4 v2 ['';HttpOnly'', if sv_is_ssl s then '';Secure'' else []];
        Some (s\<lparr>sv_pool := m5, sv_resp_headers := sv_resp_headers s @ [(''Set-Cookie'', v3)]\<rparr>)
      })"

text \<open>The load after the request.\<close>

definition charge_done :: "int \<Rightarrow> service_result \<Rightarrow> lb_sub_worker \<Rightarrow> lb_sub_worker" where
  "charge_done lbmethod res w =
     (if lbmethod = JK_LB_METHOD_TRAFFIC
      then on_s (\<lambda>s. s\<lparr>ss_lb_value := ss_lb_value s + (sr_rd res + sr_wr res) * sw_lb_mult w\<rparr>) w
      else if lbmethod = JK_LB_METHOD_BUSYNESS
      then on_s (\<lambda>s. s\<lparr>ss_lb_value := (if ss_lb_value s \<ge> sw_lb_mult w then ss_lb_value s - sw_lb_mult w else 0)\<rparr>) w
      else w)"

definition set_state :: "int \<Rightarrow> lb_sub_worker \<Rightarrow> lb_sub_worker" where
  "set_state x = on_s (\<lambda>s. s\<lparr>ss_state := x\<rparr>)"

definition no_error :: "lb_sub_worker \<Rightarrow> lb_sub_worker" where
  "no_error = on_s (\<lambda>s. s\<lparr>ss_state := JK_LB_STATE_OK, ss_first_error_time := 0, ss_last_error_time := 0\<rparr>)"

definition hard_error :: "int \<Rightarrow> lb_sub_worker \<Rightarrow> lb_sub_worker" where
  "hard_error now =
     on_s (\<lambda>s. s\<lparr>ss_errors := ss_errors s + 1, ss_state := JK_LB_STATE_ERROR, ss_first_error_time := now, ss_last_error_time := now\<rparr>)"

definition soft_error :: "lb_worker \<Rightarrow> int \<Rightarrow> lb_sub_worker \<Rightarrow> lb_sub_worker" where
  "soft_error p now w =
     on_s (\<lambda>s. s\<lparr>ss_errors := ss_errors s + 1,
                 ss_state := (if sa_busy (aw_s (sw_aw w)) = 0 \<or> lb_error_escalation_time p = 0 \<or>
                                 ss_first_error_time s > 0 \<and> now - ss_first_error_time s \<ge> lb_error_escalation_time p
                              then JK_LB_STATE_ERROR else ss_state s),
                 ss_first_error_time := (if ss_first_error_time s = 0 then now else ss_first_error_time s),
                 ss_last_error_time := now\<rparr>) w"

text \<open>The member, its state for this request, the result and whether the error is recoverable.\<close>

definition after_service :: "lb_worker \<Rightarrow> int \<Rightarrow> service_result \<Rightarrow> lb_sub_worker \<Rightarrow> lb_sub_worker \<times> int \<times> int \<times> bool" where
  "after_service p now res w0 =
     (let w = (if sw_state w0 \<noteq> JK_LB_STATE_ERROR then set_state JK_LB_STATE_OK w0 else w0);
          stat = sr_stat res; again = sr_recoverable res
      in
      if stat = 1 then (no_error w, JK_LB_STATE_OK, 1, False)
      else if stat = JK_CLIENT_ERROR then (no_error w, JK_LB_STATE_ERROR, JK_CLIENT_ERROR, False)
      else if stat = JK_SERVER_ERROR then (w, JK_LB_STATE_ERROR, 0, again)
      else if stat = JK_AJP_PROTOCOL_ERROR then (w, JK_LB_STATE_ERROR, 0, again)
      else if stat = JK_STATUS_ERROR then (no_error w, JK_LB_STATE_ERROR, 0, again)
      else if stat = JK_BUSY_ERROR then (set_state JK_LB_STATE_BUSY w, JK_LB_STATE_BUSY, 0, again)
      else if stat = JK_STATUS_FATAL_ERROR then (hard_error now w, JK_LB_STATE_ERROR, 0, again)
      else if stat = JK_REPLY_TIMEOUT then
        (if sa_reply_timeouts (aw_s (sw_aw w)) > word_of_int (lb_max_reply_timeouts p) then hard_error now w else w,
         JK_LB_STATE_ERROR, 0, again)
      else (soft_error p now w, JK_LB_STATE_ERROR, 0, again))"

text \<open>The state of a request in progress.\<close>

record lb_run =
  ru_p :: lb_worker
  ru_wd :: world
  ru_s :: jk_ws_service
  ru_states :: "int list"
  ru_sid :: "string option"
  ru_attempt :: int
  ru_retry :: int
  ru_forced :: bool
  ru_rc :: int
  ru_is_error :: int
  ru_recoverable :: bool
  ru_t :: nat

definition put_member :: "lb_run \<Rightarrow> nat \<Rightarrow> lb_sub_worker \<Rightarrow> lb_run" where
  "put_member r i w = r\<lparr>ru_p := (ru_p r)\<lparr>lb_workers := (lb_workers (ru_p r))[i := w]\<rparr>\<rparr>"

definition inc_busy :: "jk_shm_lb_worker \<Rightarrow> jk_shm_lb_worker" where
  "inc_busy s =
     s\<lparr>sl_busy := sl_busy s + 1, sl_max_busy := (if sl_busy s + 1 > sl_max_busy s then sl_busy s + 1 else sl_max_busy s)\<rparr>"

definition dec_busy :: "jk_shm_lb_worker \<Rightarrow> jk_shm_lb_worker" where
  "dec_busy s = s\<lparr>sl_busy := JK_ATOMIC_DECREMENT (sl_busy s)\<rparr>"

definition on_lb_s :: "(jk_shm_lb_worker \<Rightarrow> jk_shm_lb_worker) \<Rightarrow> lb_run \<Rightarrow> lb_run" where
  "on_lb_s f r = r\<lparr>ru_p := (ru_p r)\<lparr>lb_s := f (lb_s (ru_p r))\<rparr>\<rparr>"

text \<open>The request on the endpoint in \<open>slot\<close> of member \<open>i\<close>.\<close>

definition serve_slot :: "lb_env \<Rightarrow> lb_run \<Rightarrow> nat \<Rightarrow> lb_sub_worker \<Rightarrow> nat \<Rightarrow> lb_run ub" where
  "serve_slot ev r0 i w0 slot =
     (let r = on_lb_s inc_busy r0; p = ru_p r; t = ru_t r;
          w = charge_request (lb_lbmethod p) (ru_sid r \<noteq> None) (sv_ext_stateless (ru_s r)) w0
      in
      do {
        s2 \<leftarrow> (if \<not> sv_sticky (ru_s r) \<and> (sv_ext_set_session_cookie (ru_s r) \<or> lb_set_session_cookie p)
               then add_session_cookie (ru_s r) p w else Some (ru_s r));
        (res, aw2, wd2, s3) \<leftarrow> ev_serve ev t slot (sw_aw w, ru_wd r, s2);
        (aw3, wd3) \<leftarrow> ajp_done (aw2, wd2) slot (ev_now ev t);
        let (w', local, rc, again) = after_service p (ev_now ev t) res (charge_done (lb_lbmethod p) res (w\<lparr>sw_aw := aw3\<rparr>)) in
        do {
          states' \<leftarrow> wr (ru_states r) (sw_i w) local;
          Some (on_lb_s dec_busy (put_member (r\<lparr>ru_wd := wd3, ru_s := s3, ru_states := states', ru_rc := rc,
                  ru_is_error := sr_is_error res, ru_recoverable := again\<rparr>) i w'))
        }
      })"

definition run_worker :: "lb_env \<Rightarrow> lb_run \<Rightarrow> nat \<Rightarrow> lb_run ub" where
  "run_worker ev r i =
     do {
       w \<leftarrow> rd (lb_workers (ru_p r)) i;
       a \<leftarrow> activation_of (ru_s r) (ru_p r) i;
       txt \<leftarrow> jk_lb_get_activation_direct a;
       let s1 = (ru_s r)\<lparr>sv_route := (case sv_route (ru_s r) of None \<Rightarrow> Some (sw_route w) | Some x \<Rightarrow> Some x), sv_activation := txt\<rparr>;
           probe = (sw_state w = JK_LB_STATE_RECOVER);
           w1 = (if probe then set_state JK_LB_STATE_PROBE w else w)
       in
       do {
         states1 \<leftarrow> (if probe then wr (ru_states r) (sw_i w) JK_LB_STATE_PROBE else Some (ru_states r));
         (ep, aw2, wd2) \<leftarrow> ajp_get_endpoint (ev_others ev (ru_t r)) (ev_now ev (ru_t r)) (sw_aw w1, ru_wd r);
         let w2 = w1\<lparr>sw_aw := aw2\<rparr>; r2 = r\<lparr>ru_s := s1, ru_wd := wd2, ru_states := states1\<rparr> in
         (case ep of
            Some slot \<Rightarrow> serve_slot ev r2 i w2 slot
          | None \<Rightarrow>
              if sw_state w2 \<noteq> JK_LB_STATE_ERROR then
                do {
                  states2 \<leftarrow> wr states1 (sw_i w) JK_LB_STATE_BUSY;
                  Some (put_member (r2\<lparr>ru_states := states2\<rparr>) i (set_state JK_LB_STATE_BUSY w2))
                }
              else Some (put_member r2 i w2))
       }
     }"

section \<open>The service\<close>

text \<open>Before an attempt: when the members or the allowed attempts are used up, another round begins after a
  sleep, or the loop ends.\<close>

definition pause :: "lb_env \<Rightarrow> nat \<Rightarrow> lb_run \<Rightarrow> (bool \<times> lb_run) ub" where
  "pause ev n r =
     (if ru_attempt r \<ge> int n \<or> ru_attempt r \<ge> lb_lb_retries (ru_p r) then
        let r1 = r\<lparr>ru_retry := ru_retry r + 1\<rparr> in
        if ru_retry r1 \<ge> lb_retries_num (ru_p r) then Some (False, r1)
        else
          let st = ev_sleep ev (ru_t r) (ru_p r, ru_wd r) in
          do {
            (p, wd) \<leftarrow> (if lb_sequence (fst st) < sl_sequence (lb_s (fst st)) then jk_lb_pull (ev_resolves ev) st else Some st);
            guard (num_of_workers p = n);
            Some (True, r1\<lparr>ru_p := p, ru_wd := wd, ru_states := map sw_state (lb_workers p), ru_attempt := 0\<rparr>)
          }
      else Some (True, r))"

text \<open>No member is left: recovery is forced once, and then the attempt is not counted.\<close>

definition no_worker :: "lb_run \<Rightarrow> lb_run ub" where
  "no_worker r =
     (let give_up = r\<lparr>ru_is_error := JK_HTTP_SERVER_BUSY, ru_rc := 0, ru_attempt := ru_attempt r + 1\<rparr> in
      if \<not> ru_forced r then
        do {
          (nf, p, states) \<leftarrow> force_recovery (ru_p r) (Some (ru_states r));
          if nf \<noteq> 0 then Some (r\<lparr>ru_p := p, ru_states := (case states of Some x \<Rightarrow> x | None \<Rightarrow> ru_states r), ru_forced := True\<rparr>)
          else Some (give_up\<lparr>ru_p := p, ru_forced := True\<rparr>)
        }
      else Some give_up)"

definition attempt_once :: "lb_env \<Rightarrow> lb_run \<Rightarrow> lb_run ub" where
  "attempt_once ev r0 =
     (let r = r0\<lparr>ru_rc := 0, ru_is_error := JK_HTTP_SERVER_BUSY\<rparr> in
      do {
        (i, sid, s, p) \<leftarrow> get_most_suitable_worker (ev_lock ev (ru_t r)) (ru_s r) (ru_p r) (ru_sid r) (ru_states r);
        let r1 = r\<lparr>ru_s := s, ru_p := p, ru_sid := sid, ru_t := ru_t r + 1\<rparr> in
        (case i of
           Some k \<Rightarrow> do { r2 \<leftarrow> run_worker ev r1 k; Some (r2\<lparr>ru_attempt := ru_attempt r2 + 1\<rparr>) }
         | None \<Rightarrow> no_worker r1)
      })"

partial_function (option) service_loop :: "lb_env \<Rightarrow> nat \<Rightarrow> lb_run \<Rightarrow> (lb_run ub) option" where
  "service_loop ev n r =
     (if \<not> ru_recoverable r then Some (Some r)
      else
        (case pause ev n r of
           None \<Rightarrow> Some None
         | Some (go, r1) \<Rightarrow>
             if \<not> go then Some (Some r1)
             else
               (case attempt_once ev r1 of
                  None \<Rightarrow> Some None
                | Some r2 \<Rightarrow> service_loop ev n r2)))"

text \<open>At the start, members that were busy and have room again are available.\<close>

definition end_busy :: "lb_sub_worker \<Rightarrow> lb_sub_worker ub" where
  "end_busy w =
     (if sw_state w = JK_LB_STATE_BUSY then
        do {
          free \<leftarrow> (if aw_busy_limit (sw_aw w) \<le> 0 \<or> sa_busy (aw_s (sw_aw w)) < aw_busy_limit (sw_aw w)
                    then ajp_has_endpoint (sw_aw w) else Some False);
          Some (if free then set_state JK_LB_STATE_OK w else w)
        }
      else Some w)"

fun end_busy_all :: "lb_sub_worker list \<Rightarrow> lb_sub_worker list ub" where
  "end_busy_all [] = Some []"
| "end_busy_all (w # ws) = do { w' \<leftarrow> end_busy w; ws' \<leftarrow> end_busy_all ws; Some (w' # ws') }"

text \<open>The buffer that keeps the request body for another attempt.\<close>

definition new_reco_buf :: "lb_env \<Rightarrow> lb_worker \<Rightarrow> jk_ws_service \<Rightarrow> (bool \<times> jk_ws_service) ub" where
  "new_reco_buf ev p s =
     do {
       (b, m1) \<leftarrow> jk_b_new (sv_pool s);
       (case b of
          None \<Rightarrow> Some (False, s\<lparr>sv_pool := m1, sv_reco_buf := None\<rparr>)
        | Some msg \<Rightarrow>
            do {
              (rc, msg1, m2) \<leftarrow> jk_b_set_buffer_size (ev_junk ev) m1 msg (uint (lb_max_packet_size p));
              if rc \<noteq> 0 then Some (False, s\<lparr>sv_pool := m2, sv_reco_buf := Some msg1\<rparr>)
              else Some (True, s\<lparr>sv_pool := m2, sv_reco_buf := Some (jk_b_reset msg1), sv_reco_status := RECO_INITED\<rparr>)
            })
     }"

definition service_start :: "lb_env \<Rightarrow> lb_state \<Rightarrow> jk_ws_service \<Rightarrow> (bool \<times> lb_run) ub" where
  "service_start ev st s =
     do {
       (p, wd) \<leftarrow> (if lb_sequence (fst st) < sl_sequence (lb_s (fst st)) then jk_lb_pull (ev_resolves ev) st else Some st);
       ws \<leftarrow> end_busy_all (lb_workers p);
       let p1 = p\<lparr>lb_workers := ws\<rparr> in
       do {
         (ok, s1) \<leftarrow> new_reco_buf ev p1 s;
         let r = \<lparr>ru_p = p1, ru_wd = wd, ru_s = s1, ru_states = map sw_state ws, ru_sid = None, ru_attempt = 0, ru_retry = 0,
                  ru_forced = False, ru_rc = - 1, ru_is_error = JK_HTTP_OK, ru_recoverable = True, ru_t = 0\<rparr> in
         if \<not> ok then Some (False, r\<lparr>ru_rc := JK_SERVER_ERROR, ru_is_error := JK_HTTP_SERVER_ERROR\<rparr>)
         else if lb_sticky_session p1 \<and> \<not> sv_ext_sticky_ignore s1 then
           do { (sid, s2) \<leftarrow> get_sessionid s1 p1; Some (True, r\<lparr>ru_s := s2, ru_sid := sid\<rparr>) }
         else Some (True, r)
       }
     }"

text \<open>\<open>ru_rc\<close> of the result is what \<open>service\<close> returns, \<open>ru_is_error\<close> the status it reports.\<close>

definition service :: "lb_env \<Rightarrow> lb_state \<Rightarrow> jk_ws_service \<Rightarrow> (lb_run ub) option" where
  "service ev st s =
     (case service_start ev st s of
        None \<Rightarrow> Some None
      | Some (ok, r) \<Rightarrow> if ok then service_loop ev (num_of_workers (fst st)) r else Some (Some r))"

section \<open>Choices are usable\<close>

lemma usable_sticky_at_cong:
  "sv_ext_activation s' = sv_ext_activation s \<Longrightarrow> usable_sticky_at s' p states i = usable_sticky_at s p states i"
  by (simp add: usable_sticky_at_def activation_of_def)

lemma replace_sticky_service: "replace_sticky s p states d c w = Some (r, s') \<Longrightarrow> sv_ext_activation s' = sv_ext_activation s"
  by (auto simp: replace_sticky_def ub_simps split: if_splits)

text \<open>The second half of the search, behind the first candidate.\<close>

lemma bysession_check:
  assumes "(do { u \<leftarrow> usable_sticky_at s p states k;
                if u then Some (Some k, s)
                else do {
                  (candidate2, s3) \<leftarrow> replace_sticky s p states d k w;
                  (case candidate2 of
                     None \<Rightarrow> Some (None, s3)
                   | Some c2 \<Rightarrow> do { u2 \<leftarrow> usable_sticky_at s3 p states c2; Some (if u2 then Some c2 else None, s3) })
                } }) = Some (c, s')"
  shows "sv_ext_activation s' = sv_ext_activation s \<and> (\<forall>i. c = Some i \<longrightarrow> usable_sticky_at s p states i = Some True)"
proof -
  obtain x where x: "usable_sticky_at s p states k = Some x" using assms by (cases "usable_sticky_at s p states k") auto
  show ?thesis
  proof (cases x)
    case True
    then show ?thesis using assms x by auto
  next
    case False
    then obtain c2 s3 where r: "replace_sticky s p states d k w = Some (c2, s3)"
      and f: "(case c2 of None \<Rightarrow> Some (None, s3)
               | Some c2 \<Rightarrow> do { u2 \<leftarrow> usable_sticky_at s3 p states c2; Some (if u2 then Some c2 else None, s3) }) = Some (c, s')"
      using assms x by (auto simp: ub_simps)
    show ?thesis using f replace_sticky_service [OF r] usable_sticky_at_cong [OF replace_sticky_service [OF r]]
      by (cases c2) (auto simp: ub_simps split: if_splits)
  qed
qed

lemma bysession_usable:
  assumes "find_bysession_route s p r states = Some (c, s')"
  shows "sv_ext_activation s' = sv_ext_activation s \<and> (\<forall>i. c = Some i \<longrightarrow> usable_sticky_at s p states i = Some True)"
proof -
  obtain c1 d s1 where a: "(case find_by_session p r of
            Some c \<Rightarrow> Some (Some c, False, s\<lparr>sv_sticky := True\<rparr>)
          | None \<Rightarrow> do { c \<leftarrow> find_best_bydomain s p r states; Some (c, True, s) }) = Some (c1, d, s1)"
    and b: "(case c1 of
          None \<Rightarrow> Some (None, s1)
        | Some c \<Rightarrow>
            do {
              wk \<leftarrow> rd (lb_workers p) c;
              let s2 = (if d then s1\<lparr>sv_route := Some (sw_domain wk)\<rparr> else s1) in
              do {
                u \<leftarrow> usable_sticky_at s2 p states c;
                if u then Some (Some c, s2)
                else do {
                  (candidate2, s3) \<leftarrow> replace_sticky s2 p states d c wk;
                  (case candidate2 of
                     None \<Rightarrow> Some (None, s3)
                   | Some c2 \<Rightarrow> do { u2 \<leftarrow> usable_sticky_at s3 p states c2; Some (if u2 then Some c2 else None, s3) })
                }
              }
            }) = Some (c, s')"
    using assms unfolding find_bysession_route_def by (auto simp: ub_simps)
  have s1: "sv_ext_activation s1 = sv_ext_activation s" using a by (auto simp: ub_simps split: option.splits)
  show ?thesis
  proof (cases c1)
    case None
    then show ?thesis using b s1 by auto
  next
    case (Some k)
    let ?s2 = "if d then s1\<lparr>sv_route := Some (sw_domain (lb_workers p ! k))\<rparr> else s1"
    have s2: "sv_ext_activation ?s2 = sv_ext_activation s" using s1 by simp
    have "k < num_of_workers p" using b Some by (cases "k < num_of_workers p") auto
    then have "sv_ext_activation s' = sv_ext_activation ?s2 \<and> (\<forall>i. c = Some i \<longrightarrow> usable_sticky_at ?s2 p states i = Some True)"
      using b Some bysession_check [of ?s2 p states k d "lb_workers p ! k" c s'] by (simp add: Let_def)
    then show ?thesis using s2 usable_sticky_at_cong [OF s2] by simp
  qed
qed

lemma session_loop_usable:
  "session_loop s p states sid = Some (c, s') \<Longrightarrow>
   sv_ext_activation s' = sv_ext_activation s \<and> (\<forall>i. c = Some i \<longrightarrow> usable_sticky_at s p states i = Some True)"
proof (induction s p states sid arbitrary: c s' rule: session_loop.induct)
  case (1 s p states sid)
  obtain rc s1 where a: "(case session_route (session_part sid) of None \<Rightarrow> Some (None, s)
        | Some route \<Rightarrow> find_bysession_route s p route states) = Some (rc, s1)"
      "(if rc \<noteq> None then Some (rc, s1)
        else (case session_next sid of None \<Rightarrow> Some (None, s1) | Some r \<Rightarrow> session_loop s1 p states r)) = Some (c, s')"
    using "1.prems" by (subst (asm) session_loop.simps) (auto simp: ub_simps)
  have s1: "sv_ext_activation s1 = sv_ext_activation s" "\<forall>i. rc = Some i \<longrightarrow> usable_sticky_at s p states i = Some True"
    using a(1) bysession_usable by (auto split: option.splits)
  show ?case
  proof (cases "rc \<noteq> None \<or> session_next sid = None")
    case True
    then show ?thesis using a(2) s1 by (auto split: if_splits)
  next
    case False
    then obtain r where r: "rc = None" "session_next sid = Some r" by auto
    then have "session_loop s1 p states r = Some (c, s')" using a(2) by simp
    from "1.IH" [OF a(1) refl _ r(2) this] r(1) show ?thesis using s1(1) usable_sticky_at_cong [OF s1(1)] by simp
  qed
qed

text \<open>The choice of a worker writes nothing of the balancer but the offset of the next search.\<close>

definition same_lb :: "lb_worker \<Rightarrow> lb_worker \<Rightarrow> bool" where
  "same_lb p p' \<longleftrightarrow> (\<exists>n. p' = p\<lparr>lb_next_offset := n\<rparr>)"

lemma same_lb_refl [simp, intro]: "same_lb p p"
  unfolding same_lb_def by (rule exI [of _ "lb_next_offset p"]) simp

lemma byvalue_same: "find_best_byvalue s p states = Some (r, p') \<Longrightarrow> same_lb p p'"
  by (auto simp: find_best_byvalue_def same_lb_def ub_simps)

lemma offset_irrelevant [simp]:
  "usable_sticky_at s (p\<lparr>lb_next_offset := n\<rparr>) states i = usable_sticky_at s p states i"
  "act s (p\<lparr>lb_next_offset := n\<rparr>) i = act s p i" "lb_wf s (p\<lparr>lb_next_offset := n\<rparr>) states = lb_wf s p states"
  by (simp_all add: usable_sticky_at_def activation_of_def act_def lb_wf_def Let_def)

definition may_serve :: "jk_ws_service \<Rightarrow> lb_worker \<Rightarrow> int list \<Rightarrow> nat option \<Rightarrow> bool" where
  "may_serve s p states c \<longleftrightarrow>
     (case c of None \<Rightarrow> True | Some i \<Rightarrow> i < num_of_workers p \<and> JK_WORKER_USABLE_STICKY (states ! i) (act s p i))"

lemma sticky_may_serve:
  assumes "lb_wf s p states" and "\<forall>i. c = Some i \<longrightarrow> usable_sticky_at s p states i = Some True"
  shows "may_serve s p states c"
proof (cases c)
  case (Some i)
  then have u: "usable_sticky_at s p states i = Some True" using assms(2) by simp
  then have "i < num_of_workers p" by (cases "i < num_of_workers p") (simp_all add: usable_sticky_at_def)
  then show ?thesis using u usable_sticky_at_wf [OF assms(1)] Some by (simp add: may_serve_def)
qed (simp add: may_serve_def)

lemma find_best_worker_ok:
  assumes "find_best_worker s p states = Some (c, s', p')" and "lb_wf s p states"
  shows "same_lb p p' \<and> sv_ext_activation s' = sv_ext_activation s \<and> may_serve s p states c"
proof -
  obtain r where r: "find_best_byvalue s p states = Some (r, p\<lparr>lb_next_offset := (case r of None \<Rightarrow> lb_next_offset p | Some i \<Rightarrow> i + 1)\<rparr>)"
      "case r of
         None \<Rightarrow> \<forall>k < num_of_workers p. \<not> eligible s p states k
       | Some i \<Rightarrow> i < num_of_workers p \<and> eligible s p states i \<and>
           (\<forall>k < num_of_workers p. eligible s p states k \<longrightarrow> no_worse (\<not> sv_ext_stateless s) p i k)"
    using byvalue_spec [OF assms(2)] by blast
  show ?thesis
  proof (cases r)
    case (Some i)
    then have "c = Some i" "s' = s" "same_lb p p'" using assms(1) r(1) by (auto simp: find_best_worker_def same_lb_def)
    then show ?thesis using r(2) Some by (simp add: may_serve_def eligible_def JK_WORKER_USABLE_def JK_WORKER_USABLE_STICKY_def)
  next
    case None
    let ?p = "p\<lparr>lb_next_offset := lb_next_offset p\<rparr>"
    have f: "find_failover_worker s p states = Some (c, s')" "p' = p" using assms(1) r(1) None
      by (auto simp: find_best_worker_def ub_simps)
    show ?thesis
    proof (cases "first_redirect (lb_workers p)")
      case None
      then show ?thesis using f by (auto simp: find_failover_worker_def may_serve_def)
    next
      case (Some x)
      then obtain s1 where "find_bysession_route s p x states = Some (c, s1)" "s' = s1\<lparr>sv_sticky := False\<rparr>"
        using f(1) by (auto simp: find_failover_worker_def ub_simps)
      then show ?thesis using bysession_usable [of s p x states c s1] sticky_may_serve [OF assms(2), of c] f(2) by auto
    qed
  qed
qed

lemma suitable_ok:
  assumes "get_most_suitable_worker lock_ok s p sid states = Some (c, sid', s', p')" and "lb_wf s p states"
  shows "same_lb p p' \<and> sv_ext_activation s' = sv_ext_activation s \<and> may_serve s p states c \<and> (sid = None \<longrightarrow> sid' = None)"
proof -
  let ?s = "s\<lparr>sv_sticky := False\<rparr>"
  have w: "lb_wf ?s p states" "may_serve ?s p states x = may_serve s p states x" for x
    using assms(2) by (simp_all add: may_serve_def split: option.split)
  define rest where "rest =
            (if lb_lblock p = JK_LB_LOCK_PESSIMISTIC \<and> \<not> lock_ok then Some (None, sid, ?s, p)
             else
               (case sid of
                  None \<Rightarrow> do { (rc, s1, p1) \<leftarrow> find_best_worker ?s p states; Some (rc, None, s1, p1) }
                | Some x \<Rightarrow>
                    do {
                      (rc, s1) \<leftarrow> session_loop ?s p states x;
                      let sid' = Some (session_part x) in
                      if rc \<noteq> None then Some (rc, sid', s1, p)
                      else if lb_sticky_session_force p then Some (None, sid', s1, p)
                      else do { (rc2, s2, p2) \<leftarrow> find_best_worker s1 p states; Some (rc2, sid', s2, p2) }
                    }))"
  have eq: "get_most_suitable_worker lock_ok s p sid states =
     (if num_of_workers p = 1 then
        do {
          a \<leftarrow> activation_of ?s p 0;
          st \<leftarrow> rd states 0;
          if JK_WORKER_USABLE_STICKY st a then
            if a \<noteq> JK_LB_ACTIVATION_DISABLED then Some (Some 0, sid, ?s\<lparr>sv_sticky := True\<rparr>, p) else rest
          else Some (None, sid, ?s, p)
        }
      else rest)"
    unfolding get_most_suitable_worker_def Let_def rest_def by (rule refl)
  have rest: "same_lb p p' \<and> sv_ext_activation s' = sv_ext_activation s \<and> may_serve s p states c \<and> (sid = None \<longrightarrow> sid' = None)"
    if r: "rest = Some (c, sid', s', p')"
  proof (cases "lb_lblock p = JK_LB_LOCK_PESSIMISTIC \<and> \<not> lock_ok")
    case True
    then show ?thesis using r by (auto simp: rest_def may_serve_def)
  next
    case lock: False
    show ?thesis
    proof (cases sid)
      case None
      then have "find_best_worker ?s p states = Some (c, s', p')" "sid' = None"
        using r lock unfolding rest_def by (auto simp: ub_simps)
      then show ?thesis using find_best_worker_ok [of ?s p states c s' p'] w by simp
    next
      case (Some x)
      obtain rc s1 where l: "session_loop ?s p states x = Some (rc, s1)"
        and e: "(if rc \<noteq> None then Some (rc, Some (session_part x), s1, p)
             else if lb_sticky_session_force p then Some (None, Some (session_part x), s1, p)
             else do { (rc2, s2, p2) \<leftarrow> find_best_worker s1 p states; Some (rc2, Some (session_part x), s2, p2) }) = Some (c, sid', s', p')"
        using r lock Some unfolding rest_def by (auto simp: ub_simps Let_def)
      have s1: "sv_ext_activation s1 = sv_ext_activation s" "may_serve s p states rc"
        using session_loop_usable [OF l] sticky_may_serve [OF w(1), of rc] w(2) by simp_all
      have m: "lb_wf s1 p states" "may_serve s1 p states y = may_serve s p states y" for y
        using s1(1) assms(2) by (simp_all add: lb_wf_def may_serve_def act_def split: option.split)
      consider "rc \<noteq> None" | "rc = None" "lb_sticky_session_force p" | "rc = None" "\<not> lb_sticky_session_force p" by blast
      then show ?thesis
      proof cases
        case 1
        then show ?thesis using e s1 Some by auto
      next
        case 2
        then show ?thesis using e s1 Some by (auto simp: may_serve_def)
      next
        case 3
        then have "find_best_worker s1 p states = Some (c, s', p')" using e by (auto simp: ub_simps)
        from find_best_worker_ok [OF this m(1)] show ?thesis using s1 m(2) Some by simp
      qed
    qed
  qed
  show ?thesis
  proof (cases "num_of_workers p = 1")
    case False
    then have "rest = Some (c, sid', s', p')" using assms(1) eq by simp
    then show ?thesis by (rule rest)
  next
    case True
    have a: "activation_of ?s p 0 = Some (act s p 0)" "length states = 1"
      using activation_of_wf [OF w(1), of 0] True assms(2) by (simp_all add: lb_wf_def)
    show ?thesis
    proof (cases "JK_WORKER_USABLE_STICKY (states ! 0) (act s p 0) \<and> act s p 0 = JK_LB_ACTIVATION_DISABLED")
      case d: True
      then have d1: "act s p 0 = JK_LB_ACTIVATION_DISABLED" "JK_WORKER_USABLE_STICKY (states ! 0) JK_LB_ACTIVATION_DISABLED" by auto
      have "rest = Some (c, sid', s', p')" using assms(1) a True eq d1 by simp
      then show ?thesis by (rule rest)
    next
      case n: False
      then show ?thesis using assms(1) a True eq by (auto simp: may_serve_def split: if_splits)
    qed
  qed
qed

section \<open>The loop\<close>

text \<open>What an attempt keeps.\<close>

definition run_kept :: "lb_run \<Rightarrow> lb_run \<Rightarrow> bool" where
  "run_kept r r' \<longleftrightarrow> lb_retries_num (ru_p r') = lb_retries_num (ru_p r) \<and> sl_retries (lb_s (ru_p r')) = sl_retries (lb_s (ru_p r)) \<and>
     ru_retry r' = ru_retry r \<and> num_of_workers (ru_p r') = num_of_workers (ru_p r) \<and>
     (0 \<le> sl_busy (lb_s (ru_p r)) \<longrightarrow> sl_busy (lb_s (ru_p r')) = sl_busy (lb_s (ru_p r)))"

lemma serve_slot_kept:
  assumes "serve_slot ev r i w slot = Some r'"
  shows "run_kept r r' \<and> ru_attempt r' = ru_attempt r \<and> ru_forced r' = ru_forced r"
proof -
  obtain wd3 s3 states' rc ie again w' where "r' = on_lb_s dec_busy (put_member ((on_lb_s inc_busy r)\<lparr>ru_wd := wd3, ru_s := s3,
      ru_states := states', ru_rc := rc, ru_is_error := ie, ru_recoverable := again\<rparr>) i w')"
    using assms unfolding serve_slot_def Let_def by (auto simp: ub_simps case_prod_beta split del: if_split)
  then show ?thesis
    by (simp add: run_kept_def on_lb_s_def put_member_def inc_busy_def dec_busy_def JK_ATOMIC_DECREMENT_def)
qed

lemma run_worker_kept:
  assumes "run_worker ev r i = Some r'"
  shows "run_kept r r' \<and> ru_attempt r' = ru_attempt r \<and> ru_forced r' = ru_forced r"
proof -
  obtain w1 s1 states1 ep aw2 wd2 where e: "(case ep of
            Some slot \<Rightarrow> serve_slot ev (r\<lparr>ru_s := s1, ru_wd := wd2, ru_states := states1\<rparr>) i (w1\<lparr>sw_aw := aw2\<rparr>) slot
          | None \<Rightarrow>
              if sw_state (w1\<lparr>sw_aw := aw2\<rparr>) \<noteq> JK_LB_STATE_ERROR then
                do {
                  states2 \<leftarrow> wr states1 (sw_i (lb_workers (ru_p r) ! i)) JK_LB_STATE_BUSY;
                  Some (put_member (r\<lparr>ru_s := s1, ru_wd := wd2, ru_states := states1, ru_states := states2\<rparr>) i
                    (set_state JK_LB_STATE_BUSY (w1\<lparr>sw_aw := aw2\<rparr>)))
                }
              else Some (put_member (r\<lparr>ru_s := s1, ru_wd := wd2, ru_states := states1\<rparr>) i (w1\<lparr>sw_aw := aw2\<rparr>))) = Some r'"
    using assms unfolding run_worker_def Let_def by (auto simp: ub_simps)
  show ?thesis
  proof (cases ep)
    case (Some slot)
    then show ?thesis using e serve_slot_kept by (fastforce simp: run_kept_def)
  next
    case None
    then show ?thesis using e by (auto simp: run_kept_def put_member_def ub_simps split: if_splits)
  qed
qed

lemma no_worker_kept:
  assumes "no_worker r = Some r'"
  shows "run_kept r r' \<and> (ru_attempt r' = ru_attempt r + 1 \<and> (ru_forced r \<longrightarrow> ru_forced r') \<or> \<not> ru_forced r \<and> ru_forced r' \<and> ru_attempt r' = ru_attempt r)"
  using assms by (auto simp: no_worker_def force_recovery_def run_kept_def ub_simps Let_def split: if_splits)

text \<open>Without well-formedness the search keeps the balancer as well.\<close>

lemma find_best_worker_same: "find_best_worker s p states = Some (c, s', p') \<Longrightarrow> same_lb p p'"
  using byvalue_same by (fastforce simp: find_best_worker_def ub_simps split: if_splits)

lemma suitable_same: "get_most_suitable_worker lock_ok s p sid states = Some (c, sid', s', p') \<Longrightarrow> same_lb p p'"
  by (auto simp: get_most_suitable_worker_def Let_def ub_simps dest: find_best_worker_same split: if_splits option.splits)

lemma attempt_kept:
  assumes "attempt_once ev r = Some r'"
  shows "run_kept r r' \<and> (ru_attempt r' = ru_attempt r + 1 \<and> (ru_forced r \<longrightarrow> ru_forced r') \<or> \<not> ru_forced r \<and> ru_forced r' \<and> ru_attempt r' = ru_attempt r)"
proof -
  obtain i sid s p t where g: "get_most_suitable_worker (ev_lock ev (ru_t r)) (ru_s r) (ru_p r) (ru_sid r) (ru_states r) = Some (i, sid, s, p)"
    and e: "(case i of
           Some k \<Rightarrow> do { r2 \<leftarrow> run_worker ev (r\<lparr>ru_rc := 0, ru_is_error := JK_HTTP_SERVER_BUSY, ru_s := s, ru_p := p, ru_sid := sid, ru_t := t\<rparr>) k;
                          Some (r2\<lparr>ru_attempt := ru_attempt r2 + 1\<rparr>) }
         | None \<Rightarrow> no_worker (r\<lparr>ru_rc := 0, ru_is_error := JK_HTTP_SERVER_BUSY, ru_s := s, ru_p := p, ru_sid := sid, ru_t := t\<rparr>)) = Some r'"
    using assms by (auto simp: attempt_once_def Let_def ub_simps)
  obtain n where p: "p = (ru_p r)\<lparr>lb_next_offset := n\<rparr>" using suitable_same [OF g] by (auto simp: same_lb_def)
  show ?thesis
  proof (cases i)
    case None
    then show ?thesis using e no_worker_kept by (fastforce simp: run_kept_def p)
  next
    case (Some k)
    then show ?thesis using e by (auto simp: ub_simps dest!: run_worker_kept simp: run_kept_def p)
  qed
qed

lemma each_member_length: "each_member f ws wd = Some (ws', wd') \<Longrightarrow> length ws' = length ws"
  by (induction ws arbitrary: wd ws' wd') (auto simp: ub_simps)

lemma lb_pull_shape:
  assumes "jk_lb_pull resolves (p, wd) = Some (p', wd')"
  shows "lb_s p' = lb_s p \<and> num_of_workers p' = num_of_workers p \<and>
    (lb_retries_num p' = lb_retries_num p \<or> lb_retries_num p' = sl_retries (lb_s p))"
  using assms each_member_length by (auto simp: jk_lb_pull_def lb_pull_fields_def ub_simps Let_def split: if_splits)

text \<open>A bound on the configured retries, in the process and in shared memory.\<close>

definition bounded_retries :: "int \<Rightarrow> lb_worker \<Rightarrow> bool" where
  "bounded_retries R p \<longleftrightarrow> lb_retries_num p \<le> R \<and> sl_retries (lb_s p) \<le> R"

definition bounded_sleep :: "int \<Rightarrow> lb_env \<Rightarrow> bool" where
  "bounded_sleep R ev \<longleftrightarrow> (\<forall>t p wd. bounded_retries R p \<longrightarrow> bounded_retries R (fst (ev_sleep ev t (p, wd))))"

lemma pause_cases:
  assumes "pause ev n r = Some (go, r1)"
  obtains (finished) "\<not> go" "r1 = r\<lparr>ru_retry := ru_retry r + 1\<rparr>"
    | (first) "go" "r1 = r" "ru_attempt r < int n"
    | (again) p wd st where "go" "ru_retry r + 1 < lb_retries_num (ru_p r)" "st = ev_sleep ev (ru_t r) (ru_p r, ru_wd r)"
      "st = (p, wd) \<or> jk_lb_pull (ev_resolves ev) st = Some (p, wd)" "num_of_workers p = n"
      "r1 = r\<lparr>ru_retry := ru_retry r + 1, ru_p := p, ru_wd := wd, ru_states := map sw_state (lb_workers p), ru_attempt := 0\<rparr>"
proof (cases "ru_attempt r \<ge> int n \<or> ru_attempt r \<ge> lb_lb_retries (ru_p r)")
  case False
  then show ?thesis using assms first by (simp add: pause_def)
next
  case more: True
  show ?thesis
  proof (cases "ru_retry r + 1 \<ge> lb_retries_num (ru_p r)")
    case True
    then show ?thesis using assms more finished by (simp add: pause_def Let_def)
  next
    case False
    let ?st = "ev_sleep ev (ru_t r) (ru_p r, ru_wd r)"
    obtain p wd where p: "(if lb_sequence (fst ?st) < sl_sequence (lb_s (fst ?st)) then jk_lb_pull (ev_resolves ev) ?st else Some ?st) = Some (p, wd)"
        "num_of_workers p = n" "go"
        "r1 = r\<lparr>ru_retry := ru_retry r + 1, ru_p := p, ru_wd := wd, ru_states := map sw_state (lb_workers p), ru_attempt := 0\<rparr>"
      using assms more False unfolding pause_def Let_def by (auto simp: ub_simps split del: if_split)
    have "?st = (p, wd) \<or> jk_lb_pull (ev_resolves ev) ?st = Some (p, wd)" using p(1) by (simp split: if_splits)
    then show ?thesis using again [OF p(3) _ refl _ p(2) p(4)] False by simp
  qed
qed

lemma pause_bounded:
  assumes "pause ev n r = Some (go, r1)" and "bounded_sleep R ev" and "bounded_retries R (ru_p r)"
  shows "bounded_retries R (ru_p r1)"
  using assms(1)
proof (cases rule: pause_cases)
  case (again p wd st)
  have "bounded_retries R (fst st)" using assms(2,3) again(3) by (simp add: bounded_sleep_def)
  then show ?thesis using again(4,6) lb_pull_shape [of "ev_resolves ev" "fst st" "snd st" p wd]
    by (auto simp: bounded_retries_def)
qed (use assms(3) in simp_all)

lemma service_loop_inv:
  assumes "bounded_sleep R ev" and "\<And>r go r1. I r \<Longrightarrow> pause ev n r = Some (go, r1) \<Longrightarrow> I r1"
    and "\<And>r r2. I r \<Longrightarrow> attempt_once ev r = Some r2 \<Longrightarrow> I r2"
    and "bounded_retries R (ru_p r)" and "I r"
  shows "\<exists>x. service_loop ev n r = Some x \<and> (\<forall>r'. x = Some r' \<longrightarrow> I r')"
  using assms(4,5)
proof (induction r rule: wf_induct_rule [OF wf_measures
    [of "[\<lambda>r. nat (R - ru_retry r), \<lambda>r. if ru_forced r then 0 else 1, \<lambda>r. nat (int n - ru_attempt r)]"]])
  case (1 r)
  show ?case
  proof (cases "ru_recoverable r")
    case False
    then show ?thesis using "1.prems"(2) by (subst service_loop.simps) simp
  next
    case rec: True
    show ?thesis
    proof (cases "pause ev n r")
      case None
      then show ?thesis using rec by (subst service_loop.simps) simp
    next
      case (Some x)
      obtain go r1 where x: "x = (go, r1)" by (cases x)
      then have ps: "pause ev n r = Some (go, r1)" using Some by simp
      have I1: "I r1" "bounded_retries R (ru_p r1)" using assms(2) [OF "1.prems"(2) ps] pause_bounded [OF ps assms(1) "1.prems"(1)] .
      show ?thesis
      proof (cases "go \<and> attempt_once ev r1 \<noteq> None")
        case False
        then show ?thesis using rec ps I1(1) by (subst service_loop.simps) (auto split: option.splits)
      next
        case True
        then obtain r2 where r2: "go" "attempt_once ev r1 = Some r2" by auto
        have k: "run_kept r1 r2 \<and> (ru_attempt r2 = ru_attempt r1 + 1 \<and> (ru_forced r1 \<longrightarrow> ru_forced r2) \<or>
            \<not> ru_forced r1 \<and> ru_forced r2 \<and> ru_attempt r2 = ru_attempt r1)" using attempt_kept [OF r2(2)] .
        have "(r2, r) \<in> measures [\<lambda>r. nat (R - ru_retry r), \<lambda>r. if ru_forced r then 0 else 1, \<lambda>r. nat (int n - ru_attempt r)]"
          using ps
        proof (cases rule: pause_cases)
          case (again p wd st)
          then have "ru_retry r2 = ru_retry r + 1" "ru_retry r + 1 < R" using k "1.prems"(1) by (auto simp: run_kept_def bounded_retries_def)
          then show ?thesis by simp
        next
          case first
          then show ?thesis using k by (auto simp: run_kept_def)
        qed (use r2(1) in simp)
        moreover have "bounded_retries R (ru_p r2)" using k I1(2) by (auto simp: run_kept_def bounded_retries_def)
        moreover have "I r2" using assms(3) [OF I1(1) r2(2)] .
        ultimately have "\<exists>x. service_loop ev n r2 = Some x \<and> (\<forall>r'. x = Some r' \<longrightarrow> I r')" using "1.IH" by blast
        then show ?thesis using rec ps r2 by (subst service_loop.simps) simp
      qed
    qed
  qed
qed

lemma start_shape:
  assumes "service_start ev (p, wd) s = Some (ok, r)"
  shows "lb_s (ru_p r) = lb_s p \<and> num_of_workers (ru_p r) = num_of_workers p \<and>
    (lb_retries_num (ru_p r) = lb_retries_num p \<or> lb_retries_num (ru_p r) = sl_retries (lb_s p))"
proof -
  have len: "end_busy_all ws = Some ws' \<Longrightarrow> length ws' = length ws" for ws ws'
    by (induction ws arbitrary: ws') (auto simp: ub_simps)
  obtain p1 wd1 ws where a: "(if lb_sequence p < sl_sequence (lb_s p) then jk_lb_pull (ev_resolves ev) (p, wd) else Some (p, wd)) = Some (p1, wd1)"
      "end_busy_all (lb_workers p1) = Some ws" "ru_p r = p1\<lparr>lb_workers := ws\<rparr>"
    using assms unfolding service_start_def Let_def by (auto simp: ub_simps split: if_splits)
  show ?thesis using a(1) a(3) len [OF a(2)] lb_pull_shape [of "ev_resolves ev" p wd p1 wd1] by (auto split: if_splits)
qed

section \<open>The theorems\<close>

text \<open>Claim C14: the service of a request always returns: however the members answer and whatever others change during
  the sleeps, as long as the configured retries stay bounded, the loop over attempts and retries ends.\<close>

theorem lb_service_returns:
  assumes "bounded_sleep R ev" and "bounded_retries R (fst st)"
  shows "\<exists>x. service ev st s = Some x"
proof (cases "service_start ev st s")
  case None
  then show ?thesis by (simp add: service_def)
next
  case (Some y)
  obtain ok r where y: "y = (ok, r)" by (cases y)
  then have "bounded_retries R (ru_p r)"
    using start_shape [of ev "fst st" "snd st" s ok r] Some assms(2) by (auto simp: bounded_retries_def)
  then show ?thesis
    using service_loop_inv [of R ev "\<lambda>_. True" "num_of_workers (fst st)" r] assms(1) Some y by (auto simp: service_def)
qed

text \<open>Claim C4: the number of busy channels in shared memory is balanced: when a request is over, the counter of the
  balancer is what it was before, whichever way the request ended.\<close>

theorem lb_busy_balanced:
  assumes "bounded_sleep R ev" and "bounded_retries R (fst st)" and "0 \<le> sl_busy (lb_s (fst st))"
    and "\<forall>t p wd. sl_busy (lb_s (fst (ev_sleep ev t (p, wd)))) = sl_busy (lb_s p)"
    and "service ev st s = Some (Some r')"
  shows "sl_busy (lb_s (ru_p r')) = sl_busy (lb_s (fst st))"
proof -
  let ?b = "sl_busy (lb_s (fst st))" and ?n = "num_of_workers (fst st)"
  obtain ok r where y: "service_start ev st s = Some (ok, r)" using assms(5) by (auto simp: service_def split: option.splits)
  have s: "bounded_retries R (ru_p r)" "sl_busy (lb_s (ru_p r)) = ?b"
    using start_shape [of ev "fst st" "snd st" s ok r] y assms(2) by (auto simp: bounded_retries_def)
  have p: "sl_busy (lb_s (ru_p r1)) = ?b" if "sl_busy (lb_s (ru_p r0)) = ?b" "pause ev ?n r0 = Some (go, r1)" for r0 go r1
    using that(2)
  proof (cases rule: pause_cases)
    case (again p wd x)
    have "lb_s p = lb_s (fst x)" using again(4) lb_pull_shape [of "ev_resolves ev" "fst x" "snd x" p wd] by auto
    then show ?thesis using again(3,6) assms(4) that(1) by simp
  qed (use that(1) in simp_all)
  have a: "sl_busy (lb_s (ru_p r2)) = ?b" if "sl_busy (lb_s (ru_p r0)) = ?b" "attempt_once ev r0 = Some r2" for r0 r2
    using attempt_kept [OF that(2)] that(1) assms(3) by (auto simp: run_kept_def)
  from service_loop_inv [of R ev "\<lambda>r. sl_busy (lb_s (ru_p r)) = ?b" ?n r, OF assms(1) p a s]
  show ?thesis using assms(5) y s by (auto simp: service_def split: if_splits)
qed

text \<open>Claim C15: a member that failed is not tried again for the same request. After any outcome but success, the state
  of the member for this request is such that no search chooses it, by session, domain, redirect or load.\<close>

theorem failed_member_not_reused:
  assumes "after_service p now res w = (w', local, rc, again)" and "sr_stat res \<noteq> 1" and "states ! i = local"
    and "lb_wf s p1 states" and "get_most_suitable_worker lock_ok s p1 sid states = Some (c, sid', s', p')"
  shows "c \<noteq> Some i"
proof -
  have "local = JK_LB_STATE_ERROR \<or> local = JK_LB_STATE_BUSY"
    using assms(1,2) by (auto simp: after_service_def Let_def split: if_splits)
  then have "\<not> JK_WORKER_USABLE_STICKY local (act s p1 i)" by (auto simp: JK_WORKER_USABLE_STICKY_def)
  then show ?thesis using suitable_ok [OF assms(5,4)] assms(3) by (auto simp: may_serve_def)
qed

text \<open>A balancer with two members and a member that answers with the given results.\<close>

definition demo_ev :: "int list \<Rightarrow> lb_env" where
  "demo_ev stats =
     \<lparr>ev_serve = (\<lambda>t slot (aw, wd, s). Some (\<lparr>sr_stat = stats ! (t - 1), sr_is_error = 200, sr_rd = 0, sr_wr = 0, sr_recoverable = True\<rparr>, aw, wd, s)),
      ev_others = (\<lambda>_ _ x. x), ev_sleep = (\<lambda>_ st. st), ev_now = (\<lambda>_. 7), ev_lock = (\<lambda>_. True), ev_resolves = (\<lambda>_ _. True),
      ev_junk = (\<lambda>n. replicate n 0)\<rparr>"

definition demo_balancer :: lb_worker where
  "demo_balancer = (demo_lb [(demo_member 0 1 ''r0'')\<lparr>sw_aw := demo_pool\<rparr>, (demo_member 1 1 ''r1'')\<lparr>sw_aw := demo_pool\<rparr>])
     \<lparr>lb_max_packet_size := 16, lb_sticky_session := False\<rparr>"

lemma demo_reco: "\<exists>s1. new_reco_buf (demo_ev stats) demo_balancer demo_ws = Some (True, s1) \<and> sv_ext_activation s1 = None \<and>
    \<not> sv_ext_stateless s1 \<and> sv_route s1 = None \<and> \<not> sv_ext_set_session_cookie s1"
  by (simp add: new_reco_buf_def demo_ws_def demo_balancer_def demo_lb_def jk_b_new_def jk_pool_alloc_def jk_open_pool_def JK_ALIGN_DEFAULT_def
      JK_ALIGN_def jk_b_set_buffer_size_def jk_b_set_buffer_def jk_b_reset_def)

definition demo_start :: "jk_ws_service \<Rightarrow> lb_run" where
  "demo_start s1 = \<lparr>ru_p = demo_balancer, ru_wd = demo_world [], ru_s = s1, ru_states = [0, 0], ru_sid = None, ru_attempt = 0, ru_retry = 0,
                  ru_forced = False, ru_rc = - 1, ru_is_error = 200, ru_recoverable = True, ru_t = 0\<rparr>"

lemma demo_started: "\<exists>s1. service_start (demo_ev stats) (demo_balancer, demo_world []) demo_ws = Some (True, demo_start s1) \<and> sv_ext_activation s1 = None \<and>
    \<not> sv_ext_stateless s1 \<and> sv_route s1 = None \<and> \<not> sv_ext_set_session_cookie s1"
proof -
  obtain s1 where s1: "new_reco_buf (demo_ev stats) demo_balancer demo_ws = Some (True, s1)" "sv_ext_activation s1 = None" 
    "\<not> sv_ext_stateless s1 \<and> sv_route s1 = None \<and> \<not> sv_ext_set_session_cookie s1" using demo_reco by blast
  have b: "end_busy_all (lb_workers demo_balancer) = Some (lb_workers demo_balancer)" "map sw_state (lb_workers demo_balancer) = [0, 0]"
    "lb_sequence demo_balancer = sl_sequence (lb_s demo_balancer)" "\<not> lb_sticky_session demo_balancer"
    by (simp_all add: demo_balancer_def demo_lb_def end_busy_def demo_member_def)
  have "demo_balancer\<lparr>lb_workers := lb_workers demo_balancer\<rparr> = demo_balancer" by simp
  then show ?thesis using s1 b by (intro exI [of _ s1]) (simp add: service_start_def Let_def demo_start_def)
qed

lemma demo_choice: "sv_ext_activation s1 = None \<Longrightarrow> \<not> sv_ext_stateless s1 \<Longrightarrow> get_most_suitable_worker True s1 demo_balancer None [0, 0] = Some (Some 0, None, s1\<lparr>sv_sticky := False\<rparr>, demo_balancer\<lparr>lb_next_offset := 1\<rparr>)"
  by (simp add: get_most_suitable_worker_def find_best_worker_def find_best_byvalue_def demo_balancer_def demo_lb_def demo_member_def
     usable_at_def activation_of_def JK_WORKER_USABLE_def better_def upt_rec numeral_2_eq_2)


definition demo_pool_taken :: ajp_worker where
  "demo_pool_taken = set_slot demo_pool 0 ((new_endpoint AJP13_PROTO 0)\<lparr>ae_avail := False, ae_last_access := 7\<rparr>)"

lemma demo_get: "ajp_get_endpoint (\<lambda>_ x. x) 7 (demo_pool, wd) = Some (Some 0, demo_pool_taken, wd)"
  by (simp add: ajp_get_endpoint_def get_endpoint_loop.simps [of _ _ _ 0] try_endpoint_def demo_pool_taken_def demo_pool_def demo_aw_def
      ajp_create_endpoint_cache_def set_slot_def numeral_2_eq_2 IS_SLOT_AVAIL_def slot_open_def new_endpoint_def at_slot_def upd_ep_def)

lemma demo_done: "\<exists>aw. ajp_done (demo_pool_taken, wd) 0 7 = Some (aw, wd)"
  by (simp add: ajp_done_def at_slot_def demo_pool_taken_def demo_pool_def demo_aw_def ajp_create_endpoint_cache_def set_slot_def numeral_2_eq_2
      new_endpoint_def upd_ep_def ajp_reset_endpoint_def ajp_abort_endpoint_def Let_def)

lemma demo_attempt:
  assumes "sv_ext_activation s1 = None" "\<not> sv_ext_stateless s1" "\<not> sv_ext_set_session_cookie s1"
  shows "\<exists>r. attempt_once (demo_ev [1]) (demo_start s1) = Some r \<and> \<not> ru_recoverable r \<and> ru_rc r = 1"
proof -
  obtain aw where d: "ajp_done (demo_pool_taken, demo_world []) 0 7 = Some (aw, demo_world [])" using demo_done by blast
  have m: "lb_workers demo_balancer ! 0 = (demo_member 0 1 ''r0'')\<lparr>sw_aw := demo_pool\<rparr>" "num_of_workers demo_balancer = 2"
    "\<not> lb_set_session_cookie demo_balancer" by (simp_all add: demo_balancer_def demo_lb_def)
  have c: "get_most_suitable_worker True s1 demo_balancer None [0, 0] = Some (Some 0, None, s1\<lparr>sv_sticky := False\<rparr>, demo_balancer\<lparr>lb_next_offset := 1\<rparr>)"
    using demo_choice assms by simp
  have a: "activation_of (s1\<lparr>sv_sticky := False\<rparr>) (demo_balancer\<lparr>lb_next_offset := 1\<rparr>) 0 = Some 0"
    using assms m by (simp add: activation_of_def demo_member_def)
  show ?thesis using d c a assms(3) m demo_get [of "demo_world []"]
    by (simp add: attempt_once_def demo_start_def demo_ev_def Let_def run_worker_def demo_member_def serve_slot_def on_lb_s_def
        charge_request_def charge_done_def on_s_def after_service_def jk_lb_get_activation_direct_def rdi_def lb_activation_type_def put_member_def
        no_error_def set_state_def case_prod_beta)
qed

lemma demo_service: "\<exists>r. service (demo_ev [1]) (demo_balancer, demo_world []) demo_ws = Some (Some r) \<and> ru_rc r = 1"
proof -
  obtain s1 where s: "service_start (demo_ev [1]) (demo_balancer, demo_world []) demo_ws = Some (True, demo_start s1)"
      "sv_ext_activation s1 = None" "\<not> sv_ext_stateless s1" "\<not> sv_ext_set_session_cookie s1" using demo_started by blast
  obtain r where r: "attempt_once (demo_ev [1]) (demo_start s1) = Some r" "\<not> ru_recoverable r" "ru_rc r = 1"
    using demo_attempt [OF s(2-4)] by blast
  have "num_of_workers demo_balancer = 2" "lb_lb_retries demo_balancer = 2" by (simp_all add: demo_balancer_def demo_lb_def)
  then have "pause (demo_ev [1]) 2 (demo_start s1) = Some (True, demo_start s1)" by (simp add: pause_def demo_start_def)
  then have "service_loop (demo_ev [1]) 2 (demo_start s1) = service_loop (demo_ev [1]) 2 r"
    using r by (subst service_loop.simps) (simp add: demo_start_def)
  then have "service_loop (demo_ev [1]) 2 (demo_start s1) = Some (Some r)" using r(2) by (simp add: service_loop.simps [of _ _ r])
  then show ?thesis using s(1) r(3) \<open>num_of_workers demo_balancer = 2\<close> by (simp add: service_def)
qed

lemma demo_bounds: "bounded_sleep 2 (demo_ev stats)" "bounded_retries 2 demo_balancer" "sl_busy (lb_s demo_balancer) = 0"
  "ev_sleep (demo_ev stats) t st = st"
  by (simp_all add: bounded_sleep_def bounded_retries_def demo_ev_def demo_balancer_def demo_lb_def)

theorem lb_service_returns_witness:
  "\<exists>x. service (demo_ev [- 5, 1]) (demo_balancer, demo_world []) demo_ws = Some x"
  by (rule lb_service_returns [of 2]) (simp_all add: demo_bounds)

theorem lb_busy_balanced_witness:
  "\<exists>r. service (demo_ev [1]) (demo_balancer, demo_world []) demo_ws = Some (Some r) \<and> sl_busy (lb_s (ru_p r)) = 0"
proof -
  obtain r where r: "service (demo_ev [1]) (demo_balancer, demo_world []) demo_ws = Some (Some r)" using demo_service by blast
  have "sl_busy (lb_s (ru_p r)) = sl_busy (lb_s (fst (demo_balancer, demo_world [])))"
    by (rule lb_busy_balanced [OF _ _ _ _ r, of 2]) (simp_all add: demo_bounds)
  then show ?thesis using r demo_bounds(3) by auto
qed

theorem failed_member_not_reused_witness:
  "\<exists>c sid s p. get_most_suitable_worker True demo_ws (demo_lb demo_two) None [JK_LB_STATE_ERROR, 0] = Some (c, sid, s, p) \<and> c \<noteq> Some 0"
proof -
  let ?res = "\<lparr>sr_stat = JK_SERVER_ERROR, sr_is_error = 500, sr_rd = 0, sr_wr = 0, sr_recoverable = True\<rparr>"
  have wf: "lb_wf demo_ws (demo_lb demo_two) [JK_LB_STATE_ERROR, 0]" by (simp add: lb_wf_def demo_defs All_less_Suc)
  obtain w where a: "after_service (demo_lb demo_two) 0 ?res (demo_member 0 2 ''r0'') = (w, JK_LB_STATE_ERROR, 0, True)"
    by (simp add: after_service_def Let_def)
  obtain c sid s p where g: "get_most_suitable_worker True demo_ws (demo_lb demo_two) None [JK_LB_STATE_ERROR, 0] = Some (c, sid, s, p)"
    by (simp add: get_most_suitable_worker_def find_best_worker_def find_best_byvalue_def demo_defs usable_at_def activation_of_def
        JK_WORKER_USABLE_def better_def upt_rec numeral_2_eq_2)
  have "c \<noteq> Some 0" by (rule failed_member_not_reused [OF a _ _ wf g]) simp_all
  then show ?thesis using g by blast
qed

section \<open>The cookie\<close>

lemma starts_self: "starts_with (name @ s) name"
  by (simp add: starts_with_iff)

lemma strstr_start: "name \<noteq> [] \<Longrightarrow> c_strstr (name @ s) name = Some 0"
  using starts_self [of name s] by (cases name) auto

lemma str_at_terminated: "NUL \<notin> set v \<Longrightarrow> str_at (xs @ v @ NUL # rest) (length xs) = Some v"
  by (simp add: str_at_def takeWhile_append)

lemma strstr_at_outside: "length buf \<le> k \<Longrightarrow> strstr_at buf k name = None"
  by (simp add: strstr_at_def str_at_def)

lemma strstr_at_null: "name \<noteq> [] \<Longrightarrow> buf ! k = NUL \<Longrightarrow> k < length buf \<Longrightarrow> strstr_at buf k name = Some None"
  by (cases name) (simp_all add: strstr_at_def str_at_def Cons_nth_drop_Suc [symmetric])

lemma skip_space_equals: "skip_space (name @ CHR ''='' # r) (length name) = Some (length name)"
  by (subst skip_space.simps) (simp add: rd_def jk_isspace_def code_def of_char_def)

lemma cookie_alone:
  assumes "name \<noteq> []" and "v \<noteq> []" and "NUL \<notin> set name" and "NUL \<notin> set v" and "CHR '';'' \<notin> set v" and "CHR '','' \<notin> set v"
    and "map tolower hn = ''cookie''"
  shows "cookie_headers m [(hn, name @ CHR ''='' # v @ NUL # rest)] name None =
    do { (r, m1) \<leftarrow> add_cookie m None (unquote v);
         nx \<leftarrow> strstr_at (name @ CHR ''='' # v @ NUL # rest) (length name + 1 + length v + 1) name;
         cookie_loop m1 (name @ CHR ''='' # v @ NUL # rest) name (Some r) nx }"
proof -
  let ?b = "name @ CHR ''='' # v @ NUL # rest"
  have "str_at ?b 0 = Some (name @ CHR ''='' # v)"
    using str_at_terminated [of "name @ CHR ''='' # v" "[]" rest] assms by simp
  then have a: "strstr_at ?b 0 name = Some (Some 0)" using strstr_start [OF assms(1)] by (simp add: strstr_at_def)
  have b: "str_at ?b (length name + 1) = Some v"
    using str_at_terminated [of v "name @ [CHR ''='']" rest] assms by simp
  have c: "rd ?b (length name) = Some CHR ''=''" "\<exists>c. rd ?b (length name + 1) = Some c \<and> c \<noteq> NUL"
    using assms(2,4) by (auto simp: rd_def nth_append neq_Nil_conv)
  have d: "takeWhile (\<lambda>c. c \<noteq> CHR '';'' \<and> c \<noteq> CHR '','') v = v" using assms(5,6) by (auto intro!: takeWhile_eq_all_conv [THEN iffD2])
  define buf where "buf = ?b"
  obtain f where f: "rd buf (length name + 1) = Some f" "f \<noteq> NUL" using c(2) unfolding buf_def by blast
  have e: "skip_space buf (length name) = Some (length name)" using skip_space_equals [of name "v @ NUL # rest"] unfolding buf_def .
  note abcd = a [folded buf_def] b [folded buf_def] c(1) [folded buf_def]
  show ?thesis unfolding buf_def [symmetric] using assms(7) abcd d e f
    by (simp add: cookie_start_def Let_def del: takeWhile_eq_all_conv)
qed

text \<open>After the last cookie of a header, the search goes on behind the terminator of the header's value. A header that
  holds the session cookie alone, as a block that ends with its terminator, makes \<open>get_cookie\<close> read past the end of
  the block; if one more byte can be read and is zero, the cookie's value is found, without surrounding quotes.\<close>

theorem cookie_read_past_end:
  assumes "name \<noteq> []" and "v \<noteq> []" and "NUL \<notin> set name" and "NUL \<notin> set v" and "CHR '';'' \<notin> set v" and "CHR '','' \<notin> set v"
    and "map tolower hn = ''cookie''" and "jk_pool_alloc m (of_nat (length (unquote v) + 1)) = Some (Some a, m1)"
  shows "cookie_headers m [(hn, name @ CHR ''='' # v @ [NUL])] name None = None \<and>
      cookie_headers m [(hn, name @ CHR ''='' # v @ [NUL, NUL])] name None = Some (Some (unquote v), m1)"
proof -
  have "strstr_at (name @ CHR ''='' # v @ [NUL]) (length name + 1 + length v + 1) name = None"
    by (rule strstr_at_outside) simp
  moreover have "strstr_at (name @ CHR ''='' # v @ [NUL, NUL]) (length name + 1 + length v + 1) name = Some None"
    by (rule strstr_at_null [OF assms(1)]) (simp_all add: nth_append)
  moreover have "add_cookie m None (unquote v) = Some (unquote v, m1)" using assms(8) by (simp add: add_cookie_def)
  ultimately show ?thesis using cookie_alone [OF assms(1-7), of m] by simp
qed

theorem cookie_read_past_end_witness:
  "\<exists>m. cookie_headers (sv_pool demo_ws) [(''Cookie'', ''JS=x.r1'' @ [NUL])] ''JS'' None = None \<and>
     cookie_headers (sv_pool demo_ws) [(''Cookie'', ''JS=x.r1'' @ [NUL, NUL])] ''JS'' None = Some (Some ''x.r1'', m)"
proof -
  have u: "unquote ''x.r1'' = ''x.r1''" by (simp add: unquote_def)
  obtain a m1 where "jk_pool_alloc (sv_pool demo_ws) (of_nat (length (unquote ''x.r1'') + 1)) = Some (Some a, m1)"
    by (simp add: u demo_ws_def jk_pool_alloc_def jk_open_pool_def JK_ALIGN_DEFAULT_def JK_ALIGN_def)
  moreover have "map tolower ''Cookie'' = ''cookie''" by code_simp
  ultimately have "cookie_headers (sv_pool demo_ws) [(''Cookie'', ''JS'' @ CHR ''='' # ''x.r1'' @ [NUL])] ''JS'' None = None \<and>
     cookie_headers (sv_pool demo_ws) [(''Cookie'', ''JS'' @ CHR ''='' # ''x.r1'' @ [NUL, NUL])] ''JS'' None = Some (Some (unquote ''x.r1''), m1)"
    by (intro cookie_read_past_end) simp_all
  then show ?thesis using u by auto
qed

end
