(* ===== verification/Jk_Ajp_Codec.thy ===== *)
theory Jk_Ajp_Codec
  imports Jk_Lb_Service
begin

text \<open>
  The AJP request and response messages (\<open>jk_ajp_common.c\<close>): the codes of methods and headers, marshalling
  a request into a message and reading the response headers from one. The theorems: the codes are those
  of a table of keywords; a request that fits is marshalled to the encoding that a reader of the protocol
  takes apart again, and what happens when it does not fit; the response headers a container encodes
  are those the web server gets.
\<close>

section \<open>Codes\<close>

definition SC_M_OPTIONS :: int where
  "SC_M_OPTIONS = 1"

definition SC_M_GET :: int where
  "SC_M_GET = 2"

definition SC_M_HEAD :: int where
  "SC_M_HEAD = 3"

definition SC_M_POST :: int where
  "SC_M_POST = 4"

definition SC_M_PUT :: int where
  "SC_M_PUT = 5"

definition SC_M_DELETE :: int where
  "SC_M_DELETE = 6"

definition SC_M_TRACE :: int where
  "SC_M_TRACE = 7"

definition SC_M_PROPFIND :: int where
  "SC_M_PROPFIND = 8"

definition SC_M_PROPPATCH :: int where
  "SC_M_PROPPATCH = 9"

definition SC_M_MKCOL :: int where
  "SC_M_MKCOL = 10"

definition SC_M_COPY :: int where
  "SC_M_COPY = 11"

definition SC_M_MOVE :: int where
  "SC_M_MOVE = 12"

definition SC_M_LOCK :: int where
  "SC_M_LOCK = 13"

definition SC_M_UNLOCK :: int where
  "SC_M_UNLOCK = 14"

definition SC_M_ACL :: int where
  "SC_M_ACL = 15"

definition SC_M_REPORT :: int where
  "SC_M_REPORT = 16"

definition SC_M_VERSION_CONTROL :: int where
  "SC_M_VERSION_CONTROL = 17"

definition SC_M_CHECKIN :: int where
  "SC_M_CHECKIN = 18"

definition SC_M_CHECKOUT :: int where
  "SC_M_CHECKOUT = 19"

definition SC_M_UNCHECKOUT :: int where
  "SC_M_UNCHECKOUT = 20"

definition SC_M_SEARCH :: int where
  "SC_M_SEARCH = 21"

definition SC_M_MKWORKSPACE :: int where
  "SC_M_MKWORKSPACE = 22"

definition SC_M_UPDATE :: int where
  "SC_M_UPDATE = 23"

definition SC_M_LABEL :: int where
  "SC_M_LABEL = 24"

definition SC_M_MERGE :: int where
  "SC_M_MERGE = 25"

definition SC_M_BASELINE_CONTROL :: int where
  "SC_M_BASELINE_CONTROL = 26"

definition SC_M_MKACTIVITY :: int where
  "SC_M_MKACTIVITY = 27"

definition SC_M_JK_STORED :: int where
  "SC_M_JK_STORED = 255"

definition SC_ACCEPT :: int where
  "SC_ACCEPT = 40961"

definition SC_ACCEPT_CHARSET :: int where
  "SC_ACCEPT_CHARSET = 40962"

definition SC_ACCEPT_ENCODING :: int where
  "SC_ACCEPT_ENCODING = 40963"

definition SC_ACCEPT_LANGUAGE :: int where
  "SC_ACCEPT_LANGUAGE = 40964"

definition SC_AUTHORIZATION :: int where
  "SC_AUTHORIZATION = 40965"

definition SC_CONNECTION :: int where
  "SC_CONNECTION = 40966"

definition SC_CONTENT_TYPE :: int where
  "SC_CONTENT_TYPE = 40967"

definition SC_CONTENT_LENGTH :: int where
  "SC_CONTENT_LENGTH = 40968"

definition SC_COOKIE :: int where
  "SC_COOKIE = 40969"

definition SC_COOKIE2 :: int where
  "SC_COOKIE2 = 40970"

definition SC_HOST :: int where
  "SC_HOST = 40971"

definition SC_PRAGMA :: int where
  "SC_PRAGMA = 40972"

definition SC_REFERER :: int where
  "SC_REFERER = 40973"

definition SC_USER_AGENT :: int where
  "SC_USER_AGENT = 40974"

definition SC_A_REMOTE_USER :: u8 where
  "SC_A_REMOTE_USER = 3"

definition SC_A_AUTH_TYPE :: u8 where
  "SC_A_AUTH_TYPE = 4"

definition SC_A_QUERY_STRING :: u8 where
  "SC_A_QUERY_STRING = 5"

definition SC_A_ROUTE :: u8 where
  "SC_A_ROUTE = 6"

definition SC_A_SSL_CERT :: u8 where
  "SC_A_SSL_CERT = 7"

definition SC_A_SSL_CIPHER :: u8 where
  "SC_A_SSL_CIPHER = 8"

definition SC_A_SSL_SESSION :: u8 where
  "SC_A_SSL_SESSION = 9"

definition SC_A_REQ_ATTRIBUTE :: u8 where
  "SC_A_REQ_ATTRIBUTE = 10"

definition SC_A_SSL_KEY_SIZE :: u8 where
  "SC_A_SSL_KEY_SIZE = 11"

definition SC_A_SECRET :: u8 where
  "SC_A_SECRET = 12"

definition SC_A_STORED_METHOD :: u8 where
  "SC_A_STORED_METHOD = 13"

definition SC_A_ARE_DONE :: u8 where
  "SC_A_ARE_DONE = 255"

lemmas sc_m_defs =
  SC_M_OPTIONS_def SC_M_GET_def SC_M_HEAD_def SC_M_POST_def SC_M_PUT_def SC_M_DELETE_def SC_M_TRACE_def
  SC_M_PROPFIND_def SC_M_PROPPATCH_def SC_M_MKCOL_def SC_M_COPY_def SC_M_MOVE_def SC_M_LOCK_def SC_M_UNLOCK_def
  SC_M_ACL_def SC_M_REPORT_def SC_M_VERSION_CONTROL_def SC_M_CHECKIN_def SC_M_CHECKOUT_def SC_M_UNCHECKOUT_def
  SC_M_SEARCH_def SC_M_MKWORKSPACE_def SC_M_UPDATE_def SC_M_LABEL_def SC_M_MERGE_def SC_M_BASELINE_CONTROL_def
  SC_M_MKACTIVITY_def SC_M_JK_STORED_def

lemmas sc_h_defs =
  SC_ACCEPT_def SC_ACCEPT_CHARSET_def SC_ACCEPT_ENCODING_def SC_ACCEPT_LANGUAGE_def SC_AUTHORIZATION_def
  SC_CONNECTION_def SC_CONTENT_TYPE_def SC_CONTENT_LENGTH_def SC_COOKIE_def SC_COOKIE2_def SC_HOST_def
  SC_PRAGMA_def SC_REFERER_def SC_USER_AGENT_def

lemmas sc_a_defs =
  SC_A_REMOTE_USER_def SC_A_AUTH_TYPE_def SC_A_QUERY_STRING_def SC_A_ROUTE_def SC_A_SSL_CERT_def
  SC_A_SSL_CIPHER_def SC_A_SSL_SESSION_def SC_A_REQ_ATTRIBUTE_def SC_A_SSL_KEY_SIZE_def SC_A_SECRET_def
  SC_A_STORED_METHOD_def SC_A_ARE_DONE_def

definition UNKNOWN_METHOD :: int where
  "UNKNOWN_METHOD = - 1"

text \<open>\<open>memcmp(method, w, len) == 0\<close> for a method of the length of \<open>w\<close>.\<close>

definition memeq :: "string \<Rightarrow> string \<Rightarrow> bool" where
  "memeq b w \<longleftrightarrow> take (length w) b = w"

text \<open>The function is called with \<open>len = strlen(method)\<close>.\<close>

definition sc_for_req_method :: "string \<Rightarrow> int" where
  "sc_for_req_method method =
     (let len = length method in
     if len = 3 then
      (if method ! 0 = CHR ''A'' then (if method ! 1 = CHR ''C'' \<and> method ! 2 = CHR ''L'' then SC_M_ACL else UNKNOWN_METHOD)
      else if method ! 0 = CHR ''P'' then (if method ! 1 = CHR ''U'' \<and> method ! 2 = CHR ''T'' then SC_M_PUT else UNKNOWN_METHOD)
      else if method ! 0 = CHR ''G'' then (if method ! 1 = CHR ''E'' \<and> method ! 2 = CHR ''T'' then SC_M_GET else UNKNOWN_METHOD)
      else UNKNOWN_METHOD)
     else if len = 4 then
      (if method ! 0 = CHR ''H'' then (if method ! 1 = CHR ''E'' \<and> method ! 2 = CHR ''A'' \<and> method ! 3 = CHR ''D'' then SC_M_HEAD else UNKNOWN_METHOD)
      else if method ! 0 = CHR ''P'' then (if method ! 1 = CHR ''O'' \<and> method ! 2 = CHR ''S'' \<and> method ! 3 = CHR ''T'' then SC_M_POST else UNKNOWN_METHOD)
      else if method ! 0 = CHR ''M'' then (if method ! 1 = CHR ''O'' \<and> method ! 2 = CHR ''V'' \<and> method ! 3 = CHR ''E'' then SC_M_MOVE else UNKNOWN_METHOD)
      else if method ! 0 = CHR ''L'' then (if method ! 1 = CHR ''O'' \<and> method ! 2 = CHR ''C'' \<and> method ! 3 = CHR ''K'' then SC_M_LOCK else UNKNOWN_METHOD)
      else if method ! 0 = CHR ''C'' then (if method ! 1 = CHR ''O'' \<and> method ! 2 = CHR ''P'' \<and> method ! 3 = CHR ''Y'' then SC_M_COPY else UNKNOWN_METHOD)
      else UNKNOWN_METHOD)
     else if len = 5 then
      (if method ! 2 = CHR ''R'' then (if memeq method ''MERGE'' then SC_M_MERGE else UNKNOWN_METHOD)
      else if method ! 2 = CHR ''C'' then (if memeq method ''MKCOL'' then SC_M_MKCOL else UNKNOWN_METHOD)
      else if method ! 2 = CHR ''B'' then (if memeq method ''LABEL'' then SC_M_LABEL else UNKNOWN_METHOD)
      else if method ! 2 = CHR ''A'' then (if memeq method ''TRACE'' then SC_M_TRACE else UNKNOWN_METHOD)
      else UNKNOWN_METHOD)
     else if len = 6 then
      (if method ! 0 = CHR ''U'' then (if method ! 5 = CHR ''K'' then (if memeq method ''UNLOCK'' then SC_M_UNLOCK else UNKNOWN_METHOD) else if method ! 5 = CHR ''E'' then (if memeq method ''UPDATE'' then SC_M_UPDATE else UNKNOWN_METHOD) else UNKNOWN_METHOD)
      else if method ! 0 = CHR ''R'' then (if memeq method ''REPORT'' then SC_M_REPORT else UNKNOWN_METHOD)
      else if method ! 0 = CHR ''S'' then (if memeq method ''SEARCH'' then SC_M_SEARCH else UNKNOWN_METHOD)
      else if method ! 0 = CHR ''D'' then (if memeq method ''DELETE'' then SC_M_DELETE else UNKNOWN_METHOD)
      else UNKNOWN_METHOD)
     else if len = 7 then
      (if method ! 1 = CHR ''P'' then (if memeq method ''OPTIONS'' then SC_M_OPTIONS else UNKNOWN_METHOD)
      else if method ! 1 = CHR ''H'' then (if memeq method ''CHECKIN'' then SC_M_CHECKIN else UNKNOWN_METHOD)
      else UNKNOWN_METHOD)
     else if len = 8 then
      (if method ! 0 = CHR ''P'' then (if memeq method ''PROPFIND'' then SC_M_PROPFIND else UNKNOWN_METHOD)
      else if method ! 0 = CHR ''C'' then (if memeq method ''CHECKOUT'' then SC_M_CHECKOUT else UNKNOWN_METHOD)
      else UNKNOWN_METHOD)
     else if len = 9 then
      ((if memeq method ''PROPPATCH'' then SC_M_PROPPATCH else UNKNOWN_METHOD))
     else if len = 10 then
      (if method ! 0 = CHR ''U'' then (if memeq method ''UNCHECKOUT'' then SC_M_UNCHECKOUT else UNKNOWN_METHOD)
      else if method ! 0 = CHR ''M'' then (if memeq method ''MKACTIVITY'' then SC_M_MKACTIVITY else UNKNOWN_METHOD)
      else UNKNOWN_METHOD)
     else if len = 11 then
      ((if memeq method ''MKWORKSPACE'' then SC_M_MKWORKSPACE else UNKNOWN_METHOD))
     else if len = 15 then
      ((if memeq method ''VERSION-CONTROL'' then SC_M_VERSION_CONTROL else UNKNOWN_METHOD))
     else if len = 16 then
      ((if memeq method ''BASELINE-CONTROL'' then SC_M_BASELINE_CONTROL else UNKNOWN_METHOD))
     else UNKNOWN_METHOD)"

definition toupper :: "char \<Rightarrow> char" where
  "toupper c = (if islower c then char_of (code c - 32) else c)"

text \<open>\<open>memcmp(header + k, w, n) == 0\<close> where \<open>n\<close> counts the terminator of \<open>w\<close> too.\<close>

definition memeq0 :: "string \<Rightarrow> nat \<Rightarrow> string \<Rightarrow> bool" where
  "memeq0 b k w \<longleftrightarrow> take (length w + 1) (drop k b) = w @ [NUL]"

text \<open>The local array \<open>header\<close> of 16 bytes starts with arbitrary contents \<open>junk\<close>.\<close>

definition sc_for_req_header :: "string \<Rightarrow> string \<Rightarrow> int" where
  "sc_for_req_header junk header_name =
     (let len = length header_name;
          header = map toupper header_name @ [NUL] @ drop (len + 1) junk
      in
      if len < 4 \<or> len > 15 then UNKNOWN_METHOD
      else if header ! 0 = CHR ''A'' then
        if memeq0 header 1 ''CCEPT'' then
          if header ! 6 = NUL then SC_ACCEPT
          else if header ! 6 = CHR ''-'' then
            if memeq0 header 7 ''CHARSET'' then SC_ACCEPT_CHARSET
            else if memeq0 header 7 ''ENCODING'' then SC_ACCEPT_ENCODING
            else if memeq0 header 7 ''LANGUAGE'' then SC_ACCEPT_LANGUAGE
            else UNKNOWN_METHOD
          else UNKNOWN_METHOD
        else if memeq0 header 1 ''UTHORIZATION'' then SC_AUTHORIZATION
        else UNKNOWN_METHOD
      else if header ! 0 = CHR ''C'' then
        if memeq0 header 1 ''OOKIE2'' then SC_COOKIE2
        else if memeq0 header 1 ''OOKIE'' then SC_COOKIE
        else if memeq0 header 1 ''ONNECTION'' then SC_CONNECTION
        else if memeq0 header 1 ''ONTENT-TYPE'' then SC_CONTENT_TYPE
        else if memeq0 header 1 ''ONTENT-LENGTH'' then SC_CONTENT_LENGTH
        else UNKNOWN_METHOD
      else if header ! 0 = CHR ''H'' then
        if memeq0 header 1 ''OST'' then SC_HOST else UNKNOWN_METHOD
      else if header ! 0 = CHR ''P'' then
        if memeq0 header 1 ''RAGMA'' then SC_PRAGMA else UNKNOWN_METHOD
      else if header ! 0 = CHR ''R'' then
        if memeq0 header 1 ''EFERER'' then SC_REFERER else UNKNOWN_METHOD
      else if header ! 0 = CHR ''U'' then
        if memeq0 header 1 ''SER-AGENT'' then SC_USER_AGENT else UNKNOWN_METHOD
      else UNKNOWN_METHOD)"

definition response_trans_headers :: "string list" where
  "response_trans_headers =
     [''Content-Type'', ''Content-Language'', ''Content-Length'', ''Date'', ''Last-Modified'', ''Location'',
      ''Set-Cookie'', ''Set-Cookie2'', ''Servlet-Engine'', ''Status'', ''WWW-Authenticate'']"

definition SC_RES_HEADERS_NUM :: u16 where
  "SC_RES_HEADERS_NUM = 11"

definition long_res_header_for_sc :: "u16 \<Rightarrow> string option" where
  "long_res_header_for_sc sc0 =
     (let sc = sc0 AND 0x00FF in
      if sc \<le> SC_RES_HEADERS_NUM \<and> sc > 0 then Some (response_trans_headers ! (unat sc - 1)) else None)"

definition ajp_state_type :: "string option list" where
  "ajp_state_type = [Some ''OK/IDLE'', Some ''OK'', Some ''ERR'', Some ''ERR/PRB'', Some ''unknown'', None]"

definition jk_ajp_get_state :: "ajp_worker \<Rightarrow> string option ub" where
  "jk_ajp_get_state aw = (let n = sa_state (aw_s aw) in if n < 0 then None else rd ajp_state_type (nat n))"

definition jk_ajp_get_state_code :: "string option \<Rightarrow> int" where
  "jk_ajp_get_state_code v =
     (case v of
        None \<Rightarrow> 0
      | Some t \<Rightarrow>
          let c = (case t of [] \<Rightarrow> NUL | x # _ \<Rightarrow> x) in
          if c \<in> set ''iInN0'' then 0
          else if c \<in> set ''oO1'' then 1
          else if c \<in> set ''eE4'' then 2
          else if c \<in> set ''pP6'' then 3
          else 0)"

section \<open>The request\<close>

text \<open>The fields of \<open>jk_ws_service_t\<close> that the balancer does not use. \<open>rq_flush\<close> and \<open>rq_done\<close> tell whether the web
  server has these callbacks.\<close>

record ws_request = jk_ws_service +
  rq_method :: string
  rq_protocol :: "string option"
  rq_remote_addr :: "string option"
  rq_remote_port :: "string option"
  rq_remote_host :: "string option"
  rq_remote_user :: "string option"
  rq_auth_type :: "string option"
  rq_query_string :: "string option"
  rq_server_name :: "string option"
  rq_local_addr :: "string option"
  rq_server_port :: u32
  rq_content_length :: u64
  rq_is_chunked :: bool
  rq_no_more_chunks :: bool
  rq_content_read :: u64
  rq_ssl_protocol :: "string option"
  rq_ssl_cert :: "string option"
  rq_ssl_cert_len :: u32
  rq_ssl_cipher :: "string option"
  rq_ssl_session :: "string option"
  rq_ssl_key_size :: int
  rq_attributes :: "(string \<times> string option) list"
  rq_secret :: "string option"
  rq_flush_packets :: bool
  rq_flush_header :: bool
  rq_reply_timeout :: int
  rq_fail_on_status :: "int list"
  rq_use_server_error_pages :: int
  rq_response_started :: bool
  rq_response_blocked :: bool
  rq_http_response_status :: int
  rq_flush :: bool
  rq_done :: bool
  rq_disable_reuse :: bool

section \<open>Marshalling a request\<close>

text \<open>The arguments of the append operations in their order; \<open>F_mem\<close> is a string in memory, read up to its
  terminator. The first operation that fails ends the function.\<close>

datatype field = F_byte u8 | F_int u16 | F_str "string option" | F_mem string

fun put_field :: "field \<Rightarrow> jk_msg_buf \<Rightarrow> (int \<times> jk_msg_buf) ub" where
  "put_field (F_byte b) m = jk_b_append_byte m b"
| "put_field (F_int v) m = jk_b_append_int m v"
| "put_field (F_str s) m = jk_b_append_string m s"
| "put_field (F_mem buf) m = do { s \<leftarrow> str_at buf 0; jk_b_append_string m (Some s) }"

fun put_fields :: "field list \<Rightarrow> jk_msg_buf \<Rightarrow> (bool \<times> jk_msg_buf) ub" where
  "put_fields [] m = Some (True, m)"
| "put_fields (f # fs) m = do { (rc, m') \<leftarrow> put_field f m; if rc \<noteq> 0 then Some (False, m') else put_fields fs m' }"

definition JK_AJP13_FORWARD_REQUEST :: u8 where
  "JK_AJP13_FORWARD_REQUEST = 2"

definition begin_fields :: "ws_request \<Rightarrow> int \<Rightarrow> field list" where
  "begin_fields s method =
     [F_byte JK_AJP13_FORWARD_REQUEST, F_byte (word_of_int method), F_str (rq_protocol s), F_mem (sv_req_uri s),
      F_str (rq_remote_addr s), F_str (rq_remote_host s), F_str (rq_server_name s), F_int (ucast (rq_server_port s)),
      F_byte (if sv_is_ssl s then 1 else 0), F_int (of_nat (length (sv_headers s)))]"

definition header_fields :: "string \<Rightarrow> string \<times> string \<Rightarrow> field list" where
  "header_fields junk h =
     (let sc = sc_for_req_header junk (fst h) in
      [if sc \<noteq> UNKNOWN_METHOD then F_int (word_of_int sc) else F_str (Some (fst h)), F_mem (snd h)])"

definition opt_field :: "u8 \<Rightarrow> string option \<Rightarrow> field list" where
  "opt_field c v = (if v \<noteq> None then [F_byte c, F_str v] else [])"

definition attr_fields :: "string \<times> string option \<Rightarrow> field list" where
  "attr_fields a = [F_byte SC_A_REQ_ATTRIBUTE, F_str (Some (fst a)), F_str (snd a)]"

definition option_fields :: "ws_request \<Rightarrow> int \<Rightarrow> field list" where
  "option_fields s method =
     opt_field SC_A_SECRET (rq_secret s) @ opt_field SC_A_REMOTE_USER (rq_remote_user s) @
     opt_field SC_A_AUTH_TYPE (rq_auth_type s) @ opt_field SC_A_QUERY_STRING (rq_query_string s) @
     opt_field SC_A_ROUTE (sv_route s) @
     (if rq_ssl_cert_len s \<noteq> 0 then [F_byte SC_A_SSL_CERT, F_str (rq_ssl_cert s)] else []) @
     opt_field SC_A_SSL_CIPHER (rq_ssl_cipher s) @ opt_field SC_A_SSL_SESSION (rq_ssl_session s) @
     (if rq_ssl_key_size s \<noteq> - 1 then [F_byte SC_A_SSL_KEY_SIZE, F_int (word_of_int (rq_ssl_key_size s))] else []) @
     (if method = SC_M_JK_STORED then [F_byte SC_A_STORED_METHOD, F_str (Some (rq_method s))] else [])"

definition request_attrs :: "ws_request \<Rightarrow> (string \<times> string option) list" where
  "request_attrs s =
     (if rq_ssl_protocol s \<noteq> None \<and> rq_ssl_protocol s \<noteq> Some [] then [(''AJP_SSL_PROTOCOL'', rq_ssl_protocol s)] else []) @
     [(''AJP_REMOTE_PORT'', rq_remote_port s), (''AJP_LOCAL_ADDR'', rq_local_addr s), (''JK_LB_ACTIVATION'', sv_activation s)] @
     rq_attributes s"

definition request_method :: "ws_request \<Rightarrow> int" where
  "request_method s =
     (let method = sc_for_req_method (rq_method s) in if method = UNKNOWN_METHOD then SC_M_JK_STORED else method)"

definition request_fields :: "string \<Rightarrow> ws_request \<Rightarrow> field list" where
  "request_fields junk s =
     begin_fields s (request_method s) @ concat (map (header_fields junk) (sv_headers s)) @
     option_fields s (request_method s) @ concat (map attr_fields (request_attrs s)) @ [F_byte SC_A_ARE_DONE]"

definition ajp_marshal_into_msgb :: "string \<Rightarrow> jk_msg_buf \<Rightarrow> ws_request \<Rightarrow> (bool \<times> jk_msg_buf) ub" where
  "ajp_marshal_into_msgb junk msg s = put_fields (request_fields junk s) msg"

section \<open>Reading a response\<close>

text \<open>A header name is a constant of the program (null for the code 0) or a position in the message; a value
  is a position.\<close>

datatype res_name = Res_const "string option" | Res_offset int

record jk_res_data =
  rs_status :: int
  rs_msg :: "int option"
  rs_num_headers :: nat
  rs_headers :: "(res_name \<times> int) list option"

definition get_res_name :: "jk_msg_buf \<Rightarrow> (res_name option \<times> jk_msg_buf) ub" where
  "get_res_name msg =
     do {
       name \<leftarrow> jk_b_pget_int msg (mb_pos msg);
       if name AND 0xFF00 = 0xA000 then
         do {
           (_, msg1) \<leftarrow> jk_b_get_int msg;
           let sc = name AND 0x00FF in
           Some (if sc \<le> SC_RES_HEADERS_NUM then Some (Res_const (long_res_header_for_sc sc)) else None, msg1)
         }
       else do { (r, msg1) \<leftarrow> jk_b_get_string msg; Some (map_option Res_offset r, msg1) }
     }"

fun get_res_headers :: "nat \<Rightarrow> jk_msg_buf \<Rightarrow> ((res_name \<times> int) list option \<times> jk_msg_buf) ub" where
  "get_res_headers 0 msg = Some (Some [], msg)"
| "get_res_headers (Suc n) msg =
     do {
       (nm, msg1) \<leftarrow> get_res_name msg;
       (case nm of
          None \<Rightarrow> Some (None, msg1)
        | Some x \<Rightarrow>
            do {
              (v, msg2) \<leftarrow> jk_b_get_string msg1;
              (case v of
                 None \<Rightarrow> Some (None, msg2)
               | Some off \<Rightarrow> do { (r, msg3) \<leftarrow> get_res_headers n msg2; Some (map_option (\<lambda>hs. (x, off) # hs) r, msg3) })
            })
     }"

text \<open>The arrays for the headers come from the pool of the endpoint. If it has no memory the function returns
  true with the arrays null.\<close>

definition ajp_unmarshal_response :: "mem \<Rightarrow> jk_msg_buf \<Rightarrow> (jk_res_data option \<times> jk_msg_buf \<times> mem) ub" where
  "ajp_unmarshal_response p msg =
     do {
       (status, msg1) \<leftarrow> jk_b_get_int msg;
       if status = 0 then Some (None, msg1, p)
       else do {
         (txt, msg2) \<leftarrow> jk_b_get_string msg1;
         (num, msg3) \<leftarrow> jk_b_get_int msg2;
         let d = \<lparr>rs_status = uint status, rs_msg = txt, rs_num_headers = unat num, rs_headers = None\<rparr> in
         if num = 0 then Some (Some d, msg3, p)
         else do {
           (names, p1) \<leftarrow> jk_pool_alloc p (8 * ucast num);
           (vals, p2) \<leftarrow> jk_pool_alloc p1 (8 * ucast num);
           if names = None \<or> vals = None then Some (Some d, msg3, p2)
           else do {
             (r, msg4) \<leftarrow> get_res_headers (unat num) msg3;
             Some (map_option (\<lambda>hs. d\<lparr>rs_headers := Some hs\<rparr>) r, msg4, p2)
           }
         }
       }
     }"

text \<open>The strings the web server sees when it follows these pointers.\<close>

definition res_text :: "jk_msg_buf \<Rightarrow> res_name \<times> int \<Rightarrow> (string option \<times> string) ub" where
  "res_text msg h =
     do {
       n \<leftarrow> (case fst h of Res_const c \<Rightarrow> Some c | Res_offset off \<Rightarrow> do { t \<leftarrow> cstr_at (mb_buf msg) off; Some (Some t) });
       v \<leftarrow> cstr_at (mb_buf msg) (snd h);
       Some (n, v)
     }"

fun res_texts :: "jk_msg_buf \<Rightarrow> (res_name \<times> int) list \<Rightarrow> (string option \<times> string) list ub" where
  "res_texts msg [] = Some []"
| "res_texts msg (h # hs) = do { x \<leftarrow> res_text msg h; xs \<leftarrow> res_texts msg hs; Some (x # xs) }"

section \<open>Keyword tables\<close>

text \<open>What the two searches are to find.\<close>

definition req_methods :: "(string \<times> int) list" where
  "req_methods =
     [(''OPTIONS'', SC_M_OPTIONS), (''GET'', SC_M_GET), (''HEAD'', SC_M_HEAD), (''POST'', SC_M_POST), (''PUT'',
      SC_M_PUT), (''DELETE'', SC_M_DELETE), (''TRACE'', SC_M_TRACE), (''PROPFIND'', SC_M_PROPFIND),
      (''PROPPATCH'', SC_M_PROPPATCH), (''MKCOL'', SC_M_MKCOL), (''COPY'', SC_M_COPY), (''MOVE'', SC_M_MOVE),
      (''LOCK'', SC_M_LOCK), (''UNLOCK'', SC_M_UNLOCK), (''ACL'', SC_M_ACL), (''REPORT'', SC_M_REPORT),
      (''VERSION-CONTROL'', SC_M_VERSION_CONTROL), (''CHECKIN'', SC_M_CHECKIN), (''CHECKOUT'', SC_M_CHECKOUT),
      (''UNCHECKOUT'', SC_M_UNCHECKOUT), (''SEARCH'', SC_M_SEARCH), (''MKWORKSPACE'', SC_M_MKWORKSPACE),
      (''UPDATE'', SC_M_UPDATE), (''LABEL'', SC_M_LABEL), (''MERGE'', SC_M_MERGE), (''BASELINE-CONTROL'',
      SC_M_BASELINE_CONTROL), (''MKACTIVITY'', SC_M_MKACTIVITY)]"

definition req_headers :: "(string \<times> int) list" where
  "req_headers =
     [(''ACCEPT'', SC_ACCEPT), (''AUTHORIZATION'', SC_AUTHORIZATION), (''CONNECTION'', SC_CONNECTION),
      (''CONTENT-TYPE'', SC_CONTENT_TYPE), (''CONTENT-LENGTH'', SC_CONTENT_LENGTH), (''COOKIE'', SC_COOKIE),
      (''COOKIE2'', SC_COOKIE2), (''HOST'', SC_HOST), (''PRAGMA'', SC_PRAGMA), (''REFERER'', SC_REFERER),
      (''USER-AGENT'', SC_USER_AGENT)]"

definition keyword :: "(string \<times> int) list \<Rightarrow> string \<Rightarrow> int" where
  "keyword t w = (case map_of t w of None \<Rightarrow> UNKNOWN_METHOD | Some c \<Rightarrow> c)"

lemma memeq_whole: "length b = length w \<Longrightarrow> memeq b w \<longleftrightarrow> b = w"
  by (simp add: memeq_def)

lemma chars_whole:
  "length m = 3 \<Longrightarrow> m = [a, b, c] \<longleftrightarrow> m ! 0 = a \<and> m ! 1 = b \<and> m ! 2 = c"
  "length m = 4 \<Longrightarrow> m = [a, b, c, d] \<longleftrightarrow> m ! 0 = a \<and> m ! 1 = b \<and> m ! 2 = c \<and> m ! 3 = d"
  by (auto simp: length_Suc_conv numeral_eq_Suc)

lemma length_neq: "length b \<noteq> length w \<Longrightarrow> b \<noteq> w"
  by auto

text \<open>The nested switch of \<open>sc_for_req_method\<close> is the lookup in the table of methods.\<close>

theorem method_codes: "sc_for_req_method m = keyword req_methods m"
proof (cases "length m \<in> {3, 4, 5, 6, 7, 8, 9, 10, 11, 15, 16}")
  case True
  then show ?thesis
    apply (simp only: insert_iff empty_iff simp_thms)
    apply (elim disjE)
    apply (simp_all add: sc_for_req_method_def keyword_def req_methods_def memeq_whole chars_whole length_neq)
    done
next
  case False
  moreover have "length w \<in> {3, 4, 5, 6, 7, 8, 9, 10, 11, 15, 16}" if "(w, c) \<in> set req_methods" for w c
    using that unfolding req_methods_def list.set insert_iff prod.inject by (elim disjE conjE emptyE) simp_all
  ultimately have "map_of req_methods m = None" by (metis map_of_SomeD not_None_eq)
  then show ?thesis using False by (simp add: sc_for_req_method_def keyword_def)
qed

lemma toupper_NUL: "toupper c = NUL \<longleftrightarrow> c = NUL"
proof (cases "islower c")
  case True
  then have "code (char_of (code c - 32)) \<noteq> 0" "code c \<noteq> 0" unfolding code_char_of islower_def by auto
  then show ?thesis using True by (metis code_NUL toupper_def)
qed (simp add: toupper_def)

lemma memeq0_iff:
  assumes "NUL \<notin> set u" and "NUL \<notin> set w" and "k \<le> length u"
  shows "memeq0 (u @ NUL # j) k w \<longleftrightarrow> drop k u = w"
proof
  have n: "NUL \<notin> set (drop k u)" using assms(1) by (meson in_set_dropD)
  assume "memeq0 (u @ NUL # j) k w"
  then have e: "take (length w + 1) (drop k u @ NUL # j) = w @ [NUL]" using assms(3) by (simp add: memeq0_def)
  consider "length (drop k u) < length w" | "length (drop k u) = length w" | "length w < length (drop k u)" by linarith
  then show "drop k u = w"
  proof cases
    case 1
    then have "(w @ [NUL]) ! length (drop k u) = NUL" using arg_cong [OF e, of "\<lambda>x. x ! length (drop k u)"] by (simp add: nth_append)
    then show ?thesis using 1 assms(2) by (metis nth_append nth_mem)
  next
    case 2
    then show ?thesis using e by simp
  next
    case 3
    then have "drop k u ! length w = NUL" using arg_cong [OF e, of "\<lambda>x. x ! length w"] by (simp add: nth_append)
    then show ?thesis using 3 n by (metis nth_mem)
  qed
qed (simp add: memeq0_def assms(3))

text \<open>Claim C40: the search of \<open>sc_for_req_header\<close>, whatever the array held before, is the lookup of the
  name in upper case in a table that lacks \<open>Accept-Charset\<close>, \<open>Accept-Encoding\<close> and \<open>Accept-Language\<close>, although
  the function has branches for them.\<close>

theorem header_codes:
  assumes "is_cstr n"
  shows "sc_for_req_header junk n = keyword req_headers (map toupper n)"
proof (cases "4 \<le> length n \<and> length n \<le> 15")
  case True
  let ?u = "map toupper n"
  have u: "NUL \<notin> set ?u" using assms unfolding is_cstr_def set_map by (metis imageE toupper_NUL)
  have m: "memeq0 (?u @ NUL # j) (Suc k) w \<longleftrightarrow> drop (Suc k) ?u = w" if "NUL \<notin> set w" "k < 4" for j k w
    by (rule memeq0_iff [OF u that(1)]) (use True that in simp)
  obtain a v where av: "?u = a # v" using True by (cases ?u) auto
  have "memeq0 (a # v @ NUL # j) (Suc 0) w \<longleftrightarrow> v = w" if "NUL \<notin> set w" for j w
    using m [OF that, of 0 j] unfolding av by simp
  from this have h: "memeq0 (?u @ NUL # j) (Suc 0) w \<longleftrightarrow> v = w" if "NUL \<notin> set w" for j w using that av by simp
  have a: "(?u @ [NUL] @ j) ! 0 = a" for j using av by simp
  have len: "\<not> (length n < 4 \<or> length n > 15)" using True by simp
  consider "a = CHR ''A''" "v = ''CCEPT''" | "a = CHR ''A''" "v \<noteq> ''CCEPT''" | "a = CHR ''C''" | "a = CHR ''H''"
    | "a = CHR ''P''" | "a = CHR ''R''" | "a = CHR ''U''" | "a \<notin> set ''ACHPRU''" by auto
  note cs = this and d = sc_for_req_header_def Let_def if_not_P [OF len] a keyword_def req_headers_def
  from cs show ?thesis
  proof cases
    case 1
    then show ?thesis unfolding d by (simp add: av memeq0_def)
  qed (unfold d, simp_all add: h cong: if_cong split del: if_split, simp_all add: av)
next
  case False
  have "4 \<le> length w \<and> length w \<le> 15" if "(w, c) \<in> set req_headers" for w c
    using that unfolding req_headers_def list.set insert_iff prod.inject by (elim disjE conjE emptyE) simp_all
  then have "map_of req_headers (map toupper n) = None" using False by (metis length_map map_of_SomeD not_None_eq)
  moreover have "length n < 4 \<or> length n > 15" using False by linarith
  ultimately show ?thesis unfolding sc_for_req_header_def keyword_def Let_def by (simp only: if_True option.case)
qed

section \<open>What is written\<close>

text \<open>A string in memory, for a block that is terminated.\<close>

definition mem_str :: "string \<Rightarrow> string" where
  "mem_str buf = takeWhile (\<lambda>c. c \<noteq> NUL) buf"

fun enc_field :: "field \<Rightarrow> u8 list" where
  "enc_field (F_byte b) = [b]"
| "enc_field (F_int v) = int_bytes v"
| "enc_field (F_str s) = enc_opt s"
| "enc_field (F_mem buf) = enc_string (mem_str buf)"

fun field_ok :: "field \<Rightarrow> bool" where
  "field_ok (F_str (Some t)) \<longleftrightarrow> is_cstr t \<and> length t < 0xFFFF"
| "field_ok (F_mem buf) \<longleftrightarrow> NUL \<in> set buf \<and> length (mem_str buf) < 0xFFFF"
| "field_ok f \<longleftrightarrow> True"

abbreviation enc_fields :: "field list \<Rightarrow> u8 list" where
  "enc_fields fs \<equiv> concat (map enc_field fs)"

lemma str_at_mem: "NUL \<in> set buf \<Longrightarrow> str_at buf 0 = Some (mem_str buf)"
  by (simp add: str_at_def mem_str_def)

lemma append_null:
  assumes "msg_wf m"
  shows "jk_b_append_string m None = Some (0, if fits m (int_bytes 0xFFFF) then appended m (int_bytes 0xFFFF) else m)"
  using append_scalar_spec(1) [OF assms, of "0xFFFF"] by (simp add: jk_b_append_string_def)

lemma put_field_spec:
  assumes "msg_wf m" and "field_ok f"
  shows "put_field f m =
    Some (if fits m (enc_field f) then (0, appended m (enc_field f)) else if f = F_str None then (0, m) else (- 1, m))"
  using assms append_string_spec [OF assms(1)]
  by (cases "(f, m)" rule: put_field.cases)
    (auto simp: append_scalar_spec append_null enc_opt_def str_at_mem split: option.splits)

declare put_field.simps [simp del]

lemma put_fields_fit:
  "msg_wf m \<Longrightarrow> list_all field_ok fs \<Longrightarrow> fits m (enc_fields fs) \<Longrightarrow> put_fields fs m = Some (True, appended m (enc_fields fs))"
proof (induction fs arbitrary: m)
  case Nil
  then show ?case by (simp add: appended_def)
next
  case (Cons f fs)
  then have f: "fits m (enc_field f @ enc_fields fs)" by simp
  from fits_append [OF f] Cons show ?case by (simp add: put_field_spec appended_append)
qed

text \<open>The operations that fail when less than two bytes are free.\<close>

fun big :: "field \<Rightarrow> bool" where
  "big (F_byte b) \<longleftrightarrow> False"
| "big (F_str None) \<longleftrightarrow> False"
| "big f \<longleftrightarrow> True"

lemma put_fields_full:
  "msg_wf m \<Longrightarrow> list_all field_ok fs \<Longrightarrow> mb_maxlen m - mb_len m \<le> 1 \<Longrightarrow> \<exists>f \<in> set fs. big f \<Longrightarrow>
     \<exists>m'. put_fields fs m = Some (False, m')"
proof (induction fs arbitrary: m)
  case (Cons f fs)
  show ?case
  proof (cases "fits m (enc_field f)")
    case True
    then have "\<not> big f" using Cons.prems(3) by (cases f rule: big.cases) (auto simp: fits_def enc_opt_def)
    then show ?thesis using Cons True by (simp add: put_field_spec)
  next
    case False
    then show ?thesis using Cons by (cases "f = F_str None") (simp_all add: put_field_spec)
  qed
qed simp

text \<open>Every null string has a later operation that fails if the null did not fit.\<close>

fun covered :: "field list \<Rightarrow> bool" where
  "covered [] \<longleftrightarrow> True"
| "covered (f # fs) \<longleftrightarrow> (f = F_str None \<longrightarrow> (\<exists>g \<in> set fs. big g)) \<and> covered fs"

lemma put_fields_over:
  "msg_wf m \<Longrightarrow> list_all field_ok fs \<Longrightarrow> covered fs \<Longrightarrow> \<not> fits m (enc_fields fs) \<Longrightarrow>
     \<exists>m'. put_fields fs m = Some (False, m')"
proof (induction fs arbitrary: m)
  case Nil
  then show ?case by (simp add: fits_def msg_wf_def)
next
  case (Cons f fs)
  show ?case
  proof (cases "fits m (enc_field f)")
    case True
    then have "\<not> fits (appended m (enc_field f)) (enc_fields fs)" using Cons.prems(4) by (simp add: fits_def)
    then show ?thesis using Cons True by (simp add: put_field_spec)
  next
    case False
    show ?thesis
    proof (cases "f = F_str None")
      case True
      then have "mb_maxlen m - mb_len m \<le> 1" using False by (simp add: fits_def enc_opt_def)
      then show ?thesis using put_fields_full [of m fs] Cons.prems True False by (simp add: put_field_spec)
    next
      case f: False
      then show ?thesis using Cons.prems False by (simp add: put_field_spec)
    qed
  qed
qed

lemma put_fields_append:
  "msg_wf m \<Longrightarrow> list_all field_ok fs \<Longrightarrow> fits m (enc_fields fs) \<Longrightarrow> put_fields (fs @ gs) m = put_fields gs (appended m (enc_fields fs))"
proof (induction fs arbitrary: m)
  case Nil
  then show ?case by (simp add: appended_def)
next
  case (Cons f fs)
  then have f: "fits m (enc_field f @ enc_fields fs)" by simp
  from fits_append [OF f] Cons show ?case by (simp add: put_field_spec appended_append)
qed

lemma put_fields_stop: "put_fields fs m = Some (False, m') \<Longrightarrow> put_fields (fs @ gs) m = Some (False, m')"
  by (induction fs arbitrary: m) (auto simp: ub_simps split: if_splits)

text \<open>A null string just before the last byte: the one case in which success does not mean that all was
  written.\<close>

lemma put_fields_last_null:
  assumes "msg_wf m" and "list_all field_ok fs" and "covered fs"
  shows "\<exists>ok m'. put_fields (fs @ [F_str None, F_byte b]) m = Some (ok, m') \<and>
    (ok \<longleftrightarrow> fits m (enc_fields (fs @ [F_str None, F_byte b])) \<or>
            mb_len m + int (length (enc_fields (fs @ [F_str None, F_byte b]))) = mb_maxlen m + 2)"
proof (cases "fits m (enc_fields fs)")
  case True
  let ?m = "appended m (enc_fields fs)"
  have wf: "msg_wf ?m" using assms True by simp
  have e: "put_fields (fs @ [F_str None, F_byte b]) m = put_fields [F_str None, F_byte b] ?m"
    using put_fields_append [OF assms(1,2) True] .
  show ?thesis
  proof (cases "fits ?m (enc_opt None)")
    case n: True
    then have "msg_wf (appended ?m (enc_opt None))" using wf by simp
    then show ?thesis using n unfolding e by (auto simp: put_field_spec wf) (auto simp: fits_def enc_opt_def)
  next
    case n: False
    then show ?thesis unfolding e by (auto simp: put_field_spec wf) (auto simp: fits_def enc_opt_def)
  qed
next
  case False
  from put_fields_over [OF assms False] obtain m' where "put_fields fs m = Some (False, m')" ..
  from put_fields_stop [OF this] False show ?thesis by (auto simp: fits_def enc_opt_def)
qed

section \<open>A reader of requests\<close>

text \<open>The message structure as the comment above \<open>ajp_marshal_into_msgb\<close> describes it, read by a container.\<close>

fun p_int :: "u8 list \<Rightarrow> (u16 \<times> u8 list) option" where
  "p_int (b1 # b0 # r) = Some (int_of_bytes b1 b0, r)"
| "p_int _ = None"

definition p_str :: "u8 list \<Rightarrow> (string option \<times> u8 list) option" where
  "p_str bs =
     do {
       (n, r) \<leftarrow> p_int bs;
       if n = 0xFFFF then Some (None, r)
       else if unat n < length r \<and> r ! unat n = 0
       then Some (Some (map (\<lambda>w. char_of (unat w)) (take (unat n) r)), drop (unat n + 1) r)
       else None
     }"

definition p_name :: "u8 list \<Rightarrow> ((u16 + string option) \<times> u8 list) option" where
  "p_name bs =
     do {
       (c, r) \<leftarrow> p_int bs;
       if c AND 0xFF00 = 0xA000 then Some (Inl c, r) else do { (n, r2) \<leftarrow> p_str bs; Some (Inr n, r2) }
     }"

fun p_headers :: "nat \<Rightarrow> u8 list \<Rightarrow> (((u16 + string option) \<times> string option) list \<times> u8 list) option" where
  "p_headers 0 bs = Some ([], bs)"
| "p_headers (Suc n) bs =
     do { (x, r) \<leftarrow> p_name bs; (v, r2) \<leftarrow> p_str r; (hs, r3) \<leftarrow> p_headers n r2; Some ((x, v) # hs, r3) }"

datatype attr = At_text u8 "string option" | At_size u16 | At_named "string option" "string option"

lemma p_int_shorter: "p_int bs = Some (v, r) \<Longrightarrow> length r + 2 = length bs"
  by (cases bs rule: p_int.cases) auto

lemma p_str_shorter: "p_str bs = Some (v, r) \<Longrightarrow> length r < length bs"
  by (auto simp: p_str_def ub_simps dest: p_int_shorter split: if_splits)

function p_attrs :: "u8 list \<Rightarrow> (attr list \<times> u8 list) option" where
  "p_attrs [] = None"
| "p_attrs (c # r) =
     (if c = 0xFF then Some ([], r)
      else if c = 10 then
        (case p_str r of
           None \<Rightarrow> None
         | Some (n, r1) \<Rightarrow>
             (case p_str r1 of
                None \<Rightarrow> None
              | Some (v, r2) \<Rightarrow> map_option (\<lambda>(as, r3). (At_named n v # as, r3)) (p_attrs r2)))
      else if c = 11 then
        (case p_int r of None \<Rightarrow> None | Some (v, r1) \<Rightarrow> map_option (\<lambda>(as, r2). (At_size v # as, r2)) (p_attrs r1))
      else
        (case p_str r of None \<Rightarrow> None | Some (v, r1) \<Rightarrow> map_option (\<lambda>(as, r2). (At_text c v # as, r2)) (p_attrs r1)))"
  by pat_completeness auto
termination
  by (relation "measure length") (auto dest!: p_str_shorter p_int_shorter)

record ajp_decoded =
  dc_method :: u8
  dc_protocol :: "string option"
  dc_req_uri :: "string option"
  dc_remote_addr :: "string option"
  dc_remote_host :: "string option"
  dc_server_name :: "string option"
  dc_server_port :: u16
  dc_is_ssl :: u8
  dc_headers :: "((u16 + string option) \<times> string option) list"
  dc_attrs :: "attr list"

fun p_request :: "u8 list \<Rightarrow> (ajp_decoded \<times> u8 list) option" where
  "p_request (k # me # r) =
     (if k \<noteq> JK_AJP13_FORWARD_REQUEST then None
      else do {
        (pr, r) \<leftarrow> p_str r; (u, r) \<leftarrow> p_str r; (ra, r) \<leftarrow> p_str r; (rh, r) \<leftarrow> p_str r; (sn, r) \<leftarrow> p_str r;
        (po, r) \<leftarrow> p_int r;
        (case r of
           [] \<Rightarrow> None
         | ssl # r \<Rightarrow>
             do {
               (n, r) \<leftarrow> p_int r;
               (hs, r) \<leftarrow> p_headers (unat n) r;
               (as, r) \<leftarrow> p_attrs r;
               Some (\<lparr>dc_method = me, dc_protocol = pr, dc_req_uri = u, dc_remote_addr = ra, dc_remote_host = rh,
                      dc_server_name = sn, dc_server_port = po, dc_is_ssl = ssl, dc_headers = hs, dc_attrs = as\<rparr>, r)
             })
      })"
| "p_request _ = None"

text \<open>What it is to find.\<close>

definition sent_name :: "string \<Rightarrow> u16 + string option" where
  "sent_name n = (let c = keyword req_headers (map toupper n) in if c \<noteq> UNKNOWN_METHOD then Inl (word_of_int c) else Inr (Some n))"

definition opt_attr :: "u8 \<Rightarrow> string option \<Rightarrow> attr list" where
  "opt_attr c v = (if v \<noteq> None then [At_text c v] else [])"

definition sent_attrs :: "ws_request \<Rightarrow> attr list" where
  "sent_attrs s =
     opt_attr SC_A_SECRET (rq_secret s) @ opt_attr SC_A_REMOTE_USER (rq_remote_user s) @
     opt_attr SC_A_AUTH_TYPE (rq_auth_type s) @ opt_attr SC_A_QUERY_STRING (rq_query_string s) @
     opt_attr SC_A_ROUTE (sv_route s) @
     (if rq_ssl_cert_len s \<noteq> 0 then [At_text SC_A_SSL_CERT (rq_ssl_cert s)] else []) @
     opt_attr SC_A_SSL_CIPHER (rq_ssl_cipher s) @ opt_attr SC_A_SSL_SESSION (rq_ssl_session s) @
     (if rq_ssl_key_size s \<noteq> - 1 then [At_size (word_of_int (rq_ssl_key_size s))] else []) @
     (if keyword req_methods (rq_method s) = UNKNOWN_METHOD then [At_text SC_A_STORED_METHOD (Some (rq_method s))] else []) @
     map (\<lambda>(n, v). At_named (Some n) v) (request_attrs s)"

definition sent_request :: "ws_request \<Rightarrow> ajp_decoded" where
  "sent_request s =
     \<lparr>dc_method = (let c = keyword req_methods (rq_method s) in if c = UNKNOWN_METHOD then 0xFF else word_of_int c),
      dc_protocol = rq_protocol s, dc_req_uri = Some (mem_str (sv_req_uri s)), dc_remote_addr = rq_remote_addr s,
      dc_remote_host = rq_remote_host s, dc_server_name = rq_server_name s, dc_server_port = ucast (rq_server_port s),
      dc_is_ssl = (if sv_is_ssl s then 1 else 0),
      dc_headers = map (\<lambda>(n, v). (sent_name n, Some (mem_str v))) (sv_headers s), dc_attrs = sent_attrs s\<rparr>"

section \<open>Reading back\<close>

lemma p_int_bytes [simp]: "p_int (int_bytes v @ r) = Some (v, r)"
  by (simp add: int_bytes_def int_of_bytes_inverse)

lemma p_str_enc:
  assumes "field_ok (F_str v)"
  shows "p_str (enc_opt v @ r) = Some (v, r)"
proof (cases v)
  case None
  then show ?thesis by (simp add: p_str_def enc_opt_def)
next
  case (Some t)
  then have len: "length t < 0xFFFF" using assms by simp
  then have n: "unat (of_nat (length t) :: u16) = length t" by (simp add: u16_of_nat)
  have "(of_nat (length t) :: u16) \<noteq> 0xFFFF"
  proof
    assume "(of_nat (length t) :: u16) = 0xFFFF"
    then have "unat (of_nat (length t) :: u16) = 0xFFFF" by simp
    with n len show False by simp
  qed
  then show ?thesis using Some n by (simp add: p_str_def enc_opt_def enc_string_def nth_append bytes_of_def o_def)
qed

lemma p_str_mem: "field_ok (F_mem b) \<Longrightarrow> p_str (enc_string (mem_str b) @ r) = Some (Some (mem_str b), r)"
  using p_str_enc [of "Some (mem_str b)" r] by (auto simp: enc_opt_def is_cstr_def mem_str_def dest: set_takeWhileD)

fun attr_ok :: "attr \<Rightarrow> bool" where
  "attr_ok (At_text c v) \<longleftrightarrow> c \<notin> {10, 11, 0xFF} \<and> field_ok (F_str v)"
| "attr_ok (At_size v) \<longleftrightarrow> True"
| "attr_ok (At_named n v) \<longleftrightarrow> field_ok (F_str n) \<and> field_ok (F_str v)"

fun fields_of :: "attr \<Rightarrow> field list" where
  "fields_of (At_text c v) = [F_byte c, F_str v]"
| "fields_of (At_size v) = [F_byte SC_A_SSL_KEY_SIZE, F_int v]"
| "fields_of (At_named n v) = [F_byte SC_A_REQ_ATTRIBUTE, F_str n, F_str v]"

lemma p_attrs_enc:
  "list_all attr_ok as \<Longrightarrow> p_attrs (enc_fields (concat (map fields_of as)) @ 0xFF # r) = Some (as, r)"
proof (induction as)
  case (Cons a as)
  then show ?case by (cases a) (simp_all add: p_str_enc sc_a_defs)
qed simp

lemma keyword_cases: "keyword t w = UNKNOWN_METHOD \<or> (w, keyword t w) \<in> set t"
  by (auto simp: keyword_def dest: map_of_SomeD split: option.split)

lemma header_code_mark:
  assumes "keyword req_headers w \<noteq> UNKNOWN_METHOD"
  shows "(word_of_int (keyword req_headers w) :: u16) AND 0xFF00 = 0xA000"
proof -
  have "(w, keyword req_headers w) \<in> set req_headers" using keyword_cases assms by blast
  then show ?thesis unfolding req_headers_def list.set insert_iff prod.inject sc_h_defs by (elim disjE conjE emptyE) simp_all
qed

lemma short_unmarked: "n < 0xA000 \<Longrightarrow> (of_nat n :: u16) AND 0xFF00 \<noteq> 0xA000"
proof
  assume n: "n < 0xA000" and e: "(of_nat n :: u16) AND 0xFF00 = 0xA000"
  then have "0xA000 \<le> (of_nat n :: u16)" using word_and_le2 [of "of_nat n :: u16" "0xFF00"] by (simp add: and.commute)
  then have "0xA000 \<le> unat (of_nat n :: u16)" by (simp add: word_le_nat_alt)
  then show False using n by (simp add: u16_of_nat)
qed

definition header_ok :: "string \<times> string \<Rightarrow> bool" where
  "header_ok h \<longleftrightarrow> is_cstr (fst h) \<and> length (fst h) < 0xA000 \<and> field_ok (F_mem (snd h))"

lemma p_name_enc:
  assumes "is_cstr n" and "length n < 0xA000"
  shows "p_name (enc_field (hd (header_fields junk (n, v))) @ r) = Some (sent_name n, r)"
proof (cases "keyword req_headers (map toupper n) = UNKNOWN_METHOD")
  case True
  have "p_str (enc_opt (Some n) @ r) = Some (Some n, r)" using assms by (intro p_str_enc) simp
  moreover have "p_int (enc_opt (Some n) @ r) = Some (of_nat (length n), bytes_of n @ 0 # r)"
    by (simp add: enc_opt_def enc_string_def)
  ultimately show ?thesis using True short_unmarked [OF assms(2)]
    by (simp add: p_name_def header_fields_def sent_name_def header_codes [OF assms(1)])
next
  case False
  then show ?thesis using header_code_mark [OF False]
    by (simp add: p_name_def header_fields_def sent_name_def header_codes [OF assms(1)])
qed

lemma p_headers_enc:
  "list_all header_ok hs \<Longrightarrow>
     p_headers (length hs) (enc_fields (concat (map (header_fields junk) hs)) @ r) =
       Some (map (\<lambda>(n, v). (sent_name n, Some (mem_str v))) hs, r)"
proof (induction hs)
  case (Cons h hs)
  obtain n v where h: "h = (n, v)" by (cases h)
  have "enc_fields (header_fields junk h) = enc_field (hd (header_fields junk h)) @ enc_string (mem_str v)"
    by (simp add: header_fields_def h Let_def)
  then show ?case using Cons p_name_enc [of n junk v] p_str_mem [of v] by (simp add: h header_ok_def)
qed simp

definition request_ok :: "ws_request \<Rightarrow> bool" where
  "request_ok s \<longleftrightarrow> list_all header_ok (sv_headers s) \<and> length (sv_headers s) < 65536 \<and>
     list_all field_ok (request_fields [] s)"

lemma option_fields_attrs:
  "option_fields s (request_method s) @ concat (map attr_fields (request_attrs s)) = concat (map fields_of (sent_attrs s))"
proof -
  have "request_method s = SC_M_JK_STORED \<longleftrightarrow> keyword req_methods (rq_method s) = UNKNOWN_METHOD"
  proof -
    have "c \<noteq> SC_M_JK_STORED" if "(w, c) \<in> set req_methods" for w c
      using that unfolding req_methods_def list.set insert_iff prod.inject sc_m_defs by (elim disjE conjE emptyE) simp_all
    then show ?thesis using keyword_cases [of req_methods "rq_method s"] by (auto simp: request_method_def method_codes Let_def)
  qed
  moreover have "concat (map attr_fields xs) = concat (map fields_of (map (\<lambda>(n, v). At_named (Some n) v) xs))" for xs
    by (induction xs) (auto simp: attr_fields_def)
  ultimately show ?thesis by (simp add: option_fields_def sent_attrs_def opt_field_def opt_attr_def del: map_map)
qed

lemma sent_attrs_ok:
  assumes "list_all field_ok (concat (map fields_of (sent_attrs s)))"
  shows "list_all attr_ok (sent_attrs s)"
proof -
  have "attr_ok a" if "a \<in> set (sent_attrs s)" for a
  proof -
    have "list_all field_ok (fields_of a)" using assms that by (fastforce simp: list_all_iff)
    moreover have "c \<notin> {10, 11, 0xFF}" if "a = At_text c v" for c v
      using that \<open>a \<in> set (sent_attrs s)\<close> by (auto simp: sent_attrs_def opt_attr_def sc_a_defs split: if_splits)
    ultimately show ?thesis by (cases a) auto
  qed
  then show ?thesis by (simp add: list_all_iff)
qed

definition enc_request :: "ws_request \<Rightarrow> u8 list" where
  "enc_request s = enc_fields (request_fields [] s)"

lemma fields_junk: "list_all header_ok hs \<Longrightarrow> map (header_fields junk) hs = map (header_fields []) hs"
  by (auto simp: header_fields_def header_codes header_ok_def list_all_iff)

lemma request_fields_junk: "request_ok s \<Longrightarrow> request_fields junk s = request_fields [] s"
  by (metis request_ok_def request_fields_def fields_junk)

lemma p_request_enc:
  assumes "request_ok s"
  shows "p_request (enc_request s @ r) = Some (sent_request s, r)"
proof -
  have ok: "list_all field_ok (request_fields [] s)" "list_all header_ok (sv_headers s)" "length (sv_headers s) < 65536"
    using assms by (simp_all add: request_ok_def)
  have b: "field_ok (F_str (rq_protocol s))" "field_ok (F_mem (sv_req_uri s))" "field_ok (F_str (rq_remote_addr s))"
    "field_ok (F_str (rq_remote_host s))" "field_ok (F_str (rq_server_name s))"
    using ok(1) by (simp_all add: request_fields_def begin_fields_def)
  have "list_all field_ok (concat (map fields_of (sent_attrs s)))"
    using ok(1) unfolding option_fields_attrs [symmetric] by (simp add: request_fields_def)
  note a = p_attrs_enc [OF sent_attrs_ok [OF this], of r]
  note h = p_headers_enc [OF ok(2), of "[]"]
  have me: "word_of_int (request_method s) = dc_method (sent_request s)"
    by (simp add: request_method_def method_codes sent_request_def Let_def SC_M_JK_STORED_def)
  have e: "enc_request s @ r = enc_fields (begin_fields s (request_method s)) @
      enc_fields (concat (map (header_fields []) (sv_headers s))) @ enc_fields (concat (map fields_of (sent_attrs s))) @ 0xFF # r"
    unfolding enc_request_def request_fields_def option_fields_attrs [symmetric] by (simp add: sc_a_defs)
  have n: "unat (of_nat (length (sv_headers s)) :: u16) = length (sv_headers s)" using ok(3) by (simp add: u16_of_nat)
  show ?thesis unfolding e using a h b me n
    by (simp add: begin_fields_def p_str_enc p_str_mem sent_request_def)
qed

section \<open>Marshalling\<close>

text \<open>Claim C7: a request that fits into the message is marshalled, whatever the message held before, to
  bytes from which a reader of the protocol gets back the method, the addresses, every header under its code
  or its name, and every attribute, in order, with nothing left over.\<close>

theorem request_roundtrip:
  assumes "msg_wf m" and "request_ok s" and "fits m (enc_request s)"
  shows "\<exists>m'. ajp_marshal_into_msgb junk m s = Some (True, m') \<and> msg_wf m' \<and>
    p_request (drop (length (payload m)) (payload m')) = Some (sent_request s, [])"
proof -
  have "list_all field_ok (request_fields [] s)" using assms(2) by (simp add: request_ok_def)
  then have "ajp_marshal_into_msgb junk m s = Some (True, appended m (enc_request s))"
    using put_fields_fit [OF assms(1), of "request_fields [] s"] assms(3)
    by (simp add: ajp_marshal_into_msgb_def request_fields_junk [OF assms(2), of junk] enc_request_def)
  moreover have "payload (appended m (enc_request s)) = payload m @ enc_request s"
    using payload_appended [OF assms(1,3)] .
  ultimately show ?thesis using assms p_request_enc [OF assms(2), of "[]"] by simp
qed

lemma covered_big: "\<exists>g \<in> set gs. big g \<Longrightarrow> covered gs \<Longrightarrow> covered (fs @ gs)"
  by (induction fs) auto

text \<open>The value of the last attribute, which is the activation when there are no others.\<close>

definition last_value :: "ws_request \<Rightarrow> string option" where
  "last_value s = snd (last (request_attrs s))"

lemma request_fields_last:
  "\<exists>fs n. request_fields junk s = (fs @ [F_byte SC_A_REQ_ATTRIBUTE, F_str (Some n)]) @ [F_str (last_value s), F_byte SC_A_ARE_DONE]"
proof -
  have "request_attrs s \<noteq> []" by (simp add: request_attrs_def)
  then obtain xs n where "request_attrs s = xs @ [(n, last_value s)]"
    unfolding last_value_def by (metis append_butlast_last_id prod.collapse)
  then show ?thesis by (simp add: request_fields_def attr_fields_def)
qed

text \<open>Claim C39: whether marshalling succeeds. It does exactly when the request fits, with one exception: if the
  value of the last attribute is null, it also reports success when two bytes are missing, and then the
  message lacks that value.\<close>

theorem request_fits_exact:
  assumes "msg_wf m" and "request_ok s"
  shows "\<exists>ok m'. ajp_marshal_into_msgb junk m s = Some (ok, m') \<and>
    (ok \<longleftrightarrow> mb_len m + int (length (enc_request s)) \<le> mb_maxlen m \<or>
            last_value s = None \<and> mb_len m + int (length (enc_request s)) = mb_maxlen m + 2)"
proof -
  have ok: "list_all field_ok (request_fields [] s)" using assms(2) by (simp add: request_ok_def)
  have mar: "ajp_marshal_into_msgb junk m s = put_fields (request_fields [] s) m"
    by (simp add: ajp_marshal_into_msgb_def request_fields_junk [OF assms(2), of junk])
  obtain fs n where f: "request_fields [] s = (fs @ [F_byte SC_A_REQ_ATTRIBUTE, F_str (Some n)]) @ [F_str (last_value s), F_byte SC_A_ARE_DONE]"
    using request_fields_last by blast
  have c: "covered (fs @ [F_byte SC_A_REQ_ATTRIBUTE, F_str (Some n)])" by (rule covered_big) simp_all
  show ?thesis
  proof (cases "last_value s")
    case None
    then show ?thesis using put_fields_last_null [OF assms(1) _ c, of SC_A_ARE_DONE] ok
      unfolding mar enc_request_def f by (simp add: fits_def)
  next
    case (Some v)
    have "covered (request_fields [] s)" unfolding f Some append_assoc by (rule covered_big) simp_all
    then show ?thesis using put_fields_over [OF assms(1) ok] put_fields_fit [OF assms(1) ok] Some
      unfolding mar enc_request_def by (cases "fits m (enc_fields (request_fields [] s))") (auto simp: fits_def)
  qed
qed

section \<open>What is read\<close>

lemma get_string_spec:
  assumes "msg_wf m" and "is_cstr s" "length s < 0xFFFF" and "unread m = enc_string s @ rest"
  shows "\<exists>off. jk_b_get_string m = Some (Some off, advanced m (length s + 3)) \<and> cstr_at (mb_buf m) off = Some s"
  using get_str_spec [OF assms] by (auto simp: get_str_def ub_simps split: option.splits)

lemma get_null_spec: "msg_wf m \<Longrightarrow> unread m = int_bytes 0xFFFF @ rest \<Longrightarrow> jk_b_get_string m = Some (None, advanced m 2)"
  by (simp add: jk_b_get_string_def get_int_spec)

lemma pget_int_spec:
  assumes "msg_wf m" and "unread m = int_bytes v @ rest"
  shows "jk_b_pget_int m (mb_pos m) = Some v"
  using rd_unread [OF assms(1), of 0] rd_unread [OF assms(1), of 1] assms(2)
  by (simp add: jk_b_pget_int_def int_bytes_def int_of_bytes_inverse)

text \<open>What a container sends: a name as its code or as a string.\<close>

definition enc_res_name :: "u16 + string \<Rightarrow> u8 list" where
  "enc_res_name n = (case n of Inl c \<Rightarrow> int_bytes (0xA000 + c) | Inr t \<Rightarrow> enc_string t)"

definition enc_res_header :: "(u16 + string) \<times> string \<Rightarrow> u8 list" where
  "enc_res_header h = enc_res_name (fst h) @ enc_string (snd h)"

definition enc_response :: "u16 \<Rightarrow> string option \<Rightarrow> ((u16 + string) \<times> string) list \<Rightarrow> u8 list" where
  "enc_response status txt hs =
     int_bytes status @ enc_opt txt @ int_bytes (of_nat (length hs)) @ concat (map enc_res_header hs)"

definition res_name_ok :: "u16 + string \<Rightarrow> bool" where
  "res_name_ok n = (case n of Inl c \<Rightarrow> 1 \<le> c \<and> c \<le> 11 | Inr t \<Rightarrow> is_cstr t \<and> length t < 0xA000)"

definition res_header_ok :: "(u16 + string) \<times> string \<Rightarrow> bool" where
  "res_header_ok h \<longleftrightarrow> res_name_ok (fst h) \<and> is_cstr (snd h) \<and> length (snd h) < 0xFFFF"

definition res_header :: "(u16 + string) \<times> string \<Rightarrow> string option \<times> string" where
  "res_header h = (Some (case fst h of Inl c \<Rightarrow> response_trans_headers ! (unat c - 1) | Inr t \<Rightarrow> t), snd h)"

lemma res_code_cases: "1 \<le> (c :: u16) \<Longrightarrow> c \<le> 11 \<Longrightarrow> c \<in> {1, 2, 3, 4, 5, 6, 7, 8, 9, 10, 11}"
proof -
  assume "1 \<le> c" "c \<le> 11"
  then have "1 \<le> unat c" "unat c \<le> 11" by (simp_all add: word_le_nat_alt)
  then have "unat c = 1 \<or> unat c = 2 \<or> unat c = 3 \<or> unat c = 4 \<or> unat c = 5 \<or> unat c = 6 \<or> unat c = 7 \<or> unat c = 8 \<or>
      unat c = 9 \<or> unat c = 10 \<or> unat c = 11" by presburger
  then show ?thesis by (simp add: word_unat_eq_iff)
qed

lemma res_code:
  assumes "1 \<le> (c :: u16)" and "c \<le> 11"
  shows "(0xA000 + c) AND 0xFF00 = 0xA000" "(0xA000 + c) AND 0x00FF = c" "c AND 0x00FF = c"
  using res_code_cases [OF assms] by auto

lemma get_res_name_spec:
  assumes "msg_wf m" and "res_name_ok n" and "unread m = enc_res_name n @ rest"
  shows "\<exists>x. get_res_name m = Some (Some x, advanced m (length (enc_res_name n))) \<and>
    (case x of Res_const c \<Rightarrow> c | Res_offset off \<Rightarrow> cstr_at (mb_buf m) off) = fst (res_header (n, v))"
proof (cases n)
  case (Inl c)
  then have c: "1 \<le> c" "c \<le> 11" using assms(2) by (simp_all add: res_name_ok_def)
  have u: "unread m = int_bytes (0xA000 + c) @ rest" using assms(3) Inl by (simp add: enc_res_name_def)
  have "c > 0" using c(1) by (simp add: word_le_nat_alt word_less_nat_alt)
  then have "get_res_name m = Some (Some (Res_const (Some (response_trans_headers ! (unat c - 1)))), advanced m 2)"
    using c res_code [OF c] by (simp add: get_res_name_def pget_int_spec [OF assms(1) u] get_int_spec [OF assms(1) u]
      long_res_header_for_sc_def SC_RES_HEADERS_NUM_def)
  then show ?thesis using Inl by (simp add: res_header_def enc_res_name_def)
next
  case (Inr t)
  then have t: "is_cstr t" "length t < 0xA000" "unread m = enc_string t @ rest"
    using assms by (simp_all add: res_name_ok_def enc_res_name_def)
  then have "unread m = int_bytes (of_nat (length t)) @ bytes_of t @ 0 # rest" by (simp add: enc_string_def)
  note p = pget_int_spec [OF assms(1) this]
  from get_string_spec [OF assms(1) t(1) _ t(3)] t(2) obtain off
    where "jk_b_get_string m = Some (Some off, advanced m (length t + 3))" "cstr_at (mb_buf m) off = Some t" by auto
  then show ?thesis using Inr p short_unmarked [OF t(2)] by (simp add: get_res_name_def enc_res_name_def res_header_def)
qed

lemma res_texts_buf: "mb_buf m' = mb_buf m \<Longrightarrow> res_texts m' hs = res_texts m hs"
  by (induction hs) (simp_all add: res_text_def cong: res_name.case_cong)

lemma get_res_headers_spec:
  assumes "msg_wf m" and "list_all res_header_ok hs" and "unread m = concat (map enc_res_header hs) @ rest"
  shows "\<exists>xs. get_res_headers (length hs) m = Some (Some xs, advanced m (length (concat (map enc_res_header hs)))) \<and>
    res_texts m xs = Some (map res_header hs)"
  using assms
proof (induction hs arbitrary: m)
  case Nil
  then show ?case by (simp add: advanced_def)
next
  case (Cons h hs)
  obtain n v where h: "h = (n, v)" by (cases h)
  have ok: "res_name_ok n" "is_cstr v" "length v < 0xFFFF" using Cons.prems(2) by (simp_all add: h res_header_ok_def)
  have u: "unread m = enc_res_name n @ enc_string v @ concat (map enc_res_header hs) @ rest"
    using Cons.prems(3) by (simp add: h enc_res_header_def [of "(n, v)"])
  obtain x where x: "get_res_name m = Some (Some x, advanced m (length (enc_res_name n)))"
      "(case x of Res_const c \<Rightarrow> c | Res_offset off \<Rightarrow> cstr_at (mb_buf m) off) = fst (res_header (n, v))"
    using get_res_name_spec [OF Cons.prems(1) ok(1) u] by blast
  let ?m = "advanced m (length (enc_res_name n))"
  have u1: "unread ?m = enc_string v @ concat (map enc_res_header hs) @ rest" using u Cons.prems(1) by (simp add: unread_advanced)
  obtain off where off: "jk_b_get_string ?m = Some (Some off, advanced ?m (length v + 3))" "cstr_at (mb_buf m) off = Some v"
    using get_string_spec [OF _ ok(2,3) u1] Cons.prems(1) by auto
  let ?m2 = "advanced ?m (length v + 3)"
  have "unread ?m2 = concat (map enc_res_header hs) @ rest" using u1 Cons.prems(1)
    by (simp add: unread_advanced del: advanced_advanced)
  from Cons.IH [OF _ _ this] Cons.prems obtain xs where
    xs: "get_res_headers (length hs) ?m2 = Some (Some xs, advanced ?m2 (length (concat (map enc_res_header hs))))"
      "res_texts ?m2 xs = Some (map res_header hs)" by auto
  have "res_text m (x, off) = Some (res_header h)" using x(2) off(2)
    by (cases x) (auto simp: res_text_def h res_header_def)
  moreover have "length (enc_res_name n) + (length v + 3) + length (concat (map enc_res_header hs)) = length (concat (map enc_res_header (h # hs)))"
    by (simp add: h enc_res_header_def [of "(n, v)"])
  moreover have "res_texts m xs = Some (map res_header hs)" using xs(2) res_texts_buf [of ?m2 m xs] by simp
  ultimately show ?case using x(1) off(1) xs(1) by (simp add: algebra_simps)
qed

text \<open>The response as the web server gets it: status, reason and headers.\<close>

definition res_view :: "jk_msg_buf \<Rightarrow> jk_res_data \<Rightarrow> (int \<times> string option \<times> nat \<times> (string option \<times> string) list) ub" where
  "res_view msg d =
     do {
       t \<leftarrow> (case rs_msg d of None \<Rightarrow> Some None | Some off \<Rightarrow> do { x \<leftarrow> cstr_at (mb_buf msg) off; Some (Some x) });
       hs \<leftarrow> res_texts msg (case rs_headers d of None \<Rightarrow> [] | Some xs \<Rightarrow> xs);
       Some (rs_status d, t, rs_num_headers d, hs)
     }"

lemma get_opt_spec:
  assumes "msg_wf m" and "field_ok (F_str v)" and "unread m = enc_opt v @ rest"
  shows "\<exists>r. jk_b_get_string m = Some (r, advanced m (length (enc_opt v))) \<and>
    (case r of None \<Rightarrow> Some None | Some off \<Rightarrow> do { x \<leftarrow> cstr_at (mb_buf m) off; Some (Some x) }) = Some v"
proof (cases v)
  case None
  then show ?thesis using get_null_spec [OF assms(1)] assms(3) by (simp add: enc_opt_def)
next
  case (Some t)
  then show ?thesis using get_string_spec [OF assms(1), of t rest] assms(2,3) by (auto simp: enc_opt_def)
qed

text \<open>The pointers \<open>ajp_unmarshal_response\<close> returns lead to what was encoded.\<close>

lemma unmarshal_spec:
  assumes "msg_wf m" and "unread m = enc_response status txt hs @ rest"
    and "status \<noteq> 0" and "field_ok (F_str txt)" and "list_all res_header_ok hs" and "length hs < 65536"
    and "hs \<noteq> [] \<Longrightarrow> jk_pool_alloc p (8 * of_nat (length hs)) = Some (Some a, p1)"
    and "hs \<noteq> [] \<Longrightarrow> jk_pool_alloc p1 (8 * of_nat (length hs)) = Some (Some b, p2)"
  shows "\<exists>d p'. ajp_unmarshal_response p m = Some (Some d, advanced m (length (enc_response status txt hs)), p') \<and>
    res_view m d = Some (uint status, txt, length hs, map res_header hs)"
proof -
  let ?m1 = "advanced m 2"
  have "unread m = int_bytes status @ enc_opt txt @ int_bytes (of_nat (length hs)) @ concat (map enc_res_header hs) @ rest"
    using assms(2) by (simp add: enc_response_def)
  note s = get_int_spec [OF assms(1) this] and this
  then have "unread ?m1 = enc_opt txt @ int_bytes (of_nat (length hs)) @ concat (map enc_res_header hs) @ rest"
    using assms(1) by (simp add: unread_advanced)
  note u1 = this
  obtain r where r: "jk_b_get_string ?m1 = Some (r, advanced ?m1 (length (enc_opt txt)))"
      "(case r of None \<Rightarrow> Some None | Some off \<Rightarrow> do { x \<leftarrow> cstr_at (mb_buf m) off; Some (Some x) }) = Some txt"
    using get_opt_spec [OF msg_wf_advanced [OF assms(1)] assms(4) u1, unfolded advanced_sel] by blast
  let ?m2 = "advanced ?m1 (length (enc_opt txt))"
  have u2: "unread ?m2 = int_bytes (of_nat (length hs)) @ concat (map enc_res_header hs) @ rest"
    using u1 assms(1) by (simp add: unread_advanced del: advanced_advanced)
  note n = get_int_spec [OF _ u2]
  let ?m3 = "advanced ?m2 2"
  have u3: "unread ?m3 = concat (map enc_res_header hs) @ rest"
    using u2 assms(1) by (simp add: unread_advanced del: advanced_advanced)
  obtain xs where xs: "get_res_headers (length hs) ?m3 = Some (Some xs, advanced ?m3 (length (concat (map enc_res_header hs))))"
      "res_texts ?m3 xs = Some (map res_header hs)"
    using get_res_headers_spec [OF _ assms(5) u3] assms(1) by auto
  have rt: "res_texts m xs = Some (map res_header hs)" using xs(2) res_texts_buf [of ?m3 m xs] by simp
  have len: "unat (of_nat (length hs) :: u16) = length hs" using assms(6) by (simp add: u16_of_nat)
  have uc: "ucast (of_nat (length hs) :: u16) = (of_nat (length hs) :: u64)"
    by (rule word_unat_eq_iff [THEN iffD2]) (use len assms(6) in \<open>simp add: unsigned_ucast_eq take_bit_eq_mod unat_of_nat\<close>)
  have tot: "length (enc_response status txt hs) = 2 + length (enc_opt txt) + 2 + length (concat (map enc_res_header hs))"
    by (simp add: enc_response_def)
  show ?thesis
  proof (cases "hs = []")
    case True
    then show ?thesis using s r n assms(1,3) tot
      by (auto simp: ajp_unmarshal_response_def res_view_def add.assoc)
  next
    case False
    then have "(of_nat (length hs) :: u16) \<noteq> 0" using len by (metis length_0_conv unat_0)
    then show ?thesis using s r n xs(1) rt assms(1,3) assms(7,8) [OF False] len uc tot
      by (auto simp: ajp_unmarshal_response_def res_view_def add.assoc)
  qed
qed

text \<open>Claim C8: the response headers that a container encodes, each name as its code or as a string, are what
  the web server reads through the pointers \<open>ajp_unmarshal_response\<close> returns, if the pool has memory for the
  two arrays of pointers.\<close>

theorem response_roundtrip:
  assumes "msg_wf m" and "unread m = enc_response status txt hs @ rest"
    and "status \<noteq> 0" and "field_ok (F_str txt)" and "list_all res_header_ok hs" and "length hs < 65536"
    and "hs \<noteq> [] \<Longrightarrow> jk_pool_alloc p (8 * of_nat (length hs)) = Some (Some a, p1)"
    and "hs \<noteq> [] \<Longrightarrow> jk_pool_alloc p1 (8 * of_nat (length hs)) = Some (Some b, p2)"
  shows "\<exists>d p'. ajp_unmarshal_response p m = Some (Some d, advanced m (length (enc_response status txt hs)), p') \<and>
    res_view m d = Some (uint status, txt, length hs, map res_header hs)"
  using assms by (rule unmarshal_spec)

section \<open>Examples\<close>

theorem header_codes_witness: "sc_for_req_header (replicate 16 CHR ''x'') ''Host'' = 0xA00B"
proof -
  have "is_cstr ''Host''" "map toupper ''Host'' = ''HOST''" by (simp add: is_cstr_def) code_simp
  then show ?thesis using header_codes [of "''Host''"] by (simp add: keyword_def req_headers_def SC_HOST_def)
qed

definition demo_request :: "string option \<Rightarrow> ws_request" where
  "demo_request v =
     jk_ws_service.extend
       (demo_ws\<lparr>sv_req_uri := ''/a'' @ [NUL], sv_headers := [(''Host'', ''h'' @ [NUL]), (''X-Y'', ''z'' @ [NUL])], sv_activation := v\<rparr>)
       \<lparr>rq_method = ''GET'', rq_protocol = Some ''HTTP/1.1'', rq_remote_addr = Some ''1.2.3.4'', rq_remote_port = Some ''99'',
        rq_remote_host = None, rq_remote_user = Some ''me'', rq_auth_type = None, rq_query_string = Some ''q=1'',
        rq_server_name = Some ''srv'', rq_local_addr = Some ''5.6.7.8'', rq_server_port = 80, rq_content_length = 0,
        rq_is_chunked = False, rq_no_more_chunks = False, rq_content_read = 0, rq_ssl_protocol = None, rq_ssl_cert = None,
        rq_ssl_cert_len = 0, rq_ssl_cipher = None, rq_ssl_session = None, rq_ssl_key_size = - 1, rq_attributes = [],
        rq_secret = None, rq_flush_packets = False, rq_flush_header = False, rq_reply_timeout = - 1, rq_fail_on_status = [],
        rq_use_server_error_pages = 0, rq_response_started = False, rq_response_blocked = False,
        rq_http_response_status = 200, rq_flush = True, rq_done = True, rq_disable_reuse = False\<rparr>"

lemma demo_request_fields:
  "request_fields [] (demo_request v) =
     [F_byte 2, F_byte 2, F_str (Some ''HTTP/1.1''), F_mem (''/a'' @ [NUL]), F_str (Some ''1.2.3.4''), F_str None, F_str (Some ''srv''),
      F_int 80, F_byte 0, F_int 2, F_int 0xA00B, F_mem (''h'' @ [NUL]), F_str (Some ''X-Y''), F_mem (''z'' @ [NUL]), F_byte 3, F_str (Some ''me''),
      F_byte 5, F_str (Some ''q=1''), F_byte 10, F_str (Some ''AJP_REMOTE_PORT''), F_str (Some ''99''), F_byte 10, F_str (Some ''AJP_LOCAL_ADDR''),
      F_str (Some ''5.6.7.8''), F_byte 10, F_str (Some ''JK_LB_ACTIVATION''), F_str v, F_byte 0xFF]"
proof -
  have "is_cstr ''Host''" "map toupper ''Host'' = ''HOST''" "is_cstr ''X-Y''" "map toupper ''X-Y'' = ''X-Y''"
    by (simp_all add: is_cstr_def) (code_simp+)
  then have "sc_for_req_header [] ''Host'' = 0xA00B" "sc_for_req_header [] ''X-Y'' = UNKNOWN_METHOD"
    by (simp_all add: header_codes keyword_def req_headers_def SC_HOST_def)
  moreover have "sc_for_req_method ''GET'' = 2" by (simp add: method_codes keyword_def req_methods_def SC_M_GET_def)
  ultimately show ?thesis
    by (simp add: demo_request_def demo_ws_def jk_ws_service.defs request_fields_def begin_fields_def header_fields_def
        option_fields_def request_attrs_def attr_fields_def opt_field_def request_method_def UNKNOWN_METHOD_def SC_M_JK_STORED_def
        JK_AJP13_FORWARD_REQUEST_def sc_a_defs)
qed

lemma demo_request_ok: "v = None \<or> v = Some ''ACT'' \<Longrightarrow> request_ok (demo_request v)"
proof -
  have "sv_headers (demo_request v) = [(''Host'', ''h'' @ [NUL]), (''X-Y'', ''z'' @ [NUL])]"
    by (simp add: demo_request_def jk_ws_service.defs)
  moreover assume "v = None \<or> v = Some ''ACT''"
  then have "list_all field_ok (request_fields [] (demo_request v))"
    unfolding demo_request_fields by (auto simp: is_cstr_def mem_str_def)
  ultimately show ?thesis by (simp add: request_ok_def header_ok_def is_cstr_def mem_str_def)
qed

lemma demo_request_length:
  "length (enc_request (demo_request None)) = 145" "length (enc_request (demo_request (Some ''ACT''))) = 149"
  by (simp_all add: enc_request_def demo_request_fields enc_opt_def mem_str_def)

definition demo_buffer :: "nat \<Rightarrow> jk_msg_buf" where
  "demo_buffer n = \<lparr>mb_buf = replicate n 0, mb_pos = 4, mb_len = 4, mb_maxlen = int n\<rparr>"

lemma demo_buffer_wf: "4 \<le> n \<Longrightarrow> msg_wf (demo_buffer n)"
  by (simp add: msg_wf_def demo_buffer_def)

theorem request_roundtrip_witness:
  "\<exists>m'. ajp_marshal_into_msgb [] (demo_buffer 200) (demo_request (Some ''ACT'')) = Some (True, m') \<and>
     p_request (drop 4 (payload m')) = Some (sent_request (demo_request (Some ''ACT'')), [])"
proof -
  have "fits (demo_buffer 200) (enc_request (demo_request (Some ''ACT'')))"
    by (simp add: fits_def demo_request_length demo_buffer_def)
  moreover have "length (payload (demo_buffer 200)) = 4" by (simp add: payload_def demo_buffer_def)
  ultimately show ?thesis
    using request_roundtrip [OF demo_buffer_wf [of 200] demo_request_ok [of "Some ''ACT''"], of "[]"] by auto
qed

text \<open>One byte is left where the null value of the activation needs two: the request is sent without it.\<close>

theorem request_fits_exact_witness:
  "\<exists>m'. ajp_marshal_into_msgb [] (demo_buffer 147) (demo_request None) = Some (True, m') \<and>
     mb_len (demo_buffer 147) + int (length (enc_request (demo_request None))) > mb_maxlen (demo_buffer 147)"
proof -
  have "last_value (demo_request None) = None"
    by (simp add: last_value_def request_attrs_def demo_request_def jk_ws_service.defs)
  then show ?thesis
    using request_fits_exact [OF demo_buffer_wf [of 147] demo_request_ok [of None], of "[]"] demo_request_length(1)
    by (auto simp: demo_buffer_def)
qed

definition demo_res :: "((u16 + string) \<times> string) list" where
  "demo_res = [(Inl 1, ''text/html''), (Inr ''X'', ''y'')]"

definition demo_reply :: jk_msg_buf where
  "demo_reply = (let bs = 4 # enc_response 200 (Some ''OK'') demo_res in
     \<lparr>mb_buf = bs, mb_pos = 1, mb_len = int (length bs), mb_maxlen = int (length bs)\<rparr>)"

theorem response_roundtrip_witness:
  "\<exists>d m' p'. ajp_unmarshal_response (sv_pool demo_ws) demo_reply = Some (Some d, m', p') \<and>
     res_view demo_reply d = Some (200, Some ''OK'', 2, [(Some ''Content-Type'', ''text/html''), (Some ''X'', ''y'')])"
proof -
  have wf: "msg_wf demo_reply" by (simp add: demo_reply_def msg_wf_def Let_def)
  have u: "unread demo_reply = enc_response 200 (Some ''OK'') demo_res @ []"
    by (simp add: unread_def payload_def demo_reply_def Let_def nat_add_distrib)
  have ok: "list_all res_header_ok demo_res" "field_ok (F_str (Some ''OK''))" "length demo_res = 2"
    by (simp_all add: demo_res_def res_header_ok_def res_name_ok_def is_cstr_def)
  obtain a b p1 p2 where "jk_pool_alloc (sv_pool demo_ws) (8 * of_nat (length demo_res)) = Some (Some a, p1)"
      "jk_pool_alloc p1 (8 * of_nat (length demo_res)) = Some (Some b, p2)"
    by (simp add: demo_ws_def demo_res_def jk_pool_alloc_def jk_open_pool_def JK_ALIGN_DEFAULT_def JK_ALIGN_def)
  from response_roundtrip [OF wf u _ ok(2,1) _ this] ok(3) obtain d p'
    where "ajp_unmarshal_response (sv_pool demo_ws) demo_reply = Some (Some d, advanced demo_reply (length (enc_response 200 (Some ''OK'') demo_res)), p')"
      "res_view demo_reply d = Some (200, Some ''OK'', 2, map res_header demo_res)" by auto
  moreover have "map res_header demo_res = [(Some ''Content-Type'', ''text/html''), (Some ''X'', ''y'')]"
    by (simp add: demo_res_def res_header_def response_trans_headers_def)
  ultimately show ?thesis by metis
qed


end
