(* ===== verification/Jk_Ajp_Reply.thy ===== *)
theory Jk_Ajp_Reply
  imports Jk_Ajp_Codec
begin

text \<open>
  The reply to a request (\<open>jk_ajp_common.c\<close>): reading parts of the request body from the web server, the
  dispatch on the messages of the container and the loop that reads them until the response ends. The
  callbacks of the web server are its side of the model: the request body it will deliver, whether a read or
  a write succeeds, and the calls it has seen.
\<close>

section \<open>The web server\<close>

text \<open>A response header as the web server gets it: name and value, null where the code passes null.\<close>

datatype client_event =
    Ev_start int "string option" "(string option \<times> string option) list"
  | Ev_write "u8 list"
  | Ev_flush
  | Ev_done

text \<open>\<open>cl_reads\<close> are the results of the next calls of \<open>read\<close>: a failure, or the most bytes it stores; further calls
  store all they can. \<open>cl_writes\<close> tells which calls of \<open>write\<close> succeed; further calls do.\<close>

record client =
  cl_body :: "u8 list"
  cl_reads :: "nat option list"
  cl_writes :: "bool list"
  cl_events :: "client_event list"

definition cl_read :: "client \<Rightarrow> nat \<Rightarrow> u8 list option \<times> client" where
  "cl_read cl n =
     (case cl_reads cl of
        [] \<Rightarrow> (Some (take n (cl_body cl)), cl\<lparr>cl_body := drop n (cl_body cl)\<rparr>)
      | None # rs \<Rightarrow> (None, cl\<lparr>cl_reads := rs\<rparr>)
      | Some k # rs \<Rightarrow> (Some (take (min k n) (cl_body cl)), cl\<lparr>cl_reads := rs, cl_body := drop (min k n) (cl_body cl)\<rparr>))"

definition cl_event :: "client_event \<Rightarrow> client \<Rightarrow> client" where
  "cl_event e cl = cl\<lparr>cl_events := cl_events cl @ [e]\<rparr>"

definition cl_write :: "client \<Rightarrow> u8 list \<Rightarrow> bool \<times> client" where
  "cl_write cl bs =
     (case cl_writes cl of
        [] \<Rightarrow> (True, cl_event (Ev_write bs) cl)
      | ok # rs \<Rightarrow> (ok, (if ok then cl_event (Ev_write bs) else id) (cl\<lparr>cl_writes := rs\<rparr>)))"

section \<open>Reading the request body\<close>

definition CHUNK_BUFFER_PAD :: nat where
  "CHUNK_BUFFER_PAD = 12"

definition AJP_HEADER_SZ_LEN :: nat where
  "AJP_HEADER_SZ_LEN = 2"

definition JK_CLIENT_RD_ERROR :: int where
  "JK_CLIENT_RD_ERROR = - 6"

definition JK_CLIENT_WR_ERROR :: int where
  "JK_CLIENT_WR_ERROR = - 7"

definition JK_INTERNAL_ERROR :: int where
  "JK_INTERNAL_ERROR = - 2"

text \<open>The loop: whether the reads succeeded, the bytes stored so far, and whether a read stored none.\<close>

function read_loop :: "nat \<Rightarrow> nat \<Rightarrow> u8 list \<Rightarrow> client \<Rightarrow> bool \<times> u8 list \<times> bool \<times> client" where
  "read_loop padded_len len buf cl =
     (if length buf < padded_len then
        (case cl_read cl (len - length buf) of
           (None, cl') \<Rightarrow> (False, buf, False, cl')
         | (Some bs, cl') \<Rightarrow>
             if bs = [] then (True, buf, True, cl') else read_loop padded_len len (buf @ bs) cl')
      else (True, buf, False, cl))"
  by pat_completeness auto
termination
  by (relation "measure (\<lambda>(padded_len, len, buf, cl). padded_len - length buf)") (auto intro: diff_less_mono2)

declare read_loop.simps [simp del]

text \<open>\<open>padded_len\<close> of the source: for a chunked body the loop stops a little before the buffer is full.\<close>

definition padded :: "bool \<Rightarrow> nat \<Rightarrow> nat" where
  "padded chunked len = (if chunked then (if len < CHUNK_BUFFER_PAD then len else len - CHUNK_BUFFER_PAD) else len)"

text \<open>The result: the code, the bytes stored, the request and the web server.\<close>

definition ajp_read_fully_from_server ::
    "ws_request \<Rightarrow> client \<Rightarrow> nat \<Rightarrow> int \<times> u8 list \<times> ws_request \<times> client" where
  "ajp_read_fully_from_server s cl len =
     (if rq_is_chunked s \<and> rq_no_more_chunks s then (0, [], s, cl)
      else
        let padded_len = padded (rq_is_chunked s) len;
            (ok, buf, none, cl') = read_loop padded_len len [] cl
        in
        if \<not> ok then (JK_CLIENT_RD_ERROR, buf, s, cl')
        else (int (length buf), buf, if none \<and> rq_is_chunked s then s\<lparr>rq_no_more_chunks := True\<rparr> else s, cl'))"

text \<open>\<open>len\<close> and \<open>maxlen\<close> of the source, for the bytes left to send and the limit of the packet size.\<close>

definition body_len :: "bool \<Rightarrow> u64 \<Rightarrow> int \<Rightarrow> int \<Rightarrow> int" where
  "body_len chunked left maxlen len =
     (if chunked \<and> left = 0 then maxlen
      else
        let maxlen' = (if (word_of_int maxlen :: u64) > left then uint left else maxlen)
        in if len < 0 \<or> len > maxlen' then maxlen' else len)"

text \<open>After \<open>n\<close> bytes were stored behind the header and the place of the length.\<close>

definition count_body :: "bool \<Rightarrow> int \<Rightarrow> jk_msg_buf \<Rightarrow> ajp_endpoint \<Rightarrow> (int \<times> jk_msg_buf \<times> ajp_endpoint) ub" where
  "count_body chunked n msg ae =
     (if n < 0 then Some (JK_CLIENT_RD_ERROR, msg, ae)
      else
        let ae' = (if \<not> chunked then ae\<lparr>ae_left_bytes_to_send := ae_left_bytes_to_send ae - word_of_int n\<rparr> else ae) in
        if n > 0 then
          do {
            (rc, msg1) \<leftarrow> jk_b_append_int msg (word_of_int n);
            Some (if rc \<noteq> 0 then (JK_CLIENT_RD_ERROR, msg1, ae') else (n, msg1\<lparr>mb_len := mb_len msg1 + n\<rparr>, ae'))
          }
        else Some (n, msg, ae'))"

definition ajp_read_into_msg_buff :: "ajp_worker \<Rightarrow> ajp_endpoint \<Rightarrow> ws_request \<Rightarrow> client \<Rightarrow> jk_msg_buf \<Rightarrow> int
     \<Rightarrow> (int \<times> jk_msg_buf \<times> ajp_endpoint \<times> ws_request \<times> client) ub" where
  "ajp_read_into_msg_buff aw ae r cl msg len0 =
     (let msg0 = jk_b_reset msg;
          maxlen = uint (aw_max_packet_size aw) - int AJP_HEADER_LEN - int AJP_HEADER_SZ_LEN;
          len = body_len (rq_is_chunked r) (ae_left_bytes_to_send ae) maxlen len0;
          (n, buf, r', cl') = ajp_read_fully_from_server r cl (unat (word_of_int len :: u32))
      in
      do {
        b \<leftarrow> poke (mb_buf msg0) (AJP_HEADER_LEN + AJP_HEADER_SZ_LEN) buf;
        (rc, msg1, ae') \<leftarrow> count_body (rq_is_chunked r) n (msg0\<lparr>mb_buf := b\<rparr>) ae;
        Some (rc, msg1, ae', r', cl')
      })"

section \<open>The state of a request\<close>

text \<open>The endpoint with the shared record of its worker and the sockets, the pool of the endpoint, the request, the
  web server, and the messages and the flag of \<open>ajp_operation_t\<close>.\<close>

record ajp_operation =
  op_ae :: ajp_endpoint
  op_shm :: jk_shm_ajp_worker
  op_w :: world
  op_pool :: mem
  op_s :: ws_request
  op_cl :: client
  op_request :: jk_msg_buf
  op_reply :: jk_msg_buf
  op_post :: jk_msg_buf
  op_recoverable :: bool

definition op_ep :: "ajp_operation \<Rightarrow> ep_state" where
  "op_ep q = (op_ae q, op_shm q, op_w q)"

definition set_ep :: "ajp_operation \<Rightarrow> ep_state \<Rightarrow> ajp_operation" where
  "set_ep q st = q\<lparr>op_ae := fst st, op_shm := fst (snd st), op_w := snd (snd st)\<rparr>"

definition notify :: "client_event \<Rightarrow> ajp_operation \<Rightarrow> ajp_operation" where
  "notify e q = q\<lparr>op_cl := cl_event e (op_cl q)\<rparr>"

section \<open>The messages of the container\<close>

definition JK_AJP13_ERROR :: int where
  "JK_AJP13_ERROR = - 1"

definition JK_AJP13_NO_RESPONSE :: int where
  "JK_AJP13_NO_RESPONSE = 0"

definition JK_AJP13_HAS_RESPONSE :: int where
  "JK_AJP13_HAS_RESPONSE = 1"

definition JK_AJP13_SEND_HEADERS :: u8 where
  "JK_AJP13_SEND_HEADERS = 4"

definition JK_AJP13_GET_BODY_CHUNK :: u8 where
  "JK_AJP13_GET_BODY_CHUNK = 6"

text \<open>The headers that the balancer added are put behind those of the response if there is memory for the joint
  arrays. The arrays of the response are null when the pool of the endpoint had no memory for them.\<close>

definition join_headers :: "ws_request \<Rightarrow> jk_res_data \<Rightarrow> (bool \<times> ws_request) ub" where
  "join_headers s res =
     (if sv_resp_headers s \<noteq> [] then
        let sz = of_nat ((length (sv_resp_headers s) + rs_num_headers res) * 8) in
        do {
          (a, m1) \<leftarrow> jk_pool_alloc (sv_pool s) sz;
          (b, m2) \<leftarrow> jk_pool_alloc m1 sz;
          guard (a = None \<or> b = None \<or> rs_num_headers res = 0 \<or> rs_headers res \<noteq> None);
          Some (a \<noteq> None \<and> b \<noteq> None, s\<lparr>sv_pool := m2\<rparr>)
        }
      else Some (False, s))"

text \<open>What \<open>start_response\<close> reads through the arrays.\<close>

definition header_texts :: "bool \<Rightarrow> ws_request \<Rightarrow> jk_msg_buf \<Rightarrow> jk_res_data \<Rightarrow> (string option \<times> string option) list ub" where
  "header_texts joint s msg res =
     do {
       guard (rs_num_headers res = 0 \<or> rs_headers res \<noteq> None);
       hs \<leftarrow> res_texts msg (case rs_headers res of None \<Rightarrow> [] | Some xs \<Rightarrow> xs);
       Some (map (\<lambda>(n, v). (n, Some v)) hs @ (if joint then map (\<lambda>(n, v). (Some n, v)) (sv_resp_headers s) else []))
     }"

definition reason_text :: "jk_msg_buf \<Rightarrow> jk_res_data \<Rightarrow> string option ub" where
  "reason_text msg res =
     (case rs_msg res of None \<Rightarrow> Some None | Some off \<Rightarrow> do { x \<leftarrow> cstr_at (mb_buf msg) off; Some (Some x) })"

text \<open>\<open>start_response\<close> of the web server also sets \<open>response_started\<close>.\<close>

definition start_client :: "bool \<Rightarrow> jk_res_data \<Rightarrow> ajp_operation \<Rightarrow> (int \<times> ajp_operation) ub" where
  "start_client joint res q =
     (let s = op_s q;
          s1 = (if rq_use_server_error_pages s \<noteq> 0 \<and> rq_http_response_status s \<ge> rq_use_server_error_pages s
                then s\<lparr>rq_response_blocked := True\<rparr> else s)
      in
      do {
        reason \<leftarrow> reason_text (op_reply q) res;
        hs \<leftarrow> header_texts joint s1 (op_reply q) res;
        let q1 = notify (Ev_start (rs_status res) reason hs) (q\<lparr>op_s := s1\<lparr>rq_response_started := True\<rparr>\<rparr>);
        Some (uint JK_AJP13_SEND_HEADERS,
              if \<not> rq_response_blocked s1 \<and> rq_flush s1 \<and> rq_flush_header s1 then notify Ev_flush q1 else q1)
      })"

definition check_status :: "ajp_worker \<Rightarrow> bool \<Rightarrow> jk_res_data \<Rightarrow> ajp_operation \<Rightarrow> (int \<times> ajp_operation) ub" where
  "check_status aw joint res q =
     (let q1 = q\<lparr>op_s := (op_s q)\<lparr>rq_http_response_status := rs_status res\<rparr>\<rparr>;
          fails = (if rq_fail_on_status (op_s q) \<noteq> [] then rq_fail_on_status (op_s q) else aw_http_status_fail aw)
      in
      do {
        rc \<leftarrow> is_http_status_fail (of_nat (length fails)) fails (rs_status res);
        if rc > 0 then Some (JK_STATUS_FATAL_ERROR, q1)
        else if rc < 0 then Some (JK_STATUS_ERROR, q1)
        else start_client joint res q1
      })"

definition send_headers :: "ajp_worker \<Rightarrow> ajp_operation \<Rightarrow> (int \<times> ajp_operation) ub" where
  "send_headers aw q =
     (if ae_last_op (op_ae q) = JK_AJP13_SEND_HEADERS then Some (JK_AJP13_ERROR, q)
      else do {
        (d, msg, p) \<leftarrow> ajp_unmarshal_response (op_pool q) (op_reply q);
        let q1 = q\<lparr>op_reply := msg, op_pool := p\<rparr> in
        (case d of
           None \<Rightarrow> Some (JK_AJP13_ERROR, q1)
         | Some res \<Rightarrow> do { (joint, s1) \<leftarrow> join_headers (op_s q1) res; check_status aw joint res (q1\<lparr>op_s := s1\<rparr>) })
      })"

definition send_body_chunk :: "ajp_operation \<Rightarrow> (int \<times> ajp_operation) ub" where
  "send_body_chunk q =
     (if ae_last_op (op_ae q) = JK_AJP13_FORWARD_REQUEST then
        do {
          (len, msg) \<leftarrow> jk_b_get_int (op_reply q);
          Some (if len = 0 then uint JK_AJP13_FORWARD_REQUEST else JK_AJP13_ERROR, q\<lparr>op_reply := msg\<rparr>)
        }
      else if rq_response_blocked (op_s q) then Some (JK_AJP13_NO_RESPONSE, q)
      else do {
        (len, msg) \<leftarrow> jk_b_get_int (op_reply q);
        let q1 = q\<lparr>op_reply := msg\<rparr>; s = op_s q in
        if (ucast len :: u32) > word_of_int (mb_len msg - 3) then Some (JK_INTERNAL_ERROR, q1)
        else if len = 0 then
          Some (JK_AJP13_NO_RESPONSE, if rq_response_started s \<and> rq_flush s then notify Ev_flush q1 else q1)
        else do {
          guard (0 \<le> mb_pos msg \<and> nat (mb_pos msg) + unat len \<le> length (mb_buf msg));
          let (ok, cl) = cl_write (op_cl q1) (take (unat len) (drop (nat (mb_pos msg)) (mb_buf msg)));
              q2 = q1\<lparr>op_cl := cl\<rparr>
          in
          Some (if \<not> ok then (JK_CLIENT_WR_ERROR, q2)
                else (JK_AJP13_NO_RESPONSE, if rq_flush s \<and> rq_flush_packets s then notify Ev_flush q2 else q2))
        }
      })"

definition get_body_chunk :: "ajp_worker \<Rightarrow> ajp_operation \<Rightarrow> (int \<times> ajp_operation) ub" where
  "get_body_chunk aw q =
     do {
       (len, msg) \<leftarrow> jk_b_get_int (op_reply q);
       (n, post, ae, s, cl) \<leftarrow> ajp_read_into_msg_buff aw (op_ae q) (op_s q) (op_cl q) (op_post q) (uint len);
       let q1 = q\<lparr>op_reply := msg, op_post := post, op_ae := ae, op_s := s, op_cl := cl\<rparr> in
       Some (if n \<ge> 0 then (JK_AJP13_HAS_RESPONSE, q1\<lparr>op_s := s\<lparr>rq_content_read := rq_content_read s + word_of_int n\<rparr>\<rparr>)
             else (JK_CLIENT_RD_ERROR, q1))
     }"

definition end_response :: "ajp_operation \<Rightarrow> (int \<times> ajp_operation) ub" where
  "end_response q =
     do {
       (reuse, msg) \<leftarrow> jk_b_get_byte (op_reply q);
       let s = op_s q;
           q1 = q\<lparr>op_reply := msg, op_ae := (op_ae q)\<lparr>ae_reuse := (reuse \<noteq> 0 \<and> \<not> rq_disable_reuse s)\<rparr>\<rparr>
       in
       Some (uint JK_AJP13_END_RESPONSE,
             if rq_response_blocked s then q1
             else if rq_done s then notify Ev_done q1
             else if rq_flush s \<and> \<not> rq_flush_packets s then notify Ev_flush q1
             else q1)
     }"

definition ajp_process_callback :: "ajp_worker \<Rightarrow> ajp_operation \<Rightarrow> (int \<times> ajp_operation) ub" where
  "ajp_process_callback aw q =
     do {
       (code, msg) \<leftarrow> jk_b_get_byte (op_reply q);
       let q1 = q\<lparr>op_reply := msg\<rparr> in
       if code = JK_AJP13_SEND_HEADERS then send_headers aw q1
       else if code = JK_AJP13_SEND_BODY_CHUNK then send_body_chunk q1
       else if code = JK_AJP13_GET_BODY_CHUNK then get_body_chunk aw q1
       else if code = JK_AJP13_END_RESPONSE then end_response q1
       else Some (JK_AJP13_ERROR, q1)
     }"

section \<open>The loop over the replies\<close>

definition RECOVER_ABORT_IF_TCGETREQUEST :: u32 where
  "RECOVER_ABORT_IF_TCGETREQUEST = 1"

definition RECOVER_ABORT_IF_TCSENDHEADER :: u32 where
  "RECOVER_ABORT_IF_TCSENDHEADER = 2"

definition RECOVER_ABORT_IF_CLIENTERROR :: u32 where
  "RECOVER_ABORT_IF_CLIENTERROR = 4"

definition RECOVER_ALWAYS_HTTP_HEAD :: u32 where
  "RECOVER_ALWAYS_HTTP_HEAD = 8"

definition RECOVER_ALWAYS_HTTP_GET :: u32 where
  "RECOVER_ALWAYS_HTTP_GET = 16"

text \<open>Whether another attempt is allowed after the container was lost.\<close>

definition recoverable_after :: "u32 \<Rightarrow> string \<Rightarrow> bool \<Rightarrow> bool \<Rightarrow> bool" where
  "recoverable_after opts method headeratclient recoverable =
     (if \<not> headeratclient then
        let r = recoverable \<and> opts AND RECOVER_ABORT_IF_TCGETREQUEST = 0 in
        if r then True
        else if opts AND RECOVER_ALWAYS_HTTP_HEAD \<noteq> 0 then method = ''HEAD''
        else if opts AND RECOVER_ALWAYS_HTTP_GET \<noteq> 0 then method = ''GET''
        else False
      else recoverable \<and> opts AND RECOVER_ABORT_IF_TCSENDHEADER = 0)"

definition lost :: "ajp_worker \<Rightarrow> bool \<Rightarrow> ajp_operation \<Rightarrow> ajp_operation" where
  "lost aw headeratclient q =
     q\<lparr>op_recoverable := recoverable_after (aw_recovery_opts aw) (rq_method (op_s q)) headeratclient (op_recoverable q)\<rparr>"

text \<open>After the callback: the function returns with a code, or the loop goes on. Of \<open>last_op\<close> the low byte is kept:
  the codes of the callback differ there from the ones it is compared with.\<close>

definition after_callback :: "int \<Rightarrow> bool \<Rightarrow> ajp_operation \<Rightarrow> (int \<times> ajp_operation + bool \<times> ajp_operation) ub" where
  "after_callback rc headeratclient q =
     (if rc = uint JK_AJP13_END_RESPONSE then Some (Inl (1, q))
      else if rc = uint JK_AJP13_SEND_HEADERS then
        Some (if \<not> headeratclient then Inr (True, q) else Inl (0, q\<lparr>op_recoverable := False\<rparr>))
      else if rc = JK_STATUS_ERROR \<or> rc = JK_STATUS_FATAL_ERROR then Some (Inl (rc, q))
      else if rc = JK_AJP13_HAS_RESPONSE then
        do {
          (rc2, post, st) \<leftarrow> ajp_connection_tcp_send_message (op_ep q) (op_post q);
          let q1 = (set_ep q st)\<lparr>op_recoverable := False, op_post := post\<rparr> in
          Some (if rc2 \<noteq> 1 then Inl (0, q1) else Inr (headeratclient, q1))
        }
      else if rc = JK_AJP13_ERROR then Some (Inl (JK_FATAL_ERROR, q))
      else if rc = JK_CLIENT_RD_ERROR then Some (Inl (JK_CLIENT_RD_ERROR, q))
      else if rc = JK_CLIENT_WR_ERROR then Some (Inl (JK_CLIENT_WR_ERROR, q))
      else if rc = JK_INTERNAL_ERROR then Some (Inl (JK_FATAL_ERROR, q))
      else if rc = JK_AJP13_NO_RESPONSE then Some (Inr (headeratclient, q))
      else if rc < 0 then Some (Inl (0, q\<lparr>op_recoverable := False\<rparr>))
      else Some (Inr (headeratclient, q)))"

text \<open>With a reply timeout, waiting for input.\<close>

definition wait_reply :: "ajp_worker \<Rightarrow> ajp_operation \<Rightarrow> bool \<times> ajp_operation" where
  "wait_reply aw q =
     (let reply_timeout = (if rq_reply_timeout (op_s q) < 0 then aw_reply_timeout aw else rq_reply_timeout (op_s q)) in
      if reply_timeout > 0 then (let (ready, w) = c_poll (op_w q) (ae_sd (op_ae q)) in (ready, q\<lparr>op_w := w\<rparr>))
      else (True, q))"

definition handle_reply :: "ajp_worker \<Rightarrow> bool \<Rightarrow> ajp_operation \<Rightarrow> (int \<times> ajp_operation + bool \<times> ajp_operation) ub" where
  "handle_reply aw headeratclient q =
     do {
       (rc, q1) \<leftarrow> ajp_process_callback aw q;
       after_callback rc headeratclient (q1\<lparr>op_ae := (op_ae q1)\<lparr>ae_last_op := word_of_int rc\<rparr>\<rparr>)
     }"

definition reply_step :: "ajp_worker \<Rightarrow> bool \<Rightarrow> ajp_operation \<Rightarrow> (int \<times> ajp_operation + bool \<times> ajp_operation) ub" where
  "reply_step aw headeratclient q =
     (let (ready, q0) = wait_reply aw q in
      if \<not> ready then Some (Inl (JK_REPLY_TIMEOUT, lost aw headeratclient (set_ep q0 (ajp_abort_endpoint (op_ep q0) True))))
      else do {
        (rc, reply, st) \<leftarrow> ajp_connection_tcp_get_message (op_ep q0) (op_reply q0);
        let q1 = (set_ep q0 st)\<lparr>op_reply := reply\<rparr> in
        if rc \<noteq> 1 then Some (Inl (rc, lost aw headeratclient q1)) else handle_reply aw headeratclient q1
      })"

partial_function (option) reply_loop :: "ajp_worker \<Rightarrow> bool \<Rightarrow> ajp_operation \<Rightarrow> ((int \<times> ajp_operation) ub) option" where
  "reply_loop aw headeratclient q =
     (case reply_step aw headeratclient q of
        None \<Rightarrow> Some None
      | Some (Inl r) \<Rightarrow> Some (Some r)
      | Some (Inr (h, q')) \<Rightarrow> reply_loop aw h q')"

definition ajp_get_reply :: "ajp_worker \<Rightarrow> ajp_operation \<Rightarrow> ((int \<times> ajp_operation) ub) option" where
  "ajp_get_reply aw q = reply_loop aw False q"

section \<open>The loop ends\<close>

lemma bind_SomeE: "Option.bind m f = Some r \<Longrightarrow> (\<And>x. m = Some x \<Longrightarrow> f x = Some r \<Longrightarrow> P) \<Longrightarrow> P"
  by (cases m) simp_all

lemma get_message_shorter:
  assumes "ajp_connection_tcp_get_message (ae, s, w) msg = Some (1, m, ae', s', w')"
  shows "ae_sd ae' = ae_sd ae \<and> length (pending w' (ae_sd ae)) < length (pending w (ae_sd ae))"
proof (cases rule: recvfull_cases [of AJP_HEADER_LEN w "ae_sd ae"])
  case (short rc es)
  then show ?thesis using assms by (simp add: ajp_connection_tcp_get_message_def)
next
  case (whole es)
  let ?sd = "ae_sd ae" and ?w1 = "set_rx w (ae_sd ae) es"
  have four: "length (pending ?w1 ?sd) < length (pending w ?sd)" using whole(1,2) by (simp add: AJP_HEADER_LEN_def)
  obtain h2 h3 where h: "rd (take AJP_HEADER_LEN (pending w ?sd)) 2 = Some h2" "rd (take AJP_HEADER_LEN (pending w ?sd)) 3 = Some h3"
    using whole(1) by (simp add: rd_def AJP_HEADER_LEN_def)
  obtain rc body w2 where b: "jk_tcp_socket_recvfull ?w1 ?sd (nat (uint h2 * 256 + uint h3)) = (rc, body, w2)" by (metis surj_pair)
  have r: "\<not> rc < 0" "ae_sd ae' = ?sd" "w' = w2"
    using assms b h unfolding ajp_connection_tcp_get_message_def prod.case Let_def whole(3)
    by (auto simp: ub_simps JK_AJP_PROTOCOL_ERROR_def split: if_splits)
  show ?thesis
    by (cases rule: recvfull_cases [of "nat (uint h2 * 256 + uint h3)" ?w1 ?sd]) (use b r four in auto)
qed

text \<open>A message sent: the frame is on the wire.\<close>

lemma send_message_done:
  assumes "ajp_connection_tcp_send_message (ae, s, w) msg = Some (1, m, ae', s', w')"
  obtains tx b where "w' = pushed w (ae_sd ae) tx b" "ae_sd ae' = ae_sd ae" "s' = s" "ae_last_op ae' = ae_last_op ae"
proof -
  obtain m0 where m0: "jk_b_end msg (if ae_proto ae = AJP13_PROTO then AJP13_WS_HEADER else AJP14_WS_HEADER) = Some m0"
      "nat (mb_len m0) \<le> length (mb_buf m0)" "ae_proto ae = AJP13_PROTO \<or> ae_proto ae = AJP14_PROTO"
    using assms by (auto simp: ajp_connection_tcp_send_message_def JK_FATAL_ERROR_def ub_simps split: if_splits)
  let ?b = "take (nat (mb_len m0)) (mb_buf m0)"
  obtain r w2 where r: "jk_tcp_socket_sendfull w (ae_sd ae) ?b = (r, w2)" by (metis surj_pair)
  have "r > 0 \<and> w' = w2 \<and> ae' = ae\<lparr>ae_wr := ae_wr ae + word_of_int r\<rparr> \<and> s' = s"
    using assms m0 r by (auto simp: ajp_connection_tcp_send_message_def Let_def split: if_splits)
  moreover from this have "\<exists>tx. w2 = pushed w (ae_sd ae) tx ?b"
    using sendfull_spec [of w "ae_sd ae" ?b] r by (auto simp: sent_all_def sent_part_def)
  ultimately show ?thesis using that by auto
qed

lemma send_message_pending:
  assumes "ajp_connection_tcp_send_message (ae, s, w) msg = Some (1, m, ae', s', w')"
  shows "ae_sd ae' = ae_sd ae \<and> pending w' (ae_sd ae) = pending w (ae_sd ae)"
  by (rule send_message_done [OF assms]) (simp add: pending_def pushed_def)

text \<open>What a callback does not touch.\<close>

definition cb_kept :: "ajp_operation \<Rightarrow> ajp_operation \<Rightarrow> bool" where
  "cb_kept q q' \<longleftrightarrow> op_w q' = op_w q \<and> op_shm q' = op_shm q \<and> op_request q' = op_request q \<and>
     op_recoverable q' = op_recoverable q \<and> ae_sd (op_ae q') = ae_sd (op_ae q) \<and> ae_avail (op_ae q') = ae_avail (op_ae q) \<and>
     ae_proto (op_ae q') = ae_proto (op_ae q)"

lemma notify_sel [simp]:
  "op_w (notify e q) = op_w q" "op_shm (notify e q) = op_shm q" "op_request (notify e q) = op_request q"
  "op_recoverable (notify e q) = op_recoverable q" "op_ae (notify e q) = op_ae q" "op_s (notify e q) = op_s q"
  "op_reply (notify e q) = op_reply q" "op_post (notify e q) = op_post q" "op_pool (notify e q) = op_pool q"
  "cl_events (op_cl (notify e q)) = cl_events (op_cl q) @ [e]" "cl_body (op_cl (notify e q)) = cl_body (op_cl q)"
  "cl_reads (op_cl (notify e q)) = cl_reads (op_cl q)" "cl_writes (op_cl (notify e q)) = cl_writes (op_cl q)"
  by (simp_all add: notify_def cl_event_def)

lemma cb_kept_upd [simp]:
  "cb_kept q (q\<lparr>op_reply := m\<rparr>)" "cb_kept q (q\<lparr>op_s := s\<rparr>)" "cb_kept q (q\<lparr>op_cl := c\<rparr>)" "cb_kept q (q\<lparr>op_pool := p\<rparr>)"
  "cb_kept q (q\<lparr>op_post := m\<rparr>)" "cb_kept q (notify e q)" "cb_kept q q"
  by (simp_all add: cb_kept_def)

lemma cb_kept_trans: "cb_kept q q1 \<Longrightarrow> cb_kept q1 q2 \<Longrightarrow> cb_kept q q2"
  by (simp add: cb_kept_def)

lemma start_client_kept:
  assumes "start_client joint res q = Some (rc, q')"
  shows "cb_kept q q'"
  using assms unfolding start_client_def Let_def
  by (elim bind_SomeE) (auto simp: cb_kept_def split: if_splits)

lemma check_status_kept:
  assumes "check_status aw joint res q = Some (rc, q')"
  shows "cb_kept q q'"
proof -
  let ?q = "q\<lparr>op_s := (op_s q)\<lparr>rq_http_response_status := rs_status res\<rparr>\<rparr>"
  have "q' = ?q \<or> start_client joint res ?q = Some (rc, q')"
    using assms unfolding check_status_def Let_def by (elim bind_SomeE) (auto split: if_splits)
  then show ?thesis using cb_kept_trans [OF cb_kept_upd(2) start_client_kept] by (metis cb_kept_upd(2))
qed

lemma send_headers_kept:
  assumes "send_headers aw q = Some (rc, q')"
  shows "cb_kept q q'"
proof (cases "ae_last_op (op_ae q) = JK_AJP13_SEND_HEADERS")
  case True
  then show ?thesis using assms by (simp add: send_headers_def)
next
  case False
  then obtain d msg p where u: "ajp_unmarshal_response (op_pool q) (op_reply q) = Some (d, msg, p)"
    using assms by (cases "ajp_unmarshal_response (op_pool q) (op_reply q)") (auto simp: send_headers_def)
  let ?q = "q\<lparr>op_reply := msg, op_pool := p\<rparr>"
  have k: "cb_kept q ?q" by (simp add: cb_kept_def)
  show ?thesis
  proof (cases d)
    case None
    then show ?thesis using assms False u k by (simp add: send_headers_def)
  next
    case (Some res)
    then obtain joint s1 where "join_headers (op_s q) res = Some (joint, s1)" "check_status aw joint res (?q\<lparr>op_s := s1\<rparr>) = Some (rc, q')"
      using assms False u by (cases "join_headers (op_s q) res") (auto simp: send_headers_def)
    then show ?thesis using cb_kept_trans [OF k cb_kept_trans [OF cb_kept_upd(2) check_status_kept]] by blast
  qed
qed

lemma send_body_chunk_kept: "send_body_chunk q = Some (rc, q') \<Longrightarrow> cb_kept q q'"
  unfolding send_body_chunk_def cb_kept_def Let_def by (auto simp: ub_simps split: if_splits prod.splits)

lemma count_body_ae:
  "count_body chunked n msg ae = Some (rc, msg', ae') \<Longrightarrow>
     ae_sd ae' = ae_sd ae \<and> ae_avail ae' = ae_avail ae \<and> ae_proto ae' = ae_proto ae \<and> ae_last_op ae' = ae_last_op ae"
  unfolding count_body_def Let_def by (auto simp: ub_simps split: if_splits)

lemma read_into_ae:
  assumes "ajp_read_into_msg_buff aw ae r cl msg len = Some (n, msg', ae', r', cl')"
  shows "ae_sd ae' = ae_sd ae \<and> ae_avail ae' = ae_avail ae \<and> ae_proto ae' = ae_proto ae \<and> ae_last_op ae' = ae_last_op ae"
proof -
  have "\<exists>k m x. count_body (rq_is_chunked r) k m ae = Some (x, msg', ae')"
    using assms unfolding ajp_read_into_msg_buff_def Let_def prod.case_eq_if by (elim bind_SomeE) (clarsimp, blast)
  then show ?thesis using count_body_ae by blast
qed

lemma get_body_chunk_kept:
  assumes "get_body_chunk aw q = Some (rc, q')"
  shows "cb_kept q q'"
proof -
  obtain len msg n post ae s cl where r: "jk_b_get_int (op_reply q) = Some (len, msg)"
      "ajp_read_into_msg_buff aw (op_ae q) (op_s q) (op_cl q) (op_post q) (uint len) = Some (n, post, ae, s, cl)"
    using assms unfolding get_body_chunk_def prod.case_eq_if by (elim bind_SomeE) (metis prod.collapse)
  show ?thesis using assms read_into_ae [OF r(2)] by (auto simp: get_body_chunk_def r cb_kept_def Let_def split: if_splits)
qed

lemma end_response_kept: "end_response q = Some (rc, q') \<Longrightarrow> cb_kept q q'"
  unfolding end_response_def cb_kept_def Let_def by (elim bind_SomeE) (auto split: if_splits)

lemma callback_kept: "ajp_process_callback aw q = Some (rc, q') \<Longrightarrow> cb_kept q q'"
proof -
  assume a: "ajp_process_callback aw q = Some (rc, q')"
  then obtain x where "jk_b_get_byte (op_reply q) = Some x" unfolding ajp_process_callback_def by (rule bind_SomeE)
  then obtain c m where "jk_b_get_byte (op_reply q) = Some (c, m)" by (cases x) simp
  then have "cb_kept (q\<lparr>op_reply := m\<rparr>) q'" using a
    by (auto simp: ajp_process_callback_def Let_def cb_kept_def split: if_splits
        dest: send_headers_kept send_body_chunk_kept get_body_chunk_kept end_response_kept)
  then show ?thesis by (simp add: cb_kept_def)
qed

lemma after_callback_go:
  assumes "after_callback rc h q = Some (Inr (h', q'))"
  shows "ae_sd (op_ae q') = ae_sd (op_ae q) \<and> pending (op_w q') (ae_sd (op_ae q)) = pending (op_w q) (ae_sd (op_ae q))"
  using assms
  by (auto simp: after_callback_def Let_def ub_simps op_ep_def set_ep_def dest!: send_message_pending split: if_splits)

lemma wait_reply_kept:
  "wait_reply aw q = (r, q') \<Longrightarrow> op_ae q' = op_ae q \<and> op_shm q' = op_shm q \<and> op_reply q' = op_reply q \<and> op_s q' = op_s q \<and>
     op_recoverable q' = op_recoverable q \<and> w_closed (op_w q') = w_closed (op_w q) \<and>
     pending (op_w q') (ae_sd (op_ae q)) = pending (op_w q) (ae_sd (op_ae q))"
  by (auto simp: wait_reply_def Let_def c_poll_def pending_def upd_conn_def split: if_splits list.splits)

lemma handle_reply_go:
  assumes "handle_reply aw h q = Some (Inr (h', q'))"
  shows "ae_sd (op_ae q') = ae_sd (op_ae q) \<and> pending (op_w q') (ae_sd (op_ae q)) = pending (op_w q) (ae_sd (op_ae q))"
proof -
  obtain x where "ajp_process_callback aw q = Some x" using assms unfolding handle_reply_def by (rule bind_SomeE)
  then obtain rc q1 where c: "ajp_process_callback aw q = Some (rc, q1)" by (cases x) simp
  then have "after_callback rc h (q1\<lparr>op_ae := (op_ae q1)\<lparr>ae_last_op := word_of_int rc\<rparr>\<rparr>) = Some (Inr (h', q'))"
    using assms by (simp add: handle_reply_def)
  from after_callback_go [OF this] callback_kept [OF c] show ?thesis by (simp add: cb_kept_def)
qed

lemma reply_step_shorter:
  assumes "reply_step aw h q = Some (Inr (h', q'))"
  shows "length (pending (op_w q') (ae_sd (op_ae q'))) < length (pending (op_w q) (ae_sd (op_ae q)))"
proof -
  obtain r q0 where w: "wait_reply aw q = (r, q0)" by (cases "wait_reply aw q")
  obtain rc reply ae s wd where g: "ajp_connection_tcp_get_message (op_ep q0) (op_reply q0) = Some (rc, reply, ae, s, wd)"
    using assms w by (cases "ajp_connection_tcp_get_message (op_ep q0) (op_reply q0)") (auto simp: reply_step_def split: if_splits)
  let ?q1 = "(set_ep q0 (ae, s, wd))\<lparr>op_reply := reply\<rparr>"
  have h: "rc = 1" "handle_reply aw h ?q1 = Some (Inr (h', q'))"
    using assms w g by (auto simp: reply_step_def Let_def split: if_splits)
  from get_message_shorter [OF g [unfolded h(1) op_ep_def]] handle_reply_go [OF h(2)] wait_reply_kept [OF w]
  show ?thesis by (simp add: set_ep_def)
qed


section \<open>The request body\<close>

lemma cl_read_spec:
  assumes "cl_read cl n = (r, cl')"
  shows "set (cl_reads cl') \<subseteq> set (cl_reads cl) \<and>
    (case r of None \<Rightarrow> cl_body cl' = cl_body cl \<and> None \<in> set (cl_reads cl)
     | Some bs \<Rightarrow> cl_body cl = bs @ cl_body cl' \<and> length bs \<le> n)"
  using assms by (auto simp: cl_read_def split: list.splits option.splits)

text \<open>The bytes stored are the next bytes of the body; a failure is the failure of a call of \<open>read\<close>.\<close>

lemma read_loop_spec:
  "read_loop padded_len len buf cl = (ok, buf', none, cl') \<Longrightarrow> length buf \<le> len \<Longrightarrow> padded_len \<le> len \<Longrightarrow>
     \<exists>bs. buf' = buf @ bs \<and> cl_body cl = bs @ cl_body cl' \<and> length buf' \<le> len \<and> (ok \<or> None \<in> set (cl_reads cl))"
proof (induction padded_len len buf cl rule: read_loop.induct)
  case (1 padded_len len buf cl)
  show ?case
  proof (cases "length buf < padded_len")
    case False
    then show ?thesis using "1.prems" by (simp add: read_loop.simps)
  next
    case True
    obtain r cl1 where r: "cl_read cl (len - length buf) = (r, cl1)" by fastforce
    note rs = cl_read_spec [OF r]
    show ?thesis
    proof (cases r)
      case None
      then show ?thesis using "1.prems" True r rs by (simp add: read_loop.simps)
    next
      case (Some bs)
      show ?thesis
      proof (cases "bs = []")
        case True
        then show ?thesis using "1.prems" \<open>length buf < padded_len\<close> r rs Some by (simp add: read_loop.simps)
      next
        case False
        have rec: "read_loop padded_len len (buf @ bs) cl1 = (ok, buf', none, cl')"
          using "1.prems"(1) True r Some False by (simp add: read_loop.simps [of padded_len len buf])
        have "length bs \<le> len - length buf" using rs Some by simp
        then have len: "length (buf @ bs) \<le> len" using "1.prems"(2) by simp
        from "1.IH" [OF True r [symmetric] Some False rec len "1.prems"(3)] show ?thesis using rs Some by auto
      qed
    qed
  qed
qed

text \<open>A web server whose calls of \<open>read\<close> store all they can gives the bytes asked for, or the rest of the body.\<close>

lemma read_loop_all:
  assumes "cl_reads cl = []" and "padded_len \<le> len" and "0 < padded_len \<or> len = 0"
  shows "\<exists>none. read_loop padded_len len [] cl = (True, take len (cl_body cl), none, cl\<lparr>cl_body := drop len (cl_body cl)\<rparr>)"
proof -
  let ?bs = "take len (cl_body cl)" and ?cl = "cl\<lparr>cl_body := drop len (cl_body cl)\<rparr>"
  have rd: "cl_read cl len = (Some ?bs, ?cl)" using assms(1) by (simp add: cl_read_def)
  have stop: "\<exists>none. read_loop padded_len len ?bs ?cl = (True, ?bs, none, ?cl)"
  proof (cases "length ?bs < padded_len")
    case True
    then have "drop len (cl_body cl) = []" using assms(2) by simp
    then show ?thesis using True assms(1) by (subst read_loop.simps) (auto simp: cl_read_def)
  next
    case False
    then show ?thesis by (subst read_loop.simps) auto
  qed
  show ?thesis
  proof (cases "0 < padded_len \<and> ?bs \<noteq> []")
    case True
    then show ?thesis using stop rd by (subst read_loop.simps) simp
  next
    case False
    then have "?bs = []" using assms(2,3) by auto
    then show ?thesis using rd stop by (subst read_loop.simps) auto
  qed
qed

lemma read_fully_spec:
  assumes "ajp_read_fully_from_server s cl len = (n, buf, s', cl')"
  shows "cl_body cl = buf @ cl_body cl' \<and> length buf \<le> len \<and>
    (n = int (length buf) \<or> n = JK_CLIENT_RD_ERROR \<and> None \<in> set (cl_reads cl))"
proof (cases "rq_is_chunked s \<and> rq_no_more_chunks s")
  case True
  then show ?thesis using assms by (simp add: ajp_read_fully_from_server_def)
next
  case False
  obtain ok b none c where r: "read_loop (padded (rq_is_chunked s) len) len [] cl = (ok, b, none, c)" by (metis prod_cases4)
  from read_loop_spec [OF this] have "cl_body cl = b @ cl_body c \<and> length b \<le> len \<and> (ok \<or> None \<in> set (cl_reads cl))"
    by (auto simp: padded_def)
  moreover have "buf = b" "cl' = c" "n = (if ok then int (length b) else JK_CLIENT_RD_ERROR)"
    using assms False r by (auto simp: ajp_read_fully_from_server_def Let_def split: if_splits)
  ultimately show ?thesis by auto
qed

lemma body_len_bounds:
  assumes "0 \<le> maxlen" and "maxlen < 65536"
  shows "0 \<le> body_len chunked left maxlen len \<and> body_len chunked left maxlen len \<le> maxlen \<and>
    (\<not> chunked \<longrightarrow> body_len chunked left maxlen len \<le> uint left)"
proof -
  have "uint (word_of_int maxlen :: u64) = maxlen" using assms by (simp add: uint_word_of_int)
  then have "(word_of_int maxlen :: u64) > left \<longleftrightarrow> uint left < maxlen" by (simp add: word_less_def)
  then show ?thesis using assms uint_ge_0 [of left] by (auto simp: body_len_def Let_def)
qed

lemma read_fully_all:
  assumes "cl_reads cl = []" and "\<not> (rq_is_chunked s \<and> rq_no_more_chunks s)"
    and "ajp_read_fully_from_server s cl len = (n, buf, s', cl')" and "len \<noteq> CHUNK_BUFFER_PAD \<or> \<not> rq_is_chunked s"
  shows "buf = take len (cl_body cl)"
proof -
  have "padded (rq_is_chunked s) len \<le> len" "0 < padded (rq_is_chunked s) len \<or> len = 0"
    using assms(4) by (auto simp: padded_def)
  from read_loop_all [OF assms(1) this] show ?thesis
    using assms(2,3) by (auto simp: ajp_read_fully_from_server_def)
qed

text \<open>The body behind its length.\<close>

lemma splice_body:
  assumes "6 + length bs \<le> length B" and "length ib = 2"
  shows "drop 4 (take (6 + length bs) (splice (splice B 6 bs) 4 ib)) = ib @ bs"
  using assms by (simp add: splice_def)

lemma count_body_spec:
  assumes "length (mb_buf msg) = nat (mb_maxlen msg)" and "6 + length bs \<le> length (mb_buf msg)" and "mb_len msg = 4" and "mb_pos msg = 4"
    and "length bs < 65536" and "chunked \<or> length bs \<le> unat (ae_left_bytes_to_send ae)"
  shows "\<exists>msg' ae'. count_body chunked (int (length bs)) (msg\<lparr>mb_buf := splice (mb_buf msg) 6 bs\<rparr>) ae = Some (int (length bs), msg', ae') \<and>
    msg_wf msg' \<and> drop 4 (payload msg') = (if bs = [] then [] else int_bytes (of_nat (length bs)) @ bs) \<and>
    (if chunked then ae' = ae
     else unat (ae_left_bytes_to_send ae') = unat (ae_left_bytes_to_send ae) - length bs)"
proof -
  let ?m = "msg\<lparr>mb_buf := splice (mb_buf msg) 6 bs\<rparr>" and ?ib = "int_bytes (of_nat (length bs))"
  let ?m' = "(appended ?m ?ib)\<lparr>mb_len := mb_len (appended ?m ?ib) + int (length bs)\<rparr>"
  have wf: "msg_wf ?m" and mx: "6 + int (length bs) \<le> mb_maxlen msg" using assms by (auto simp: msg_wf_def)
  have ae: "\<not> chunked \<Longrightarrow> unat (ae_left_bytes_to_send ae - of_nat (length bs)) = unat (ae_left_bytes_to_send ae) - length bs"
    using assms(5,6) by (auto simp: unat_sub word_le_nat_alt unat_of_nat)
  have ap: "jk_b_append_int ?m (word_of_int (int (length bs))) = Some (0, appended ?m ?ib)"
    using append_scalar_spec(1) [OF wf] mx assms(3) by (simp add: fits_def int_bytes_def)
  show ?thesis
  proof (cases "bs = []")
    case True
    then show ?thesis using wf ae assms(3) by (auto simp: count_body_def payload_def)
  next
    case False
    have "msg_wf ?m'" using wf mx assms(3) by (simp add: msg_wf_def appended_def int_bytes_def)
    moreover have "drop 4 (payload ?m') = ?ib @ bs"
      using splice_body [OF assms(2), of ?ib] assms(3) by (simp add: payload_def appended_def int_bytes_def nat_add_distrib)
    ultimately show ?thesis using False ae ap by (simp add: count_body_def)
  qed
qed

text \<open>Claim C9: reading a part of the request body is defined for a buffer of the packet size. The bytes stored are
  the next bytes of the body. An error is the failure of a call of \<open>read\<close>. Otherwise the message fits the packet and
  is the number of the bytes and the bytes (nothing for no bytes), and the count of the bytes left to send goes
  down by their number without wrapping below zero. If the web server delivers all it is asked for, the bytes
  are as many as were asked for or the rest of the body.\<close>

theorem upload_exact:
  assumes "length (mb_buf msg) = nat (mb_maxlen msg)" and "uint (aw_max_packet_size aw) \<le> mb_maxlen msg"
    and "6 \<le> uint (aw_max_packet_size aw)" and "uint (aw_max_packet_size aw) \<le> 65536"
  shows "\<exists>n msg' ae' r' cl' bs. ajp_read_into_msg_buff aw ae r cl msg len = Some (n, msg', ae', r', cl') \<and>
    cl_body cl = bs @ cl_body cl' \<and>
    (cl_reads cl = [] \<and> \<not> rq_is_chunked r \<longrightarrow> bs = take (nat (body_len False (ae_left_bytes_to_send ae) (uint (aw_max_packet_size aw) - 6) len)) (cl_body cl)) \<and>
    (n = JK_CLIENT_RD_ERROR \<and> None \<in> set (cl_reads cl) \<or>
     n = int (length bs) \<and> msg_wf msg' \<and> 6 + n \<le> uint (aw_max_packet_size aw) \<and>
     drop 4 (payload msg') = (if bs = [] then [] else int_bytes (of_nat (length bs)) @ bs) \<and>
     (if rq_is_chunked r then ae' = ae
      else unat (ae_left_bytes_to_send ae') + length bs = unat (ae_left_bytes_to_send ae)))"
proof -
  let ?c = "rq_is_chunked r" and ?mx = "uint (aw_max_packet_size aw) - 6" and ?m0 = "jk_b_reset msg"
  let ?size = "body_len ?c (ae_left_bytes_to_send ae) ?mx len"
  have mx: "0 \<le> ?mx" "?mx < 65536" using assms(3,4) by simp_all
  have bl: "0 \<le> ?size" "?size \<le> ?mx" "\<not> ?c \<Longrightarrow> ?size \<le> uint (ae_left_bytes_to_send ae)"
    using body_len_bounds [OF mx, of ?c "ae_left_bytes_to_send ae" len] by simp_all
  have ul: "unat (word_of_int ?size :: u32) = nat ?size" using bl mx by (simp add: unat_eq_nat_uint uint_word_of_int)
  obtain n bs r' cl' where rd: "ajp_read_fully_from_server r cl (nat ?size) = (n, bs, r', cl')" by (metis prod_cases4)
  note rs = read_fully_spec [OF rd]
  have lb: "int (length bs) \<le> ?size" using rs bl(1) by linarith
  have m0: "length (mb_buf ?m0) = nat (mb_maxlen ?m0)" "mb_len ?m0 = 4" "mb_pos ?m0 = 4" "mb_maxlen ?m0 = mb_maxlen msg"
    using assms(1) by (simp_all add: jk_b_reset_def)
  have fit: "6 + length bs \<le> length (mb_buf ?m0)" using lb bl(2) assms(2) m0(1,4) by linarith
  let ?b = "splice (mb_buf ?m0) 6 bs"
  have pk: "poke (mb_buf ?m0) 6 bs = Some ?b" using fit by (rule poke_in)
  have eq: "ajp_read_into_msg_buff aw ae r cl msg len =
      do { (rc, m, ae') \<leftarrow> count_body ?c n (?m0\<lparr>mb_buf := ?b\<rparr>) ae; Some (rc, m, ae', r', cl') }"
    using rd pk ul by (simp add: ajp_read_into_msg_buff_def Let_def AJP_HEADER_LEN_def AJP_HEADER_SZ_LEN_def)
  have all: "cl_reads cl = [] \<and> \<not> ?c \<longrightarrow> bs = take (nat (body_len False (ae_left_bytes_to_send ae) ?mx len)) (cl_body cl)"
    using read_fully_all [OF _ _ rd] by auto
  show ?thesis
  proof (cases "n = int (length bs)")
    case True
    have "length bs \<le> unat (ae_left_bytes_to_send ae)" if "\<not> ?c"
      using lb bl(3) [OF that] unfolding unat_eq_nat_uint by linarith
    moreover have "length bs < 65536" using lb bl(2) mx(2) by linarith
    ultimately have small: "length bs < 65536" "?c \<or> length bs \<le> unat (ae_left_bytes_to_send ae)" by blast+
    obtain msg' ae' where
      "count_body ?c n (?m0\<lparr>mb_buf := ?b\<rparr>) ae = Some (n, msg', ae')" and m': "msg_wf msg'"
      "drop 4 (payload msg') = (if bs = [] then [] else int_bytes (of_nat (length bs)) @ bs)"
      "if ?c then ae' = ae else unat (ae_left_bytes_to_send ae') = unat (ae_left_bytes_to_send ae) - length bs"
      using count_body_spec [OF m0(1) fit m0(2,3) small] unfolding True by blast
    then have run: "ajp_read_into_msg_buff aw ae r cl msg len = Some (n, msg', ae', r', cl')" by (simp add: eq)
    have "if ?c then ae' = ae else unat (ae_left_bytes_to_send ae') + length bs = unat (ae_left_bytes_to_send ae)"
      using m'(3) small(2) by (cases ?c) simp_all
    moreover have "6 + n \<le> uint (aw_max_packet_size aw)" using lb bl(2) True by linarith
    ultimately show ?thesis using run rs all True m'(1,2) by blast
  next
    case False
    then have "n = JK_CLIENT_RD_ERROR" "None \<in> set (cl_reads cl)" using rs by auto
    then show ?thesis using eq rs all by (simp add: count_body_def JK_CLIENT_RD_ERROR_def)
  qed
qed

section \<open>The response body\<close>

text \<open>A chunk of the response body as the container encodes it, with bytes behind it.\<close>

definition chunk_msg :: "u8 list \<Rightarrow> u8 list \<Rightarrow> u8 list" where
  "chunk_msg d t = JK_AJP13_SEND_BODY_CHUNK # int_bytes (of_nat (length d)) @ d @ t"

text \<open>What the web server has seen, but for the flushes.\<close>

definition seen :: "client \<Rightarrow> client_event list" where
  "seen cl = filter (\<lambda>e. e \<noteq> Ev_flush) (cl_events cl)"

lemma seen_event [simp]: "seen (cl_event e cl) = seen cl @ (if e = Ev_flush then [] else [e])"
  by (simp add: seen_def cl_event_def)

lemma seen_upd [simp]: "seen (cl\<lparr>cl_writes := x\<rparr>) = seen cl" "cl_writes (cl_event e cl) = cl_writes cl"
  by (simp_all add: seen_def cl_event_def)

text \<open>A message at its second byte, behind the code.\<close>

definition body_msg :: "jk_msg_buf \<Rightarrow> u16 \<Rightarrow> u8 list \<Rightarrow> bool" where
  "body_msg m n t \<longleftrightarrow> msg_wf m \<and> mb_pos m = 1 \<and> length t < 65536 \<and> (\<exists>c. payload m = c # int_bytes n @ t)"

lemma body_msg_facts:
  assumes "body_msg m n t"
  shows "jk_b_get_int m = Some (n, advanced m 2)" "mb_len m = 3 + int (length t)" "mb_pos (advanced m 2) = 3"
    "take k (drop 3 (mb_buf m)) = take k t \<or> length t < k" "3 + length t \<le> length (mb_buf m)"
proof -
  obtain c where m: "msg_wf m" "mb_pos m = 1" "payload m = c # int_bytes n @ t" using assms by (auto simp: body_msg_def)
  then have "unread m = int_bytes n @ t" by (simp add: unread_def)
  with m show "jk_b_get_int m = Some (n, advanced m 2)" by (simp add: get_int_spec)
  have l: "nat (mb_len m) \<le> length (mb_buf m)" "0 \<le> mb_len m" using m(1) by (auto simp: msg_wf_def)
  then have "length (payload m) = nat (mb_len m)" by (simp add: payload_def)
  then show 1: "mb_len m = 3 + int (length t)" using m(3) l(2) by (simp add: int_bytes_def)
  show "mb_pos (advanced m 2) = 3" using m(2) by (simp add: advanced_def)
  show "3 + length t \<le> length (mb_buf m)" using 1 l(1) by simp
  have "t = drop 3 (payload m)" using m(3) by (simp add: int_bytes_def)
  also have "\<dots> = take (length t) (drop 3 (mb_buf m))" using 1 by (simp add: payload_def drop_take nat_add_distrib)
  finally have "t = take (length t) (drop 3 (mb_buf m))" .
  then show "take k (drop 3 (mb_buf m)) = take k t \<or> length t < k" by (metis min_absorb1 not_le take_take)
qed

text \<open>The callback for a chunk, on every branch.\<close>

definition chunk_done :: "ajp_operation \<Rightarrow> u16 \<Rightarrow> u8 list \<Rightarrow> int \<Rightarrow> ajp_operation \<Rightarrow> bool" where
  "chunk_done q n t rc q' \<longleftrightarrow>
     (if length t < unat n then rc = JK_INTERNAL_ERROR \<and> op_cl q' = op_cl q
      else if n = 0 then
        rc = JK_AJP13_NO_RESPONSE \<and>
        op_cl q' = (if rq_response_started (op_s q) \<and> rq_flush (op_s q) then cl_event Ev_flush (op_cl q) else op_cl q)
      else if cl_writes (op_cl q) = [] \<or> hd (cl_writes (op_cl q)) then
        rc = JK_AJP13_NO_RESPONSE \<and> seen (op_cl q') = seen (op_cl q) @ [Ev_write (take (unat n) t)] \<and>
        cl_writes (op_cl q') = tl (cl_writes (op_cl q))
      else rc = JK_CLIENT_WR_ERROR \<and> op_cl q' = op_cl q\<lparr>cl_writes := tl (cl_writes (op_cl q))\<rparr>)"

lemma send_body_chunk_run:
  assumes "body_msg (op_reply q) n t" and "ae_last_op (op_ae q) \<noteq> JK_AJP13_FORWARD_REQUEST" and "\<not> rq_response_blocked (op_s q)"
  shows "\<exists>rc q'. send_body_chunk q = Some (rc, q') \<and> chunk_done q n t rc q' \<and>
    op_s q' = op_s q \<and> op_ae q' = op_ae q \<and> op_reply q' = advanced (op_reply q) 2"
proof -
  note f = body_msg_facts [OF assms(1)]
  have "unat n < 65536" using unsigned_less [of n] by simp
  then have big: "(ucast n :: u32) > word_of_int (mb_len (advanced (op_reply q) 2) - 3) \<longleftrightarrow> length t < unat n"
    using f(2) assms(1)
    by (simp add: body_msg_def advanced_def word_less_nat_alt unsigned_ucast_eq unat_of_nat take_bit_nat_eq_self)
  let ?q1 = "q\<lparr>op_reply := advanced (op_reply q) 2\<rparr>"
  consider "length t < unat n" | "n = 0" | "\<not> length t < unat n" "n \<noteq> 0" by blast
  then show ?thesis
  proof cases
    case 3
    then have d: "take (unat n) (drop 3 (mb_buf (op_reply q))) = take (unat n) t" "3 + unat n \<le> length (mb_buf (op_reply q))"
      using f(4,5) by (blast, simp)
    obtain ok cl where w: "cl_write (op_cl q) (take (unat n) t) = (ok, cl)" by fastforce
    then have cl: "ok = (cl_writes (op_cl q) = [] \<or> hd (cl_writes (op_cl q)))"
        "if ok then seen cl = seen (op_cl q) @ [Ev_write (take (unat n) t)] \<and> cl_writes cl = tl (cl_writes (op_cl q))
         else cl = op_cl q\<lparr>cl_writes := tl (cl_writes (op_cl q))\<rparr>"
      by (auto simp: cl_write_def split: list.splits if_splits)
    have "send_body_chunk q = Some (if \<not> ok then (JK_CLIENT_WR_ERROR, ?q1\<lparr>op_cl := cl\<rparr>)
       else (JK_AJP13_NO_RESPONSE, if rq_flush (op_s q) \<and> rq_flush_packets (op_s q) then notify Ev_flush (?q1\<lparr>op_cl := cl\<rparr>) else ?q1\<lparr>op_cl := cl\<rparr>))"
      using 3 assms(2,3) f(1,3) big d w by (simp add: send_body_chunk_def Let_def advanced_def)
    then show ?thesis using 3 cl by (cases ok) (auto simp: chunk_done_def notify_def)
  qed (use assms(2,3) f(1,3) big in \<open>auto simp: chunk_done_def send_body_chunk_def Let_def notify_def\<close>)
qed

text \<open>A message just read from the connection.\<close>

definition loaded :: "jk_msg_buf \<Rightarrow> u8 list \<Rightarrow> bool" where
  "loaded m p \<longleftrightarrow> msg_wf m \<and> mb_pos m = 0 \<and> payload m = p"

lemma loaded_code:
  assumes "loaded m (c # p)"
  shows "jk_b_get_byte m = Some (c, advanced m 1)" "msg_wf (advanced m 1)" "mb_pos (advanced m 1) = 1"
    "payload (advanced m 1) = c # p" "unread (advanced m 1) = p" "mb_maxlen (advanced m 1) = mb_maxlen m"
  using assms get_byte_spec [of m c p] by (auto simp: loaded_def unread_def advanced_def payload_def msg_wf_def)

text \<open>No timeout is set for the reply.\<close>

definition no_timeout :: "ajp_worker \<Rightarrow> ajp_operation \<Rightarrow> bool" where
  "no_timeout aw q \<longleftrightarrow> (if rq_reply_timeout (op_s q) < 0 then aw_reply_timeout aw else rq_reply_timeout (op_s q)) \<le> 0"

definition pending_reply :: "ajp_operation \<Rightarrow> u8 list" where
  "pending_reply q = pending (op_w q) (ae_sd (op_ae q))"

text \<open>The endpoint can read a message.\<close>

definition can_read :: "ajp_worker \<Rightarrow> ajp_operation \<Rightarrow> bool" where
  "can_read aw q \<longleftrightarrow> (ae_proto (op_ae q) = AJP13_PROTO \<or> ae_proto (op_ae q) = AJP14_PROTO) \<and> msg_wf (op_reply q) \<and> no_timeout aw q"

lemma reply_step_frame:
  assumes "can_read aw q" and "pending_reply q = ajp_frame (sw_header (op_ae q)) p @ rest" and "length p < 65536"
    and "int (length p) \<le> mb_maxlen (op_reply q)"
  shows "\<exists>m ae w. reply_step aw h q = handle_reply aw h (q\<lparr>op_ae := ae, op_w := w, op_reply := m\<rparr>) \<and>
    loaded m p \<and> mb_maxlen m = mb_maxlen (op_reply q) \<and> (\<exists>r. ae = (op_ae q)\<lparr>ae_rd := r\<rparr>) \<and> pending w (ae_sd (op_ae q)) = rest"
proof -
  have pr: "ae_proto (op_ae q) = AJP13_PROTO \<or> ae_proto (op_ae q) = AJP14_PROTO" and wf: "msg_wf (op_reply q)"
    and wt: "wait_reply aw q = (True, q)"
    using assms(1) by (simp_all add: can_read_def wait_reply_def no_timeout_def Let_def)
  have ml: "mb_maxlen (op_reply q) \<le> int (length (mb_buf (op_reply q)))" using wf by (simp add: msg_wf_def)
  let ?fr = "framed (op_ae q) (op_reply q) (pending (op_w q) (ae_sd (op_ae q)))"
  have f0: "?fr p rest" using assms(2-4) by (simp add: framed_def pending_reply_def)
  have fr: "p' = p \<and> rest' = rest" if "?fr p' rest'" for p' rest' using f0 that by (simp flip: next_frame_iff)
  let ?m = "(op_reply q)\<lparr>mb_len := int (length p), mb_pos := 0, mb_buf := splice (mb_buf (op_reply q)) 0 p\<rparr>"
  obtain es r where g: "ajp_connection_tcp_get_message (op_ae q, op_shm q, op_w q) (op_reply q) =
      Some (1, ?m, (op_ae q)\<lparr>ae_rd := r\<rparr>, op_shm q, set_rx (op_w q) (ae_sd (op_ae q)) es)" "rx_stream es = rest"
    using get_message_cases [OF pr ml, of "op_w q" "op_shm q"]
  proof (elim disjE exE conjE)
    fix p' rest' es r
    assume "?fr p' rest'"
    then have "p' = p" "rest' = rest" using fr by auto
    moreover assume "rx_stream es = rest'" and "ajp_connection_tcp_get_message (op_ae q, op_shm q, op_w q) (op_reply q) =
      Some (1, (op_reply q)\<lparr>mb_len := int (length p'), mb_pos := 0, mb_buf := splice (mb_buf (op_reply q)) 0 p'\<rparr>,
        (op_ae q)\<lparr>ae_rd := r\<rparr>, op_shm q, set_rx (op_w q) (ae_sd (op_ae q)) es)"
    ultimately show thesis using that by simp
  qed (use f0 in blast)
  have "loaded ?m p" using wf assms(4) by (auto simp: loaded_def msg_wf_def payload_def splice_def)
  moreover have "reply_step aw h q = handle_reply aw h (q\<lparr>op_ae := (op_ae q)\<lparr>ae_rd := r\<rparr>, op_w := set_rx (op_w q) (ae_sd (op_ae q)) es, op_reply := ?m\<rparr>)"
    using wt g(1) by (simp add: reply_step_def op_ep_def set_ep_def)
  moreover have "mb_maxlen ?m = mb_maxlen (op_reply q)" "pending (set_rx (op_w q) (ae_sd (op_ae q)) es) (ae_sd (op_ae q)) = rest"
    using g(2) by simp_all
  ultimately show ?thesis by blast
qed

lemmas reply_codes = JK_AJP13_END_RESPONSE_def JK_AJP13_SEND_HEADERS_def JK_AJP13_SEND_BODY_CHUNK_def JK_AJP13_GET_BODY_CHUNK_def
  JK_AJP13_FORWARD_REQUEST_def JK_AJP13_HAS_RESPONSE_def JK_AJP13_ERROR_def
  JK_CLIENT_RD_ERROR_def JK_CLIENT_WR_ERROR_def JK_INTERNAL_ERROR_def JK_AJP13_NO_RESPONSE_def

text \<open>Claim C10: a chunk of the response body, in a message that has its length, is written to the client exactly when
  the length is not greater than the rest of the message; the bytes written are those behind the length, and
  a failure of the write is reported. A chunk of length zero is a flush, ignored before the response has
  started. For a longer chunk nothing is written and the error is reported.\<close>

theorem chunk_exact:
  assumes "body_msg (op_reply q) n t" and "ae_last_op (op_ae q) \<noteq> JK_AJP13_FORWARD_REQUEST" and "\<not> rq_response_blocked (op_s q)"
  shows "\<exists>rc q'. send_body_chunk q = Some (rc, q') \<and> chunk_done q n t rc q'"
  using send_body_chunk_run [OF assms] by blast

text \<open>The check of the length is made without sign: a message that ends behind the code passes it with the length
  65535 that stands for a missing number, and the write reads beyond the message buffer.\<close>

theorem bare_chunk_reads_beyond:
  assumes "loaded (op_reply q) [JK_AJP13_SEND_BODY_CHUNK]" and "length (mb_buf (op_reply q)) < 65536"
    and "ae_last_op (op_ae q) \<noteq> JK_AJP13_FORWARD_REQUEST" and "\<not> rq_response_blocked (op_s q)"
  shows "ajp_process_callback aw q = None"
proof -
  let ?m = "advanced (op_reply q) 1"
  note c = loaded_code [OF assms(1)]
  have wf: "msg_wf (op_reply q)" and p: "payload (op_reply q) = [JK_AJP13_SEND_BODY_CHUNK]" using assms(1) by (simp_all add: loaded_def)
  have "length (payload (op_reply q)) = nat (mb_len (op_reply q))" using wf by (auto simp: payload_def msg_wf_def)
  then have l: "mb_len ?m = 1" using p by (simp add: advanced_def)
  then have "jk_b_get_int ?m = Some (0xFFFF, ?m)" using c(3) by (simp add: jk_b_get_int_def)
  then have "send_body_chunk (q\<lparr>op_reply := ?m\<rparr>) = None"
    using assms(2-4) c(3) l by (simp add: send_body_chunk_def guard_def)
  then show ?thesis using c(1) by (simp add: ajp_process_callback_def reply_codes)
qed

text \<open>The state between the headers and the end of a response that reaches the client.\<close>

definition streaming :: "ajp_worker \<Rightarrow> ajp_operation \<Rightarrow> bool" where
  "streaming aw q \<longleftrightarrow> can_read aw q \<and> \<not> rq_response_blocked (op_s q) \<and> ae_last_op (op_ae q) \<noteq> JK_AJP13_FORWARD_REQUEST \<and>
     cl_writes (op_cl q) = []"

definition msg_fits :: "ajp_operation \<Rightarrow> u8 list \<Rightarrow> bool" where
  "msg_fits q p \<longleftrightarrow> length p < 65536 \<and> int (length p) \<le> mb_maxlen (op_reply q)"

lemma chunk_step:
  assumes "streaming aw q" and "pending_reply q = ajp_frame (sw_header (op_ae q)) (chunk_msg d t) @ rest"
    and "msg_fits q (chunk_msg d t)" and "d \<noteq> []"
  shows "\<exists>q'. reply_step aw h q = Some (Inr (h, q')) \<and> streaming aw q' \<and> seen (op_cl q') = seen (op_cl q) @ [Ev_write d] \<and>
    pending_reply q' = rest \<and> sw_header (op_ae q') = sw_header (op_ae q) \<and> mb_maxlen (op_reply q') = mb_maxlen (op_reply q) \<and>
    op_s q' = op_s q"
proof -
  let ?p = "chunk_msg d t" and ?n = "of_nat (length d) :: u16"
  obtain m ae w where st: "reply_step aw h q = handle_reply aw h (q\<lparr>op_ae := ae, op_w := w, op_reply := m\<rparr>)"
      and m: "loaded m ?p" "mb_maxlen m = mb_maxlen (op_reply q)" and ae: "\<exists>r. ae = (op_ae q)\<lparr>ae_rd := r\<rparr>"
      and w: "pending w (ae_sd (op_ae q)) = rest"
    using reply_step_frame [of aw q ?p rest h] assms(1-3) unfolding streaming_def msg_fits_def by blast
  let ?m1 = "advanced m 1"
  let ?q1 = "q\<lparr>op_ae := ae, op_w := w, op_reply := ?m1\<rparr>"
  note c = loaded_code [OF m(1) [unfolded chunk_msg_def]]
  have dl: "length d < 65536" using assms(3) by (simp add: msg_fits_def chunk_msg_def int_bytes_def)
  have bm: "body_msg (op_reply ?q1) ?n (d @ t)"
    using c(2-4) assms(3) by (auto simp: body_msg_def msg_fits_def chunk_msg_def int_bytes_def)
  have "ae_last_op (op_ae ?q1) \<noteq> JK_AJP13_FORWARD_REQUEST" "\<not> rq_response_blocked (op_s ?q1)"
    using assms(1) ae by (auto simp: streaming_def)
  from send_body_chunk_run [OF bm this] obtain rc q2 where run: "send_body_chunk ?q1 = Some (rc, q2)" "chunk_done ?q1 ?n (d @ t) rc q2"
      and same: "op_s q2 = op_s q" "op_ae q2 = ae" "op_reply q2 = advanced ?m1 2" by auto
  have nd: "unat ?n = length d" "?n \<noteq> 0" using dl assms(4) by (simp_all add: unat_of_nat word_unat_eq_iff)
  have dn: "rc = JK_AJP13_NO_RESPONSE" "seen (op_cl q2) = seen (op_cl q) @ [Ev_write d]" "cl_writes (op_cl q2) = []"
    using run(2) nd assms(1) by (auto simp: chunk_done_def streaming_def)
  have cb: "ajp_process_callback aw (q\<lparr>op_ae := ae, op_w := w, op_reply := m\<rparr>) = Some (rc, q2)"
    using c(1) run(1) by (simp add: ajp_process_callback_def reply_codes)
  let ?q' = "q2\<lparr>op_ae := (op_ae q2)\<lparr>ae_last_op := word_of_int rc\<rparr>\<rparr>"
  have "reply_step aw h q = Some (Inr (h, ?q'))"
    using st cb dn(1) by (simp add: handle_reply_def after_callback_def reply_codes)
  moreover have "op_w q2 = w" using callback_kept [OF cb] by (simp add: cb_kept_def)
  moreover have "msg_wf (advanced ?m1 2)" using c(2) by (simp add: msg_wf_def advanced_def)
  ultimately show ?thesis using same dn ae w m(2) assms(1)
    by (intro exI [of _ ?q']) (auto simp: streaming_def can_read_def no_timeout_def pending_reply_def sw_header_def advanced_def reply_codes)
qed

text \<open>The end of the response, and the body up to it.\<close>

definition end_msg :: "u8 \<Rightarrow> u8 list" where
  "end_msg reuse = [JK_AJP13_END_RESPONSE, reuse]"

definition done_events :: "ws_request \<Rightarrow> client_event list" where
  "done_events s = (if rq_done s then [Ev_done] else [])"

lemma end_step:
  assumes "streaming aw q" and "pending_reply q = ajp_frame (sw_header (op_ae q)) (end_msg reuse) @ rest" and "msg_fits q (end_msg reuse)"
  shows "\<exists>q'. reply_step aw h q = Some (Inl (1, q')) \<and> seen (op_cl q') = seen (op_cl q) @ done_events (op_s q) \<and>
    pending_reply q' = rest \<and> ae_reuse (op_ae q') = (reuse \<noteq> 0 \<and> \<not> rq_disable_reuse (op_s q))"
proof -
  obtain m ae w where st: "reply_step aw h q = handle_reply aw h (q\<lparr>op_ae := ae, op_w := w, op_reply := m\<rparr>)"
      and m: "loaded m (end_msg reuse)" and ae: "\<exists>r. ae = (op_ae q)\<lparr>ae_rd := r\<rparr>" and w: "pending w (ae_sd (op_ae q)) = rest"
    using reply_step_frame [of aw q "end_msg reuse" rest h] assms unfolding streaming_def msg_fits_def by blast
  note c = loaded_code [OF m [unfolded end_msg_def]]
  let ?q0 = "q\<lparr>op_ae := ae, op_w := w, op_reply := m\<rparr>"
  let ?q1 = "?q0\<lparr>op_reply := advanced (advanced m 1) 1, op_ae := ae\<lparr>ae_reuse := (reuse \<noteq> 0 \<and> \<not> rq_disable_reuse (op_s q))\<rparr>\<rparr>"
  let ?q2 = "if rq_done (op_s q) then notify Ev_done ?q1
    else if rq_flush (op_s q) \<and> \<not> rq_flush_packets (op_s q) then notify Ev_flush ?q1 else ?q1"
  have g: "jk_b_get_byte (advanced m 1) = Some (reuse, advanced (advanced m 1) 1)" using get_byte_spec [OF c(2,5)] .
  have cb: "ajp_process_callback aw ?q0 = Some (uint JK_AJP13_END_RESPONSE, ?q2)"
    using c(1) g assms(1) by (simp add: ajp_process_callback_def end_response_def streaming_def reply_codes Let_def)
  let ?q' = "?q2\<lparr>op_ae := (op_ae ?q2)\<lparr>ae_last_op := word_of_int (uint JK_AJP13_END_RESPONSE)\<rparr>\<rparr>"
  have run: "reply_step aw h q = Some (Inl (1, ?q'))" unfolding st handle_reply_def cb by (simp add: after_callback_def)
  have ev: "seen (op_cl ?q2) = seen (op_cl q) @ done_events (op_s q)" by (simp add: done_events_def seen_def)
  have ep: "op_w ?q2 = w" "op_ae ?q2 = ae\<lparr>ae_reuse := (reuse \<noteq> 0 \<and> \<not> rq_disable_reuse (op_s q))\<rparr>" by simp_all
  have "pending_reply ?q' = rest \<and> ae_reuse (op_ae ?q') = (reuse \<noteq> 0 \<and> \<not> rq_disable_reuse (op_s q))"
    using ae w unfolding pending_reply_def ajp_operation.select_convs ajp_operation.update_convs by (auto simp: ep)
  then show ?thesis using run ev by (intro exI [of _ ?q']) simp
qed

lemma body_delivered:
  assumes "streaming aw q"
    and "pending_reply q = concat (map (\<lambda>(d, t). ajp_frame (sw_header (op_ae q)) (chunk_msg d t)) ds) @
           ajp_frame (sw_header (op_ae q)) (end_msg reuse) @ rest"
    and "list_all (\<lambda>(d, t). d \<noteq> [] \<and> msg_fits q (chunk_msg d t)) ds" and "msg_fits q (end_msg reuse)"
  shows "\<exists>q'. reply_loop aw h q = Some (Some (1, q')) \<and> seen (op_cl q') = seen (op_cl q) @ map (Ev_write \<circ> fst) ds @ done_events (op_s q) \<and>
    pending_reply q' = rest \<and> ae_reuse (op_ae q') = (reuse \<noteq> 0 \<and> \<not> rq_disable_reuse (op_s q))"
  using assms
proof (induction ds arbitrary: q)
  case Nil
  then obtain q' where "reply_step aw h q = Some (Inl (1, q'))" "seen (op_cl q') = seen (op_cl q) @ done_events (op_s q)"
      "pending_reply q' = rest" "ae_reuse (op_ae q') = (reuse \<noteq> 0 \<and> \<not> rq_disable_reuse (op_s q))"
    using end_step [of aw q reuse rest h] by auto
  then show ?case by (subst reply_loop.simps) simp
next
  case (Cons x ds)
  obtain d t where x: "x = (d, t)" by (cases x)
  let ?rest = "concat (map (\<lambda>(d, t). ajp_frame (sw_header (op_ae q)) (chunk_msg d t)) ds) @ ajp_frame (sw_header (op_ae q)) (end_msg reuse) @ rest"
  have "pending_reply q = ajp_frame (sw_header (op_ae q)) (chunk_msg d t) @ ?rest" "msg_fits q (chunk_msg d t)" "d \<noteq> []"
    using Cons.prems(2,3) by (simp_all add: x)
  from chunk_step [OF Cons.prems(1) this, of h] obtain q1 where st: "reply_step aw h q = Some (Inr (h, q1))"
      and q1: "streaming aw q1" "seen (op_cl q1) = seen (op_cl q) @ [Ev_write d]" "pending_reply q1 = ?rest"
      "sw_header (op_ae q1) = sw_header (op_ae q)" "mb_maxlen (op_reply q1) = mb_maxlen (op_reply q)" "op_s q1 = op_s q" by blast
  have mf: "msg_fits q1 p = msg_fits q p" for p by (simp add: msg_fits_def q1(5))
  obtain q' where "reply_loop aw h q1 = Some (Some (1, q'))" "seen (op_cl q') = seen (op_cl q1) @ map (Ev_write \<circ> fst) ds @ done_events (op_s q1)"
      "pending_reply q' = rest" "ae_reuse (op_ae q') = (reuse \<noteq> 0 \<and> \<not> rq_disable_reuse (op_s q1))"
    using Cons.IH [of q1] q1(1,3,4) Cons.prems(3,4) by (auto simp: mf)
  then show ?case using st q1(2,6) x by (subst reply_loop.simps) simp
qed

text \<open>The headers.\<close>

definition headers_msg :: "u16 \<Rightarrow> string option \<Rightarrow> ((u16 + string) \<times> string) list \<Rightarrow> u8 list" where
  "headers_msg status txt hs = JK_AJP13_SEND_HEADERS # enc_response status txt hs"

definition start_event :: "u16 \<Rightarrow> string option \<Rightarrow> ((u16 + string) \<times> string) list \<Rightarrow> client_event" where
  "start_event status txt hs = Ev_start (uint status) txt (map (\<lambda>(n, v). (n, Some v)) (map res_header hs))"

text \<open>A status that is not one of those the configuration takes for a failure, and the endpoint's pool has memory for
  the arrays of the headers.\<close>

definition status_passes :: "ajp_worker \<Rightarrow> ws_request \<Rightarrow> int \<Rightarrow> bool" where
  "status_passes aw s status \<longleftrightarrow>
     (let fails = (if rq_fail_on_status s \<noteq> [] then rq_fail_on_status s else aw_http_status_fail aw) in
      is_http_status_fail (of_nat (length fails)) fails status = Some 0)"

definition pool_has :: "mem \<Rightarrow> nat \<Rightarrow> bool" where
  "pool_has p n \<longleftrightarrow> n = 0 \<or> (\<exists>a b p1 p2. jk_pool_alloc p (8 * of_nat n) = Some (Some a, p1) \<and> jk_pool_alloc p1 (8 * of_nat n) = Some (Some b, p2))"

lemma unmarshal_pool:
  assumes "msg_wf m" and "unread m = enc_response status txt hs @ rest"
    and "status \<noteq> 0" and "field_ok (F_str txt)" and "list_all res_header_ok hs" and "length hs < 65536" and "pool_has p (length hs)"
  obtains d p' where "ajp_unmarshal_response p m = Some (Some d, advanced m (length (enc_response status txt hs)), p')"
    "res_view m d = Some (uint status, txt, length hs, map res_header hs)"
proof (cases "hs = []")
  case True
  then show ?thesis using unmarshal_spec [OF assms(1-6), of p undefined p] that by blast
next
  case False
  then obtain a b p1 p2 where "jk_pool_alloc p (8 * of_nat (length hs)) = Some (Some a, p1)" "jk_pool_alloc p1 (8 * of_nat (length hs)) = Some (Some b, p2)"
    using assms(7) by (auto simp: pool_has_def)
  from unmarshal_spec [OF assms(1-6) this] show ?thesis using that by blast
qed

lemma res_texts_advanced: "res_texts (advanced m k) xs = res_texts m xs"
  by (induction xs) (simp_all add: res_text_def advanced_def split: res_name.split)

lemma header_view:
  assumes "res_view m d = Some (st, txt, n, hs)" and "n = length hs"
  shows "reason_text (advanced m k) d = Some txt" "header_texts False s (advanced m k) d = Some (map (\<lambda>(n, v). (n, Some v)) hs)" "rs_status d = st"
proof -
  obtain t xs where v: "(case rs_msg d of None \<Rightarrow> Some None | Some off \<Rightarrow> do { x \<leftarrow> cstr_at (mb_buf m) off; Some (Some x) }) = Some t"
      "res_texts m (case rs_headers d of None \<Rightarrow> [] | Some xs \<Rightarrow> xs) = Some xs" "rs_status d = st" "t = txt" "rs_num_headers d = n" "xs = hs"
    using assms(1) unfolding res_view_def by (elim bind_SomeE) auto
  show "reason_text (advanced m k) d = Some txt" using v(1,4) by (auto simp: reason_text_def advanced_def split: option.splits)
  have "rs_num_headers d = 0 \<or> rs_headers d \<noteq> None" using v(2,5,6) assms(2) by (cases "rs_headers d") auto
  then show "header_texts False s (advanced m k) d = Some (map (\<lambda>(n, v). (n, Some v)) hs)"
    using v(2,6) by (simp add: header_texts_def res_texts_advanced)
  show "rs_status d = st" by (rule v(3))
qed

text \<open>A request whose response can reach the client unchanged.\<close>

definition plain_request :: "ajp_worker \<Rightarrow> ajp_operation \<Rightarrow> u16 \<Rightarrow> bool" where
  "plain_request aw q status \<longleftrightarrow> can_read aw q \<and> ae_last_op (op_ae q) \<noteq> JK_AJP13_SEND_HEADERS \<and> sv_resp_headers (op_s q) = [] \<and>
     rq_use_server_error_pages (op_s q) = 0 \<and> \<not> rq_response_blocked (op_s q) \<and> cl_writes (op_cl q) = [] \<and>
     status \<noteq> 0 \<and> status_passes aw (op_s q) (uint status)"

lemma header_step:
  assumes "plain_request aw q status"
    and "pending_reply q = ajp_frame (sw_header (op_ae q)) (headers_msg status txt hs) @ rest" and "msg_fits q (headers_msg status txt hs)"
    and "field_ok (F_str txt)" "list_all res_header_ok hs" "length hs < 65536" "pool_has (op_pool q) (length hs)"
  shows "\<exists>q'. reply_step aw False q = Some (Inr (True, q')) \<and> streaming aw q' \<and> seen (op_cl q') = seen (op_cl q) @ [start_event status txt hs] \<and>
    pending_reply q' = rest \<and> sw_header (op_ae q') = sw_header (op_ae q) \<and> mb_maxlen (op_reply q') = mb_maxlen (op_reply q) \<and>
    rq_done (op_s q') = rq_done (op_s q) \<and> rq_disable_reuse (op_s q') = rq_disable_reuse (op_s q)"
proof -
  let ?p = "headers_msg status txt hs" and ?k = "length (enc_response status txt hs)"
  obtain m ae w where st: "reply_step aw False q = handle_reply aw False (q\<lparr>op_ae := ae, op_w := w, op_reply := m\<rparr>)"
      and m: "loaded m ?p" "mb_maxlen m = mb_maxlen (op_reply q)" and ae: "\<exists>r. ae = (op_ae q)\<lparr>ae_rd := r\<rparr>"
      and w: "pending w (ae_sd (op_ae q)) = rest"
    using reply_step_frame [of aw q ?p rest False] assms(1-3) unfolding plain_request_def msg_fits_def by blast
  note c = loaded_code [OF m(1) [unfolded headers_msg_def]]
  have nz: "status \<noteq> 0" using assms(1) by (simp add: plain_request_def)
  obtain d p where d: "ajp_unmarshal_response (op_pool q) (advanced m 1) = Some (Some d, advanced (advanced m 1) ?k, p)"
      "res_view (advanced m 1) d = Some (uint status, txt, length hs, map res_header hs)"
    using unmarshal_pool [OF c(2), of status "txt" hs "[]" "op_pool q"] c(5) nz assms(4-7) by auto
  let ?m2 = "advanced (advanced m 1) ?k"
  note v = header_view(1,2) [OF d(2), where k = ?k, simplified] header_view(3) [OF d(2), simplified]
  let ?s = "(op_s q)\<lparr>rq_http_response_status := uint status\<rparr>"
  let ?q1 = "q\<lparr>op_ae := ae, op_w := w, op_reply := ?m2, op_pool := p, op_s := ?s\<lparr>rq_response_started := True\<rparr>\<rparr>"
  let ?q2 = "notify (start_event status txt hs) ?q1"
  let ?q3 = "if rq_flush (op_s q) \<and> rq_flush_header (op_s q) then notify Ev_flush ?q2 else ?q2"
  have sc: "start_client False d (?q1\<lparr>op_s := ?s\<rparr>) = Some (uint JK_AJP13_SEND_HEADERS, ?q3)"
    using v assms(1) by (simp add: start_client_def plain_request_def start_event_def Let_def)
  have cb: "ajp_process_callback aw (q\<lparr>op_ae := ae, op_w := w, op_reply := m\<rparr>) = Some (uint JK_AJP13_SEND_HEADERS, ?q3)"
    using c(1) d(1) sc ae v(3) assms(1)
    by (auto simp: ajp_process_callback_def send_headers_def join_headers_def check_status_def plain_request_def status_passes_def Let_def)
  let ?q' = "?q3\<lparr>op_ae := (op_ae ?q3)\<lparr>ae_last_op := word_of_int (uint JK_AJP13_SEND_HEADERS)\<rparr>\<rparr>"
  have run: "reply_step aw False q = Some (Inr (True, ?q'))" unfolding st handle_reply_def cb by (simp add: after_callback_def reply_codes)
  have ev: "seen (op_cl ?q3) = seen (op_cl q) @ [start_event status txt hs]" "cl_writes (op_cl ?q3) = cl_writes (op_cl q)"
    by (simp_all add: seen_def start_event_def)
  have ep: "op_w ?q3 = w" "op_ae ?q3 = ae" "op_reply ?q3 = ?m2" "op_s ?q3 = ?s\<lparr>rq_response_started := True\<rparr>" by simp_all
  have q': "op_w ?q' = w" "op_ae ?q' = ae\<lparr>ae_last_op := JK_AJP13_SEND_HEADERS\<rparr>" "op_reply ?q' = ?m2" "op_s ?q' = ?s\<lparr>rq_response_started := True\<rparr>"
      "op_cl ?q' = op_cl ?q3" using ep by simp_all
  have "msg_wf ?m2" using c(2) by (simp add: msg_wf_def advanced_def)
  then have "streaming aw ?q'" using ae assms(1) ev(2) unfolding streaming_def can_read_def no_timeout_def q' plain_request_def
    by (auto simp: reply_codes)
  moreover have "pending_reply ?q' = rest" "sw_header (op_ae ?q') = sw_header (op_ae q)" using ae w unfolding pending_reply_def q'
    by (auto simp: sw_header_def)
  moreover have "mb_maxlen (op_reply ?q') = mb_maxlen (op_reply q)" using m(2) unfolding q' by (simp add: advanced_def)
  moreover have "rq_done (op_s ?q') = rq_done (op_s q)" "rq_disable_reuse (op_s ?q') = rq_disable_reuse (op_s q)" unfolding q' by simp_all
  ultimately show ?thesis using run ev(1) unfolding q'(5) [symmetric] by blast
qed

text \<open>Claim C6: a complete response reaches the client. When the container sends the headers, chunks of the body and
  the end, and each message fits the packet, the reply succeeds; the web server has seen the start with the status,
  the reason and the headers that were encoded, then one write for each chunk with its bytes, in order, then
  the end, and nothing else but flushes. The bytes behind the end are still unread, and the connection is kept
  for another request exactly when the container says so and reuse is not disabled.\<close>

theorem reply_delivered:
  assumes "plain_request aw q status"
    and "pending_reply q = ajp_frame (sw_header (op_ae q)) (headers_msg status txt hs) @
           concat (map (\<lambda>(d, t). ajp_frame (sw_header (op_ae q)) (chunk_msg d t)) ds) @
           ajp_frame (sw_header (op_ae q)) (end_msg reuse) @ rest"
    and "msg_fits q (headers_msg status txt hs)" "list_all (\<lambda>(d, t). d \<noteq> [] \<and> msg_fits q (chunk_msg d t)) ds" "msg_fits q (end_msg reuse)"
    and "field_ok (F_str txt)" "list_all res_header_ok hs" "length hs < 65536" "pool_has (op_pool q) (length hs)"
  shows "\<exists>q'. ajp_get_reply aw q = Some (Some (1, q')) \<and>
    seen (op_cl q') = seen (op_cl q) @ start_event status txt hs # map (Ev_write \<circ> fst) ds @ done_events (op_s q) \<and>
    pending_reply q' = rest \<and> ae_reuse (op_ae q') = (reuse \<noteq> 0 \<and> \<not> rq_disable_reuse (op_s q))"
proof -
  obtain q1 where st: "reply_step aw False q = Some (Inr (True, q1))" and q1: "streaming aw q1"
      "seen (op_cl q1) = seen (op_cl q) @ [start_event status txt hs]" "sw_header (op_ae q1) = sw_header (op_ae q)"
      "pending_reply q1 = concat (map (\<lambda>(d, t). ajp_frame (sw_header (op_ae q)) (chunk_msg d t)) ds) @ ajp_frame (sw_header (op_ae q)) (end_msg reuse) @ rest"
      "mb_maxlen (op_reply q1) = mb_maxlen (op_reply q)" "rq_done (op_s q1) = rq_done (op_s q)" "rq_disable_reuse (op_s q1) = rq_disable_reuse (op_s q)"
    using header_step [OF assms(1,2,3,6-9)] by blast
  have mf: "msg_fits q1 p = msg_fits q p" for p by (simp add: msg_fits_def q1(5))
  obtain q' where "reply_loop aw True q1 = Some (Some (1, q'))"
      "seen (op_cl q') = seen (op_cl q1) @ map (Ev_write \<circ> fst) ds @ done_events (op_s q1)"
      "pending_reply q' = rest" "ae_reuse (op_ae q') = (reuse \<noteq> 0 \<and> \<not> rq_disable_reuse (op_s q1))"
    using body_delivered [OF q1(1), of ds reuse rest True] q1(3,4) assms(4,5) by (auto simp: mf)
  then show ?thesis using st q1(2,6,7) unfolding ajp_get_reply_def by (subst reply_loop.simps) (simp add: done_events_def)
qed

section \<open>Examples\<close>

definition demo_client :: "u8 list \<Rightarrow> client" where
  "demo_client body = \<lparr>cl_body = body, cl_reads = [], cl_writes = [], cl_events = []\<rparr>"

definition demo_op :: "u8 list \<Rightarrow> jk_msg_buf \<Rightarrow> ajp_operation" where
  "demo_op stream reply =
     \<lparr>op_ae = demo_ep, op_shm = demo_shm, op_w = demo_world [Rx (hd stream) (tl stream)], op_pool = sv_pool demo_ws,
      op_s = demo_request None, op_cl = demo_client [], op_request = demo_buffer 200, op_reply = reply,
      op_post = demo_buffer 200, op_recoverable = True\<rparr>"

theorem upload_exact_witness:
  "\<exists>msg' ae' r' cl'. ajp_read_into_msg_buff (demo_aw\<lparr>aw_max_packet_size := 16\<rparr>) (demo_ep\<lparr>ae_left_bytes_to_send := 20\<rparr>) (demo_request None)
      (demo_client (replicate 20 1)) (demo_buffer 16) 8186 = Some (10, msg', ae', r', cl') \<and>
    drop 4 (payload msg') = [0, 10] @ replicate 10 1 \<and> unat (ae_left_bytes_to_send ae') = 10"
proof -
  have s: "rq_is_chunked (demo_request None) = False" "body_len False 20 10 8186 = 10"
    by (simp_all add: demo_request_def jk_ws_service.defs body_len_def)
  then show ?thesis
    using upload_exact [of "demo_buffer 16" "demo_aw\<lparr>aw_max_packet_size := 16\<rparr>" "demo_ep\<lparr>ae_left_bytes_to_send := 20\<rparr>" "demo_request None"
        "demo_client (replicate 20 1)" 8186]
    by (auto simp: demo_buffer_def demo_client_def int_bytes_def)
qed

theorem chunk_exact_witness:
  "\<exists>rc q'. send_body_chunk (demo_op [0] \<lparr>mb_buf = [3, 0, 2, 7, 8, 9], mb_pos = 1, mb_len = 6, mb_maxlen = 6\<rparr>) = Some (rc, q') \<and>
     rc = JK_AJP13_NO_RESPONSE \<and> seen (op_cl q') = [Ev_write [7, 8]]"
proof -
  let ?q = "demo_op [0] \<lparr>mb_buf = [3, 0, 2, 7, 8, 9], mb_pos = 1, mb_len = 6, mb_maxlen = 6\<rparr>"
  have "body_msg (op_reply ?q) 2 [7, 8, 9]" by (simp add: demo_op_def body_msg_def msg_wf_def payload_def int_bytes_def)
  moreover have "ae_last_op (op_ae ?q) \<noteq> JK_AJP13_FORWARD_REQUEST" "\<not> rq_response_blocked (op_s ?q)"
    by (simp_all add: demo_op_def demo_ep_def reply_codes demo_request_def jk_ws_service.defs)
  ultimately show ?thesis using chunk_exact [of ?q 2 "[7, 8, 9]"]
    by (auto simp: chunk_done_def demo_op_def demo_client_def seen_def)
qed

theorem bare_chunk_reads_beyond_witness:
  "ajp_process_callback demo_aw (demo_op [0] \<lparr>mb_buf = 3 # replicate 8191 0, mb_pos = 0, mb_len = 1, mb_maxlen = 8192\<rparr>) = None"
  by (rule bare_chunk_reads_beyond)
    (simp_all add: demo_op_def loaded_def msg_wf_def payload_def demo_ep_def reply_codes demo_request_def jk_ws_service.defs)

definition demo_stream :: "u8 list" where
  "demo_stream = ajp_frame AJP13_SW_HEADER (headers_msg 200 (Some ''OK'') demo_res) @ ajp_frame AJP13_SW_HEADER (chunk_msg [7, 8] [0]) @
     ajp_frame AJP13_SW_HEADER (chunk_msg [9] []) @ ajp_frame AJP13_SW_HEADER (end_msg 1) @ [1]"

theorem reply_delivered_witness:
  "\<exists>q'. ajp_get_reply demo_aw (demo_op demo_stream (demo_buffer 200)) = Some (Some (1, q')) \<and>
     seen (op_cl q') =
       [Ev_start 200 (Some ''OK'') [(Some ''Content-Type'', Some ''text/html''), (Some ''X'', Some ''y'')], Ev_write [7, 8], Ev_write [9], Ev_done] \<and>
     pending_reply q' = [1] \<and> ae_reuse (op_ae q')"
proof -
  let ?q = "demo_op demo_stream (demo_buffer 200)"
  have s: "op_s ?q = demo_request None" "op_ae ?q = demo_ep" "op_reply ?q = demo_buffer 200" "op_cl ?q = demo_client []" "op_pool ?q = sv_pool demo_ws"
    "sw_header demo_ep = AJP13_SW_HEADER" by (simp_all add: demo_op_def sw_header_def demo_ep_def)
  have pr: "plain_request demo_aw ?q 200"
    unfolding plain_request_def can_read_def no_timeout_def status_passes_def s
    by (simp add: demo_request_def jk_ws_service.defs demo_ep_def demo_ws_def demo_aw_def demo_client_def demo_buffer_wf reply_codes
        is_http_status_fail_def int_range_def ub_simps)
  have st: "pending_reply ?q = demo_stream"
    by (simp add: pending_reply_def pending_def demo_op_def demo_world_def demo_stream_def ajp_frame_def)
  have ft: "msg_fits ?q p" if "length p \<le> 200" for p using that unfolding msg_fits_def s by (simp add: demo_buffer_def)
  have len: "length (headers_msg 200 (Some ''OK'') demo_res) \<le> 200"
    by (simp add: headers_msg_def enc_response_def demo_res_def enc_opt_def enc_string_def int_bytes_def enc_res_header_def enc_res_name_def)
  have ok: "list_all res_header_ok demo_res" "field_ok (F_str (Some ''OK''))" "length demo_res = 2"
    by (simp_all add: demo_res_def res_header_ok_def res_name_ok_def is_cstr_def)
  have ph: "pool_has (op_pool ?q) (length demo_res)"
    by (simp add: pool_has_def s demo_ws_def demo_res_def jk_pool_alloc_def jk_open_pool_def JK_ALIGN_DEFAULT_def JK_ALIGN_def)
  have ev: "start_event 200 (Some ''OK'') demo_res = Ev_start 200 (Some ''OK'') [(Some ''Content-Type'', Some ''text/html''), (Some ''X'', Some ''y'')]"
    by (simp add: start_event_def demo_res_def res_header_def response_trans_headers_def)
  have dn: "done_events (op_s ?q) = [Ev_done]" "rq_disable_reuse (op_s ?q) = False" "seen (op_cl ?q) = []"
    unfolding s by (simp_all add: done_events_def seen_def demo_client_def demo_request_def jk_ws_service.defs)
  have "list_all (\<lambda>(d, t). d \<noteq> [] \<and> msg_fits ?q (chunk_msg d t)) [([7, 8], [0]), ([9], [])]" "msg_fits ?q (end_msg 1)"
    by (simp_all add: ft chunk_msg_def int_bytes_def end_msg_def)
  note fits = this
  have "pending_reply ?q = ajp_frame (sw_header (op_ae ?q)) (headers_msg 200 (Some ''OK'') demo_res) @
      concat (map (\<lambda>(d, t). ajp_frame (sw_header (op_ae ?q)) (chunk_msg d t)) [([7, 8], [0]), ([9], [])]) @
      ajp_frame (sw_header (op_ae ?q)) (end_msg 1) @ [1]"
    unfolding st s(2,6) by (simp add: demo_stream_def)
  note r = reply_delivered [OF pr this ft [OF len] fits ok(2,1) _ ph]
  show ?thesis using r ok(3) unfolding ev dn by simp
qed

end
