(* ===== verification/Jk_Uwmap.thy ===== *)
theory Jk_Uwmap
  imports Jk_Uri Jk_Map_File Jk_Lb
begin

text \<open>
  The map from URIs to workers (\<open>jk_uri_worker_map.c\<close>): rules with their extensions in two generations,
  of which one is in use while the other is built from a file, the search for the most specific rule, and the
  reload.

  The rules are shared between the generations, and the reload changes them in place: they live in a
  store and the arrays hold their addresses. A rule and an array belong to the pool they come from and are
  gone when it is reset; following a pointer to them is undefined. The clock, the file system and
  the process environment are parameters. Lengths of strings are within the range of \<open>int\<close>.
\<close>

section \<open>Rules\<close>

definition MATCH_TYPE_EXACT :: u32 where "MATCH_TYPE_EXACT = 0x0001"

definition MATCH_TYPE_WILDCHAR_PATH :: u32 where "MATCH_TYPE_WILDCHAR_PATH = 0x0040"

definition MATCH_TYPE_NO_MATCH :: u32 where "MATCH_TYPE_NO_MATCH = 0x1000"

definition MATCH_TYPE_DISABLED :: u32 where "MATCH_TYPE_DISABLED = 0x2000"

abbreviation (input) SOURCE_TYPE_WORKERDEF :: nat where "SOURCE_TYPE_WORKERDEF \<equiv> 1"

abbreviation (input) SOURCE_TYPE_JKMOUNT :: nat where "SOURCE_TYPE_JKMOUNT \<equiv> 2"

abbreviation (input) SOURCE_TYPE_URIMAP :: nat where "SOURCE_TYPE_URIMAP \<equiv> 3"

abbreviation (input) SOURCE_TYPE_DISCOVER :: nat where "SOURCE_TYPE_DISCOVER \<equiv> 4"

abbreviation (input) JK_MAX_URI_LEN :: nat where "JK_MAX_URI_LEN \<equiv> 4095"

record rule_extension =
  re_reply_timeout :: int
  re_sticky_ignore :: bool
  re_stateless :: bool
  re_activation_size :: int
  re_activation :: "int list option"
  re_active :: "string option"
  re_disabled :: "string option"
  re_stopped :: "string option"
  re_fail_on_status_size :: int
  re_fail_on_status :: "int list option"
  re_fail_on_status_str :: "string option"
  re_use_server_error_pages :: int
  re_session_cookie :: "string option"
  re_session_path :: "string option"
  re_set_session_cookie :: bool
  re_session_cookie_path :: "string option"

record uri_worker_record =
  ur_uri :: string
  ur_worker_name :: string
  ur_context :: string
  ur_match_type :: u32
  ur_source_type :: nat
  ur_context_len :: nat
  ur_extensions :: rule_extension

definition has :: "uri_worker_record \<Rightarrow> u32 \<Rightarrow> bool" where
  "has r flag \<longleftrightarrow> ur_match_type r AND flag \<noteq> 0"

definition uri_worker_map_source_type :: "string option list" where
  "uri_worker_map_source_type =
     [Some ''unknown'', Some ''worker definition'', Some ''JkMount'', Some ''uriworkermap'', Some ''ajp14'', None]"

definition uri_worker_map_get_source :: "uri_worker_record \<Rightarrow> string option ub" where
  "uri_worker_map_get_source uwr = rd uri_worker_map_source_type (ur_source_type uwr)"

definition uri_worker_map_get_match :: "uri_worker_record \<Rightarrow> string" where
  "uri_worker_map_get_match uwr =
     (if has uwr MATCH_TYPE_DISABLED then ''Disabled '' else []) @
     (if has uwr MATCH_TYPE_NO_MATCH then ''Unmount '' else []) @
     (if has uwr MATCH_TYPE_EXACT then ''Exact''
      else if has uwr MATCH_TYPE_WILDCHAR_PATH then ''Wildchar'' else ''Unknown'')"

section \<open>Order of the rules\<close>

fun worker_count_context_uri_tokens :: "string \<Rightarrow> int" where
  "worker_count_context_uri_tokens [] = 0"
| "worker_count_context_uri_tokens (c # cs) =
     (if c = CHR ''/'' then 1 else 0) + worker_count_context_uri_tokens cs"

definition worker_compare :: "uri_worker_record \<Rightarrow> uri_worker_record \<Rightarrow> int" where
  "worker_compare e1 e2 =
     (let e1_tokens = worker_count_context_uri_tokens (ur_context e1);
          e2_tokens = worker_count_context_uri_tokens (ur_context e2)
      in
      if e1_tokens \<noteq> e2_tokens then e2_tokens - e1_tokens
      else if ur_context_len e2 \<noteq> ur_context_len e1 then int (ur_context_len e2) - int (ur_context_len e1)
      else int (ur_source_type e2) - int (ur_source_type e1))"

text \<open>\<open>qsort\<close> of the C library, as a stable sort.\<close>

fun qsort_insert :: "('a \<Rightarrow> 'a \<Rightarrow> int) \<Rightarrow> 'a \<Rightarrow> 'a list \<Rightarrow> 'a list" where
  "qsort_insert cmp x [] = [x]"
| "qsort_insert cmp x (y # ys) = (if cmp x y \<le> 0 then x # y # ys else y # qsort_insert cmp x ys)"

definition qsort :: "('a \<Rightarrow> 'a \<Rightarrow> int) \<Rightarrow> 'a list \<Rightarrow> 'a list" where
  "qsort cmp xs = foldr (qsort_insert cmp) xs []"

section \<open>The map\<close>

text \<open>The address of a rule: in the pool of the map or in the pool of a generation.\<close>

datatype uw_ptr = In_Pool nat | In_Dyn nat nat

text \<open>The array of a generation: null, released with its pool, or its entries, some not yet written.\<close>

datatype uw_array = Null | Released | Entries "uw_ptr option list"

record uw_gen =
  g_pool :: jk_pool
  g_maps :: uw_array
  g_size :: nat
  g_capacity :: nat
  g_nosize :: nat

record jk_uri_worker_map =
  um_p :: jk_pool
  um_index :: nat
  um_id :: int
  um_gens :: "uw_gen \<times> uw_gen"
  um_recs :: "uw_ptr \<rightharpoonup> uri_worker_record"
  um_fresh :: nat
  um_reject_unsafe :: bool
  um_fname :: "string option"
  um_reload :: int
  um_modified :: int
  um_checked :: int

type_synonym uw_state = "jk_uri_worker_map \<times> heap"

definition gen :: "jk_uri_worker_map \<Rightarrow> nat \<Rightarrow> uw_gen" where
  "gen m i = (if i = 0 then fst (um_gens m) else snd (um_gens m))"

definition set_gen :: "nat \<Rightarrow> uw_gen \<Rightarrow> jk_uri_worker_map \<Rightarrow> jk_uri_worker_map" where
  "set_gen i g m = m\<lparr>um_gens := (if i = 0 then (g, snd (um_gens m)) else (fst (um_gens m), g))\<rparr>"

definition IND_SWITCH :: "nat \<Rightarrow> nat" where
  "IND_SWITCH x = (x + 1) mod 2"

definition IND_THIS :: "jk_uri_worker_map \<Rightarrow> uw_gen" where
  "IND_THIS m = gen m (um_index m)"

definition IND_NEXT :: "jk_uri_worker_map \<Rightarrow> uw_gen" where
  "IND_NEXT m = gen m (IND_SWITCH (um_index m))"

definition put_next :: "uw_gen \<Rightarrow> jk_uri_worker_map \<Rightarrow> jk_uri_worker_map" where
  "put_next g m = set_gen (IND_SWITCH (um_index m)) g m"

text \<open>An allocation from the pool of the map or of the next generation.\<close>

definition with_pool :: "bool \<Rightarrow> (mem \<Rightarrow> ('a \<times> mem) ub) \<Rightarrow> uw_state \<Rightarrow> ('a \<times> uw_state) ub" where
  "with_pool dyn f st =
     (case st of (m, h) \<Rightarrow>
        if dyn then
          do { (r, p, h') \<leftarrow> f (g_pool (IND_NEXT m), h); Some (r, put_next ((IND_NEXT m)\<lparr>g_pool := p\<rparr>) m, h') }
        else
          do { (r, p, h') \<leftarrow> f (um_p m, h); Some (r, m\<lparr>um_p := p\<rparr>, h') })"

definition entry_at :: "uw_array \<Rightarrow> nat \<Rightarrow> uw_ptr ub" where
  "entry_at a i = (case a of Entries xs \<Rightarrow> do { p \<leftarrow> rd xs i; p } | _ \<Rightarrow> None)"

definition set_entry :: "uw_array \<Rightarrow> nat \<Rightarrow> uw_ptr \<Rightarrow> uw_array ub" where
  "set_entry a i p = (case a of Entries xs \<Rightarrow> do { ys \<leftarrow> wr xs i (Some p); Some (Entries ys) } | _ \<Rightarrow> None)"

definition record_at :: "jk_uri_worker_map \<Rightarrow> uw_gen \<Rightarrow> nat \<Rightarrow> (uw_ptr \<times> uri_worker_record) ub" where
  "record_at m g i = do { p \<leftarrow> entry_at (g_maps g) i; r \<leftarrow> um_recs m p; Some (p, r) }"

definition records :: "jk_uri_worker_map \<Rightarrow> uw_gen \<Rightarrow> (uw_ptr \<times> uri_worker_record) list ub" where
  "records m g = those (map (record_at m g) [0..<g_size g])"

definition worker_qsort :: "jk_uri_worker_map \<Rightarrow> jk_uri_worker_map ub" where
  "worker_qsort m =
     do {
       rs \<leftarrow> records m (IND_NEXT m);
       (case g_maps (IND_NEXT m) of
          Entries xs \<Rightarrow>
            Some (put_next ((IND_NEXT m)\<lparr>g_maps := Entries (map (\<lambda>(p, _). Some p) (qsort (\<lambda>x y. worker_compare (snd x) (snd y)) rs)
                                                            @ drop (g_size (IND_NEXT m)) xs)\<rparr>) m)
        | _ \<Rightarrow> Some m)
     }"

definition UW_INC_SIZE :: nat where "UW_INC_SIZE = 4"

definition grow_maps :: "uw_array \<Rightarrow> nat \<Rightarrow> nat \<Rightarrow> uw_array ub" where
  "grow_maps a old capacity =
     (if old \<noteq> 0 \<and> a \<noteq> Null then
        (case a of
           Entries xs \<Rightarrow> do { guard (old \<le> length xs); Some (Entries (take old xs @ replicate (capacity - old) None)) }
         | _ \<Rightarrow> None)
      else Some (Entries (replicate capacity None)))"

definition uri_worker_map_realloc :: "uw_state \<Rightarrow> (bool \<times> uw_state) ub" where
  "uri_worker_map_realloc st =
     (let g = IND_NEXT (fst st) in
      if g_size g = g_capacity g then
        let capacity = g_capacity g + UW_INC_SIZE in
        do {
          (uwr, m1, h1) \<leftarrow> with_pool True (\<lambda>p. jk_pool_alloc p (of_nat (8 * capacity))) st;
          if uwr = None then Some (False, m1, h1)
          else do {
            a \<leftarrow> grow_maps (g_maps g) (g_capacity g) capacity;
            Some (True, put_next ((IND_NEXT m1)\<lparr>g_maps := a, g_capacity := capacity\<rparr>) m1, h1)
          }
        }
      else Some (True, st))"

text \<open>The copy of the rules of this generation that do not come from the file. \<open>ys\<close>: the next array.\<close>

fun clear_loop :: "jk_uri_worker_map \<Rightarrow> nat list \<Rightarrow> uw_array \<Rightarrow> nat \<Rightarrow> nat \<Rightarrow> (uw_array \<times> nat \<times> nat) ub" where
  "clear_loop m [] ys new_size new_nosize = Some (ys, new_size, new_nosize)"
| "clear_loop m (i # is) ys new_size new_nosize =
     do {
       (p, uwr) \<leftarrow> record_at m (IND_THIS m) i;
       if ur_source_type uwr = SOURCE_TYPE_URIMAP then clear_loop m is ys new_size new_nosize
       else do {
         ys' \<leftarrow> set_entry ys new_size p;
         clear_loop m is ys' (new_size + 1) (if has uwr MATCH_TYPE_NO_MATCH then new_nosize + 1 else new_nosize)
       }
     }"

definition uri_worker_map_clear :: "uw_state \<Rightarrow> uw_state ub" where
  "uri_worker_map_clear st =
     (let n = g_size (IND_THIS (fst st)) in
      do {
        (a, m1, h1) \<leftarrow> with_pool True (\<lambda>p. jk_pool_alloc p (of_nat (8 * n))) st;
        (ys, new_size, new_nosize) \<leftarrow>
          clear_loop m1 [0..<n] (if a = None then Null else Entries (replicate n None)) 0 0;
        Some (put_next ((IND_NEXT m1)\<lparr>g_maps := ys, g_capacity := n, g_size := new_size, g_nosize := new_nosize\<rparr>) m1, h1)
      })"

section \<open>Rule extensions\<close>

definition no_extensions :: rule_extension where
  "no_extensions =
     \<lparr>re_reply_timeout = - 1, re_sticky_ignore = False, re_stateless = False, re_activation_size = 0, re_activation = None,
      re_active = None, re_disabled = None, re_stopped = None, re_fail_on_status_size = 0, re_fail_on_status = None,
      re_fail_on_status_str = None, re_use_server_error_pages = 0, re_session_cookie = None, re_session_path = None,
      re_set_session_cookie = False, re_session_cookie_path = None\<rparr>"

text \<open>An extension that may be given once: the first one counts.\<close>

definition once :: "string option \<Rightarrow> string \<Rightarrow> string option" where
  "once old v = (case old of None \<Rightarrow> Some v | Some _ \<Rightarrow> old)"

definition after_name :: "string \<Rightarrow> string \<Rightarrow> string" where
  "after_name name param = drop (length name) param"

definition set_extension :: "string \<Rightarrow> rule_extension \<Rightarrow> rule_extension ub" where
  "set_extension param e =
     (if starts_with param ''reply_timeout='' then
        do { v \<leftarrow> c_atoi (after_name ''reply_timeout='' param); Some (e\<lparr>re_reply_timeout := v\<rparr>) }
      else if starts_with param ''sticky_ignore='' then
        do { v \<leftarrow> c_atoi (after_name ''sticky_ignore='' param); Some (e\<lparr>re_sticky_ignore := v \<noteq> 0\<rparr>) }
      else if starts_with param ''stateless='' then
        do { v \<leftarrow> c_atoi (after_name ''stateless='' param); Some (e\<lparr>re_stateless := v \<noteq> 0\<rparr>) }
      else if starts_with param ''use_server_errors='' then
        do { v \<leftarrow> c_atoi (after_name ''use_server_errors='' param); Some (e\<lparr>re_use_server_error_pages := v\<rparr>) }
      else if starts_with param ''active='' then Some (e\<lparr>re_active := once (re_active e) (after_name ''active='' param)\<rparr>)
      else if starts_with param ''disabled='' then Some (e\<lparr>re_disabled := once (re_disabled e) (after_name ''disabled='' param)\<rparr>)
      else if starts_with param ''stopped='' then Some (e\<lparr>re_stopped := once (re_stopped e) (after_name ''stopped='' param)\<rparr>)
      else if starts_with param ''fail_on_status='' then
        Some (e\<lparr>re_fail_on_status_str := once (re_fail_on_status_str e) (after_name ''fail_on_status='' param)\<rparr>)
      else if starts_with param ''session_cookie='' then
        Some (e\<lparr>re_session_cookie := once (re_session_cookie e) (after_name ''session_cookie='' param)\<rparr>)
      else if starts_with param ''session_path='' then
        Some (e\<lparr>re_session_path := once (re_session_path e) (after_name ''session_path='' param)\<rparr>)
      else if starts_with param ''set_session_cookie='' then
        (if re_set_session_cookie e then Some e
         else do { v \<leftarrow> c_atoi (after_name ''set_session_cookie='' param); Some (e\<lparr>re_set_session_cookie := v \<noteq> 0\<rparr>) })
      else if starts_with param ''session_cookie_path='' then
        Some (e\<lparr>re_session_cookie_path := once (re_session_cookie_path e) (after_name ''session_cookie_path='' param)\<rparr>)
      else Some e)"

text \<open>One call of \<open>strtok_r\<close> with the separator semicolon: the token and the rest.\<close>

definition next_param :: "string \<Rightarrow> (string \<times> string) option" where
  "next_param s =
     (let t = dropWhile (\<lambda>c. c = CHR '';'') s in
      if t = [] then None
      else Some (takeWhile (\<lambda>c. c \<noteq> CHR '';'') t, drop 1 (dropWhile (\<lambda>c. c \<noteq> CHR '';'') t)))"

lemma next_param_shorter: "next_param s = Some (a, r) \<Longrightarrow> length r < length s"
proof -
  assume a: "next_param s = Some (a, r)"
  let ?t = "dropWhile (\<lambda>c. c = CHR '';'') s"
  have t: "?t \<noteq> []" "r = drop 1 (dropWhile (\<lambda>c. c \<noteq> CHR '';'') ?t)" using a by (auto simp: next_param_def Let_def split: if_splits)
  have "length ?t \<le> length s" by (rule length_dropWhile_le)
  moreover have "length (dropWhile (\<lambda>c. c \<noteq> CHR '';'') ?t) \<le> length ?t" by (rule length_dropWhile_le)
  moreover have "0 < length ?t" using t(1) length_greater_0_conv by blast
  moreover have "length r = length (dropWhile (\<lambda>c. c \<noteq> CHR '';'') ?t) - 1" unfolding t(2) by (rule length_drop)
  ultimately show ?thesis by linarith
qed

text \<open>A session path may begin with a semicolon: then the next parameter is its value.\<close>

function ext_params :: "string \<Rightarrow> rule_extension \<Rightarrow> rule_extension ub" where
  "ext_params rest e =
     (case next_param rest of
        None \<Rightarrow> Some e
      | Some (param, rest1) \<Rightarrow>
          if param = ''session_path='' \<and> re_session_path e = None then
            (case next_param rest1 of
               None \<Rightarrow> Some e
             | Some (v, rest2) \<Rightarrow> ext_params rest2 (e\<lparr>re_session_path := Some v\<rparr>))
          else do { e1 \<leftarrow> set_extension param e; ext_params rest1 e1 })"
  by pat_completeness auto
termination
  by (relation "measure (\<lambda>(rest, e). length rest)") (auto dest!: next_param_shorter)

declare ext_params.simps [simp del]

text \<open>The rule keeps the text up to the first parameter; \<open>rule\<close> is null when its copy could not be allocated.\<close>

definition parse_rule_extensions :: "string option \<Rightarrow> (string \<times> rule_extension) ub" where
  "parse_rule_extensions rule =
     do {
       r \<leftarrow> rule;
       (case next_param r of
          None \<Rightarrow> Some (r, no_extensions)
        | Some (name, rest) \<Rightarrow>
            do { e \<leftarrow> ext_params rest no_extensions; Some (takeWhile (\<lambda>c. c = CHR '';'') r @ name, e) })
     }"

text \<open>Post-processing of the extensions, once the workers are known. A list of names or codes is
  separated by commas and blanks.\<close>

datatype jk_worker = Lb_Worker lb_worker | Other_Worker int

definition wc_get_worker_for_name :: "jk_worker jk_map \<Rightarrow> string \<Rightarrow> jk_worker option ub" where
  "wc_get_worker_for_name worker_map name = jk_map_get worker_map (Some name) None"

definition rule_list_sep :: "char \<Rightarrow> bool" where
  "rule_list_sep c \<longleftrightarrow> c = CHR '','' \<or> c = CHR '' ''"

fun member_named :: "lb_sub_worker list \<Rightarrow> string \<Rightarrow> nat \<Rightarrow> nat option" where
  "member_named [] name i = None"
| "member_named (w # ws) name i = (if name = sw_name w then Some i else member_named ws name (i + 1))"

fun set_activations :: "lb_worker \<Rightarrow> int \<Rightarrow> string list \<Rightarrow> int list \<Rightarrow> int list ub" where
  "set_activations lb activation [] xs = Some xs"
| "set_activations lb activation (w # ws) xs =
     do {
       xs' \<leftarrow> (case member_named (lb_workers lb) w 0 of None \<Rightarrow> Some xs | Some i \<Rightarrow> wr xs i activation);
       set_activations lb activation ws xs'
     }"

definition extract_activation :: "mem \<Rightarrow> lb_worker \<Rightarrow> int list \<Rightarrow> string option \<Rightarrow> int \<Rightarrow> (int list \<times> mem) ub" where
  "extract_activation p lb activations workers activation =
     (case workers of
        None \<Rightarrow> Some (activations, p)
      | Some _ \<Rightarrow>
          do {
            (worker, p1) \<leftarrow> jk_pool_strdup p workers;
            w \<leftarrow> worker;
            xs \<leftarrow> set_activations lb activation (tokens rule_list_sep w) activations;
            Some (xs, p1)
          })"

fun set_statuses :: "nat \<Rightarrow> string list \<Rightarrow> int list \<Rightarrow> int list ub" where
  "set_statuses cnt [] xs = Some xs"
| "set_statuses cnt (s # ss) xs = do { v \<leftarrow> c_atoi s; xs' \<leftarrow> wr xs cnt v; set_statuses (cnt + 1) ss xs' }"

definition extension_fix_fail_on_status :: "mem \<Rightarrow> rule_extension \<Rightarrow> string \<Rightarrow> (rule_extension \<times> mem) ub" where
  "extension_fix_fail_on_status p e str =
     (let cnt = 1 + length (filter rule_list_sep str); e1 = e\<lparr>re_fail_on_status_size := int cnt\<rparr> in
      do {
        (status, p1) \<leftarrow> jk_pool_strdup p (Some str);
        (a, p2) \<leftarrow> jk_pool_alloc p1 (of_nat (cnt * 4));
        if a = None then Some (e1\<lparr>re_fail_on_status := None\<rparr>, p2)
        else do {
          s \<leftarrow> status;
          xs \<leftarrow> set_statuses 0 (tokens rule_list_sep s) (replicate cnt 0);
          Some (e1\<lparr>re_fail_on_status := Some xs\<rparr>, p2)
        }
      })"

definition extension_fix_activation :: "mem \<Rightarrow> jk_worker \<Rightarrow> rule_extension \<Rightarrow> (bool \<times> rule_extension \<times> mem) ub" where
  "extension_fix_activation p jw e =
     (case jw of
        Lb_Worker lb \<Rightarrow>
          if re_active e \<noteq> None \<or> re_disabled e \<noteq> None \<or> re_stopped e \<noteq> None then
            do {
              (e1, p1) \<leftarrow>
                (if re_activation e = None then
                   do { (a, p1) \<leftarrow> jk_pool_alloc p (of_nat (num_of_workers lb * 4));
                        Some (e\<lparr>re_activation_size := int (num_of_workers lb),
                                re_activation := (if a = None then None else Some (replicate (num_of_workers lb) JK_LB_ACTIVATION_UNSET))\<rparr>, p1) }
                 else Some (e, p));
              (case re_activation e1 of
                 None \<Rightarrow> Some (False, e1, p1)
               | Some xs \<Rightarrow>
                   do {
                     (xs1, p2) \<leftarrow> extract_activation p1 lb xs (re_active e) JK_LB_ACTIVATION_ACTIVE;
                     (xs2, p3) \<leftarrow> extract_activation p2 lb xs1 (re_disabled e) JK_LB_ACTIVATION_DISABLED;
                     (xs3, p4) \<leftarrow> extract_activation p3 lb xs2 (re_stopped e) JK_LB_ACTIVATION_STOPPED;
                     Some (True, e1\<lparr>re_activation := Some xs3\<rparr>, p4)
                   })
            }
          else Some (True, e, p)
      | Other_Worker _ \<Rightarrow> Some (True, e, p))"

definition extension_fix :: "jk_worker jk_map \<Rightarrow> mem \<Rightarrow> string \<Rightarrow> rule_extension \<Rightarrow> (rule_extension \<times> mem) ub" where
  "extension_fix worker_map p name e =
     do {
       jw \<leftarrow> wc_get_worker_for_name worker_map name;
       (case jw of
          None \<Rightarrow> Some (e, p)
        | Some w \<Rightarrow>
            do {
              (ok, e1, p1) \<leftarrow> extension_fix_activation p w e;
              (case re_fail_on_status_str e1 of
                 Some str \<Rightarrow> if ok then extension_fix_fail_on_status p1 e1 str else Some (e1, p1)
               | None \<Rightarrow> Some (e1, p1))
            })
     }"

text \<open>The extensions of the rules of the next generation, except unmounts.\<close>

fun ext_loop :: "jk_worker jk_map \<Rightarrow> nat list \<Rightarrow> uw_state \<Rightarrow> uw_state ub" where
  "ext_loop worker_map [] st = Some st"
| "ext_loop worker_map (i # is) st =
     do {
       (a, uwr) \<leftarrow> record_at (fst st) (IND_NEXT (fst st)) i;
       if has uwr MATCH_TYPE_NO_MATCH then ext_loop worker_map is st
       else do {
         (e, m, h) \<leftarrow> with_pool (ur_source_type uwr = SOURCE_TYPE_URIMAP)
                        (\<lambda>p. extension_fix worker_map p (ur_worker_name uwr) (ur_extensions uwr)) st;
         ext_loop worker_map is (m\<lparr>um_recs := (um_recs m)(a \<mapsto> uwr\<lparr>ur_extensions := e\<rparr>)\<rparr>, h)
       }
     }"

definition uri_worker_map_ext :: "jk_worker jk_map \<Rightarrow> uw_state \<Rightarrow> uw_state ub" where
  "uri_worker_map_ext worker_map st = ext_loop worker_map [0..<g_size (IND_NEXT (fst st))] st"

section \<open>Adding rules\<close>

definition sizeof_uri_worker_record :: u64 where "sizeof_uri_worker_record = 152"

definition uri_worker_map_add :: "uw_state \<Rightarrow> string option \<Rightarrow> string option \<Rightarrow> nat \<Rightarrow> (bool \<times> uw_state) ub" where
  "uri_worker_map_add st puri worker source_type =
     do {
       u0 \<leftarrow> puri;
       let disabled = (u0 \<noteq> [] \<and> hd u0 = CHR ''-''); u1 = (if disabled then tl u0 else u0);
           unmount = (u1 \<noteq> [] \<and> hd u1 = CHR ''!''); u2 = (if unmount then tl u1 else u1);
           t0 = (if disabled then MATCH_TYPE_DISABLED else 0) OR (if unmount then MATCH_TYPE_NO_MATCH else 0);
           dyn = (source_type = SOURCE_TYPE_URIMAP)
       in
       do {
         (ok, st1) \<leftarrow> uri_worker_map_realloc st;
         if \<not> ok then Some (False, st1)
         else do {
           (uwr, st2) \<leftarrow> with_pool dyn (\<lambda>p. jk_pool_alloc p sizeof_uri_worker_record) st1;
           if uwr = None then Some (False, st2)
           else do {
             (uri, st3) \<leftarrow> with_pool dyn (\<lambda>p. jk_pool_strdup p (Some u2)) st2;
             (case (uri, worker) of
                (Some u, Some _) \<Rightarrow>
                  if u \<noteq> [] \<and> hd u = CHR ''/'' then
                    do {
                      (w, m, h) \<leftarrow> with_pool dyn (\<lambda>p. jk_pool_strdup p worker) st3;
                      (name, e) \<leftarrow> parse_rule_extensions w;
                      let t = t0 OR (if CHR ''*'' \<in> set u \<or> CHR ''?'' \<in> set u then MATCH_TYPE_WILDCHAR_PATH else MATCH_TYPE_EXACT);
                          a = (if dyn then In_Dyn (IND_SWITCH (um_index m)) (um_fresh m) else In_Pool (um_fresh m));
                          r = \<lparr>ur_uri = u, ur_worker_name = name, ur_context = u, ur_match_type = t,
                               ur_source_type = source_type, ur_context_len = length u, ur_extensions = e\<rparr>;
                          g = IND_NEXT m
                      in
                      do {
                        ys \<leftarrow> set_entry (g_maps g) (g_size g) a;
                        m2 \<leftarrow> worker_qsort
                               (put_next (g\<lparr>g_maps := ys, g_size := g_size g + 1,
                                            g_nosize := (if t AND MATCH_TYPE_NO_MATCH \<noteq> 0 then g_nosize g + 1 else g_nosize g)\<rparr>)
                                  (m\<lparr>um_recs := (um_recs m)(a \<mapsto> r), um_fresh := um_fresh m + 1\<rparr>));
                        Some (True, m2, h)
                      }
                    }
                  else Some (False, st3)
              | _ \<Rightarrow> Some (False, st3))
           }
         }
       }
     }"

text \<open>A rule with a bar stands for two: the part before the bar, and the text without the bar. The name is copied
  to the heap; the copy is not checked.\<close>

definition split_bar :: "string \<Rightarrow> string \<times> string" where
  "split_bar u = (takeWhile (\<lambda>c. c \<noteq> CHR ''|'') u, takeWhile (\<lambda>c. c \<noteq> CHR ''|'') u @ drop 1 (dropWhile (\<lambda>c. c \<noteq> CHR ''|'') u))"

definition add_rule :: "nat \<Rightarrow> uw_state \<Rightarrow> string option \<Rightarrow> string option \<Rightarrow> (bool \<times> uw_state) ub" where
  "add_rule source_type st u w =
     do {
       u0 \<leftarrow> u;
       if CHR ''|'' \<in> set u0 then
         (case c_malloc (snd st) (length u0 + 1) of
            (None, h) \<Rightarrow> None
          | (Some b, h) \<Rightarrow>
              do {
                (ok1, st1) \<leftarrow> uri_worker_map_add (fst st, h) (Some (fst (split_bar u0))) w source_type;
                (ok2, m2, h2) \<leftarrow> uri_worker_map_add st1 (Some (snd (split_bar u0))) w source_type;
                h3 \<leftarrow> c_free h2 b;
                Some (ok1 \<and> ok2, m2, h3)
              })
       else uri_worker_map_add st u w source_type
     }"

fun open_loop :: "string jk_map \<Rightarrow> nat list \<Rightarrow> uw_state \<Rightarrow> (bool \<times> uw_state) ub" where
  "open_loop init_data [] st = Some (True, st)"
| "open_loop init_data (i # is) st =
     do {
       u \<leftarrow> jk_map_name_at init_data (int i);
       w \<leftarrow> jk_map_value_at init_data (int i);
       (rc, st1) \<leftarrow> add_rule SOURCE_TYPE_JKMOUNT st u w;
       if \<not> rc then Some (False, st1) else open_loop init_data is st1
     }"

definition close_pools :: "uw_state \<Rightarrow> uw_state ub" where
  "close_pools st =
     (case st of (m, h) \<Rightarrow>
        do {
          (p0, h0) \<leftarrow> jk_close_pool (g_pool (gen m 0), h);
          (p1, h1) \<leftarrow> jk_close_pool (g_pool (gen m 1), h0);
          (p, h2) \<leftarrow> jk_close_pool (um_p m, h1);
          Some (set_gen 0 ((gen m 0)\<lparr>g_pool := p0, g_maps := Released\<rparr>)
                 (set_gen 1 ((gen m 1)\<lparr>g_pool := p1, g_maps := Released\<rparr>) (m\<lparr>um_p := p, um_recs := Map.empty\<rparr>)), h2)
        })"

definition uri_worker_map_open :: "uw_state \<Rightarrow> string jk_map \<Rightarrow> (bool \<times> uw_state) ub" where
  "uri_worker_map_open st init_data =
     do {
       (rc, st1) \<leftarrow> open_loop init_data [0..<nat (jk_map_size init_data)] st;
       if rc then Some (True, st1) else do { st2 \<leftarrow> close_pools st1; Some (False, st2) }
     }"

definition BIG_POOL_SIZE :: u64 where "BIG_POOL_SIZE = 1024"

definition new_uri_worker_map :: jk_uri_worker_map where
  "new_uri_worker_map =
     (let g = \<lparr>g_pool = jk_open_pool (8 * BIG_POOL_SIZE), g_maps = Null, g_size = 0, g_capacity = 0, g_nosize = 0\<rparr> in
      \<lparr>um_p = jk_open_pool (8 * BIG_POOL_SIZE), um_index = 0, um_id = 0, um_gens = (g, g), um_recs = Map.empty, um_fresh = 0,
       um_reject_unsafe = False, um_fname = None, um_reload = 60, um_modified = 0, um_checked = 0\<rparr>)"

text \<open>The block of the map is not checked either; \<open>cs_ok\<close>: the lock was created. The counter of maps is passed along.\<close>

definition uri_worker_map_alloc :: "nat \<Rightarrow> bool \<Rightarrow> heap \<Rightarrow> string jk_map option \<Rightarrow> int \<Rightarrow>
    (bool \<times> (nat \<times> jk_uri_worker_map) \<times> int \<times> heap) ub" where
  "uri_worker_map_alloc sz cs_ok h init_data map_id_counter =
     (case c_malloc h sz of
        (None, h1) \<Rightarrow> None
      | (Some b, h1) \<Rightarrow>
          if \<not> cs_ok then Some (False, (b, new_uri_worker_map), map_id_counter, h1)
          else do {
            (rc, m, h2) \<leftarrow> (case init_data of None \<Rightarrow> Some (True, new_uri_worker_map, h1)
                            | Some d \<Rightarrow> uri_worker_map_open (new_uri_worker_map, h1) d);
            if rc then Some (True, (b, m\<lparr>um_id := map_id_counter + 1\<rparr>), map_id_counter + 1, h2)
            else Some (False, (b, m), map_id_counter, h2)
          })"

definition uri_worker_map_free :: "nat \<times> jk_uri_worker_map \<Rightarrow> heap \<Rightarrow> heap ub" where
  "uri_worker_map_free bm h = do { (_, h1) \<leftarrow> close_pools (snd bm, h); c_free h1 (fst bm) }"

text \<open>The switch resets the pool of the generation that was in use: its array and the rules of the file in it
  are gone.\<close>

definition release_gen :: "nat \<Rightarrow> (uw_ptr \<rightharpoonup> uri_worker_record) \<Rightarrow> uw_ptr \<rightharpoonup> uri_worker_record" where
  "release_gen i recs = (\<lambda>a. case a of In_Dyn j _ \<Rightarrow> if j = i then None else recs a | In_Pool _ \<Rightarrow> recs a)"

definition uri_worker_map_switch :: "uw_state \<Rightarrow> uw_state ub" where
  "uri_worker_map_switch st =
     (case st of (m, h) \<Rightarrow>
        let m1 = m\<lparr>um_index := IND_SWITCH (um_index m)\<rparr>; old = IND_SWITCH (um_index m1) in
        do {
          (p, h1) \<leftarrow> jk_reset_pool (g_pool (IND_NEXT m1), h);
          Some (put_next ((IND_NEXT m1)\<lparr>g_pool := p, g_maps := Released\<rparr>) (m1\<lparr>um_recs := release_gen old (um_recs m1)\<rparr>), h1)
        })"

section \<open>The search\<close>

definition rule_matches :: "string \<Rightarrow> uri_worker_record \<Rightarrow> bool" where
  "rule_matches url uwr \<longleftrightarrow>
     (if has uwr MATCH_TYPE_WILDCHAR_PATH then jk_wildchar_match url (ur_context uwr) False = 0
      else take (ur_context_len uwr) (ur_context uwr) = take (ur_context_len uwr) url \<and> length url = ur_context_len uwr)"

fun find_match_loop :: "jk_uri_worker_map \<Rightarrow> string \<Rightarrow> nat list \<Rightarrow> nat option ub" where
  "find_match_loop m url [] = Some None"
| "find_match_loop m url (i # is) =
     do {
       (_, uwr) \<leftarrow> record_at m (IND_THIS m) i;
       if has uwr MATCH_TYPE_DISABLED \<or> has uwr MATCH_TYPE_NO_MATCH then find_match_loop m url is
       else if rule_matches url uwr then Some (Some i)
       else find_match_loop m url is
     }"

definition find_match :: "jk_uri_worker_map \<Rightarrow> string \<Rightarrow> nat option ub" where
  "find_match m url = find_match_loop m url [0..<g_size (IND_THIS m)]"

fun nomatch_loop :: "jk_uri_worker_map \<Rightarrow> string \<Rightarrow> string \<Rightarrow> nat list \<Rightarrow> bool ub" where
  "nomatch_loop m uri worker [] = Some False"
| "nomatch_loop m uri worker (i # is) =
     do {
       (_, uwr) \<leftarrow> record_at m (IND_THIS m) i;
       if \<not> has uwr MATCH_TYPE_NO_MATCH \<or> has uwr MATCH_TYPE_DISABLED then nomatch_loop m uri worker is
       else if ur_worker_name uwr \<noteq> worker \<and> ur_worker_name uwr \<noteq> ''*'' then nomatch_loop m uri worker is
       else if rule_matches uri uwr then Some True
       else nomatch_loop m uri worker is
     }"

definition is_nomatch :: "jk_uri_worker_map \<Rightarrow> string \<Rightarrow> nat \<Rightarrow> bool ub" where
  "is_nomatch m uri i =
     do {
       (_, uwr) \<leftarrow> record_at m (IND_THIS m) i;
       nomatch_loop m uri (ur_worker_name uwr) [0..<g_size (IND_THIS m)]
     }"

text \<open>The virtual host as a prefix of the path. If it is too long, a warning is logged, with three
  conversions in its format and two arguments: undefined when warnings are logged (\<open>warns\<close>).\<close>

definition vhost_prefix :: "bool \<Rightarrow> string option \<Rightarrow> string ub" where
  "vhost_prefix warns vhost =
     (case vhost of
        None \<Rightarrow> Some []
      | Some v \<Rightarrow>
          let lead = (if v \<noteq> [] \<and> hd v = CHR ''/'' then [] else ''/'') in
          if length v + length lead \<ge> JK_MAX_URI_LEN then do { guard (\<not> warns); Some lead }
          else Some (lead @ v))"

text \<open>The copy of the URI, none when it is too long or unsafe.\<close>

fun copy_uri :: "bool \<Rightarrow> nat \<Rightarrow> string \<Rightarrow> string option" where
  "copy_uri reject_unsafe remain [] = Some []"
| "copy_uri reject_unsafe remain (c # cs) =
     (if remain = 0 then None
      else if reject_unsafe \<and> (c = CHR ''%'' \<or> c = CHR 0x5C) then None
      else map_option (Cons c) (copy_uri reject_unsafe (remain - 1) cs))"

definition search_rules :: "bool \<Rightarrow> jk_uri_worker_map \<Rightarrow> string \<Rightarrow> string option \<Rightarrow> (string \<times> uw_ptr \<times> nat) option ub" where
  "search_rules warns m uri vhost =
     do {
       pre \<leftarrow> vhost_prefix warns vhost;
       (case copy_uri (um_reject_unsafe m) (JK_MAX_URI_LEN - length pre) uri of
          None \<Rightarrow> Some None
        | Some u \<Rightarrow>
            do {
              rv0 \<leftarrow> find_match m (pre @ u);
              rv \<leftarrow> (if rv0 = None \<and> pre \<noteq> [] then find_match m u else Some rv0);
              (case rv of
                 None \<Rightarrow> Some None
               | Some i \<Rightarrow>
                   do {
                     denied \<leftarrow>
                       (if g_nosize (IND_THIS m) \<noteq> 0 then
                          do { rc \<leftarrow> is_nomatch m (pre @ u) i;
                               if \<not> rc \<and> pre \<noteq> [] then is_nomatch m u i else Some rc }
                        else Some False);
                     if denied then Some None
                     else do { (a, uwr) \<leftarrow> record_at m (IND_THIS m) i; Some (Some (ur_worker_name uwr, a, i)) }
                   })
            })
     }"

section \<open>Reloading\<close>

text \<open>What the system answers: the time, the modification time and, when the file can be opened, its contents; the
  environment of the process and the workers.\<close>

record uw_env =
  ue_now :: int
  ue_mtime :: "int option"
  ue_file :: "(string \<times> int) option"
  ue_getenv :: "string \<Rightarrow> string option"
  ue_workers :: "jk_worker jk_map"
  ue_warns :: bool

fun load_loop :: "string jk_map \<Rightarrow> nat list \<Rightarrow> uw_state \<Rightarrow> uw_state ub" where
  "load_loop mp [] st = Some st"
| "load_loop mp (i # is) st =
     do {
       u \<leftarrow> jk_map_name_at mp (int i);
       w \<leftarrow> jk_map_value_at mp (int i);
       (_, st1) \<leftarrow> add_rule SOURCE_TYPE_URIMAP st u w;
       load_loop mp is st1
     }"

definition sizeof_jk_map :: nat where "sizeof_jk_map = 4176"

definition uri_worker_map_load :: "uw_env \<Rightarrow> uw_state \<Rightarrow> (bool \<times> uw_state) ub" where
  "uri_worker_map_load ev st =
     (case st of (m, h) \<Rightarrow>
        (case jk_map_alloc sizeof_jk_map h of
           (_, None, h1) \<Rightarrow> Some (False, m, h1)
         | (_, Some (b, mp0), h1) \<Rightarrow>
             do {
               (ok, modified, mp, h2) \<leftarrow>
                 jk_map_read_properties mp0 h1 None (ue_getenv ev) (ue_file ev) JK_MAP_HANDLE_NORMAL;
               let m1 = (case modified of None \<Rightarrow> m | Some t \<Rightarrow> m\<lparr>um_modified := t\<rparr>) in
               do {
                 (m2, h3) \<leftarrow>
                   (if ok then
                      do {
                        st1 \<leftarrow> uri_worker_map_clear (m1, h2);
                        (m2, h3) \<leftarrow> load_loop mp [0..<nat (jk_map_size mp)] st1;
                        Some (m2\<lparr>um_checked := ue_now ev\<rparr>, h3)
                      }
                    else Some (m1, h2));
                 (_, _, h4) \<leftarrow> jk_map_free (Some (b, mp)) h3;
                 Some (ok, m2, h4)
               }
             }))"

definition uri_worker_map_update :: "uw_env \<Rightarrow> bool \<Rightarrow> uw_state \<Rightarrow> (bool \<times> uw_state) ub" where
  "uri_worker_map_update ev force st =
     (case st of (m, h) \<Rightarrow>
        if force \<or> um_reload m > 0 \<and> ue_now ev - um_checked m > um_reload m then
          let m1 = m\<lparr>um_checked := ue_now ev\<rparr> in
          (case ue_mtime ev of
             None \<Rightarrow> Some (False, m1, h)
           | Some t \<Rightarrow>
               if t = um_modified m1 then Some (True, m1, h)
               else do {
                 (_, st1) \<leftarrow> uri_worker_map_load ev (m1, h);
                 st2 \<leftarrow> uri_worker_map_ext (ue_workers ev) st1;
                 st3 \<leftarrow> uri_worker_map_switch st2;
                 Some (True, st3)
               })
        else Some (True, st))"

text \<open>The worker for a URI, with the address and the index of its rule.\<close>

definition map_uri_to_worker_ext :: "uw_env \<Rightarrow> uw_state \<Rightarrow> string \<Rightarrow> string option \<Rightarrow>
    ((string \<times> uw_ptr \<times> nat) option \<times> uw_state) ub" where
  "map_uri_to_worker_ext ev st uri vhost =
     (if uri = [] \<or> hd uri \<noteq> CHR ''/'' then Some (None, st)
      else do {
        (m, h) \<leftarrow> (if um_fname (fst st) \<noteq> None then do { (_, st1) \<leftarrow> uri_worker_map_update ev False st; Some st1 } else Some st);
        if um_fname m \<noteq> None \<and> g_size (IND_THIS m) = 0 then Some (None, m, h)
        else do { r \<leftarrow> search_rules (ue_warns ev) m uri vhost; Some (r, m, h) }
      })"

definition get_uri_to_worker_ext :: "jk_uri_worker_map \<Rightarrow> int \<Rightarrow> rule_extension option ub" where
  "get_uri_to_worker_ext m index =
     (if index \<ge> 0 then do { (_, uwr) \<leftarrow> record_at m (IND_THIS m) (nat index); Some (Some (ur_extensions uwr)) }
      else Some None)"

section \<open>Matching is globbing\<close>

definition wild :: "string \<Rightarrow> bool" where
  "wild s \<longleftrightarrow> CHR ''*'' \<in> set s \<or> CHR ''?'' \<in> set s"

definition rule_ok :: "uri_worker_record \<Rightarrow> bool" where
  "rule_ok r \<longleftrightarrow> ur_context_len r = length (ur_context r) \<and> has r MATCH_TYPE_WILDCHAR_PATH = wild (ur_context r)"

lemma glob_plain: "\<not> wild s \<Longrightarrow> glob False url s = (url = s)"
proof (induction s arbitrary: url)
  case (Cons e es)
  then show ?case by (cases url) (auto simp: wild_def same_char_def)
qed simp

lemma rule_matches_glob: "rule_ok r \<Longrightarrow> rule_matches url r = glob False url (ur_context r)"
  by (cases "wild (ur_context r)") (auto simp: rule_matches_def rule_ok_def glob_plain wildchar_glob)

section \<open>The search finds the first rule\<close>

definition live_rule :: "uri_worker_record \<Rightarrow> bool" where
  "live_rule r \<longleftrightarrow> \<not> has r MATCH_TYPE_DISABLED \<and> \<not> has r MATCH_TYPE_NO_MATCH"

definition unmount_rule :: "uri_worker_record \<Rightarrow> bool" where
  "unmount_rule r \<longleftrightarrow> \<not> has r MATCH_TYPE_DISABLED \<and> has r MATCH_TYPE_NO_MATCH"

lemma those_Some: "those xs = Some ys \<longleftrightarrow> xs = map Some ys"
proof (induction xs arbitrary: ys)
  case (Cons x xs)
  then show ?case by (cases x; cases ys) (auto split: option.splits)
qed auto

lemma records_nth: "records m g = Some rs \<Longrightarrow> length rs = g_size g \<and> (\<forall>i < g_size g. record_at m g i = Some (rs ! i))"
  unfolding records_def those_Some by (auto dest: arg_cong [of _ _ length] simp: list_eq_iff_nth_eq)

lemma find_match_loop_find:
  assumes "\<forall>i \<in> set is. record_at m (IND_THIS m) i = Some (rs ! i)"
  shows "find_match_loop m url is = Some (find (\<lambda>i. live_rule (snd (rs ! i)) \<and> rule_matches url (snd (rs ! i))) is)"
  using assms by (induction "is") (auto simp: live_rule_def case_prod_beta)

lemma nomatch_loop_bex:
  assumes "\<forall>i \<in> set is. record_at m (IND_THIS m) i = Some (rs ! i)"
  shows "nomatch_loop m uri w is = Some (\<exists>i \<in> set is. unmount_rule (snd (rs ! i)) \<and>
    (ur_worker_name (snd (rs ! i)) = w \<or> ur_worker_name (snd (rs ! i)) = ''*'') \<and> rule_matches uri (snd (rs ! i)))"
  using assms by (induction "is") (auto simp: unmount_rule_def case_prod_beta)

definition hits :: "uri_worker_record list \<Rightarrow> string \<Rightarrow> uri_worker_record set" where
  "hits rules url = {r \<in> set rules. live_rule r \<and> glob False url (ur_context r)}"

definition denied :: "uri_worker_record list \<Rightarrow> string \<Rightarrow> string \<Rightarrow> bool" where
  "denied rules w url \<longleftrightarrow> (\<exists>r \<in> set rules. unmount_rule r \<and> (ur_worker_name r = w \<or> ur_worker_name r = ''*'') \<and> glob False url (ur_context r))"

definition most_specific :: "uri_worker_record \<Rightarrow> uri_worker_record set \<Rightarrow> bool" where
  "most_specific r S \<longleftrightarrow> r \<in> S \<and> (\<forall>q \<in> S. worker_compare r q \<le> 0)"

definition before :: "uw_ptr \<times> uri_worker_record \<Rightarrow> uw_ptr \<times> uri_worker_record \<Rightarrow> bool" where
  "before a b \<longleftrightarrow> worker_compare (snd a) (snd b) \<le> 0"

definition gen_ok :: "jk_uri_worker_map \<Rightarrow> uw_gen \<Rightarrow> bool" where
  "gen_ok m g \<longleftrightarrow> (\<exists>rs. records m g = Some rs \<and> sorted_wrt before rs \<and> (\<forall>r \<in> set rs. rule_ok (snd r)) \<and>
     g_nosize g = length (filter (\<lambda>r. has (snd r) MATCH_TYPE_NO_MATCH) rs))"

lemma worker_compare_refl [simp]: "worker_compare r r = 0"
  by (simp add: worker_compare_def)

lemma find_upt:
  "find P [0..<n] = None \<longleftrightarrow> (\<forall>i < n. \<not> P i)"
  "find P [0..<n] = Some i \<Longrightarrow> i < n \<and> P i \<and> (\<forall>j < i. \<not> P j)"
  by (auto simp: find_None_iff find_Some_iff)

lemma find_match_spec:
  assumes "records m (IND_THIS m) = Some rs" and "sorted_wrt before rs" and "\<forall>r \<in> set rs. rule_ok (snd r)"
  shows "\<exists>x. find_match m url = Some x \<and> (case x of None \<Rightarrow> hits (map snd rs) url = {}
     | Some i \<Rightarrow> i < length rs \<and> most_specific (snd (rs ! i)) (hits (map snd rs) url))"
proof -
  let ?P = "\<lambda>i. live_rule (snd (rs ! i)) \<and> rule_matches url (snd (rs ! i))"
  have n: "g_size (IND_THIS m) = length rs" and r: "\<forall>i \<in> set [0..<length rs]. record_at m (IND_THIS m) i = Some (rs ! i)"
    using records_nth [OF assms(1)] by auto
  have P: "?P i = (snd (rs ! i) \<in> hits (map snd rs) url)" if "i < length rs" for i
    using assms(3) that rule_matches_glob [of "snd (rs ! i)" url] by (auto simp: hits_def)
  have f: "find_match m url = Some (find ?P [0..<length rs])" unfolding find_match_def n by (rule find_match_loop_find [OF r])
  show ?thesis
  proof (cases "find ?P [0..<length rs]")
    case None
    have "q \<notin> hits (map snd rs) url" for q
    proof
      assume q: "q \<in> hits (map snd rs) url"
      then obtain i where i: "i < length rs" "q = snd (rs ! i)" by (auto simp: hits_def in_set_conv_nth)
      then have "?P i" using P [OF i(1)] q by simp
      then show False using None i(1) find_upt(1) [of ?P "length rs"] by blast
    qed
    then show ?thesis using f None by auto
  next
    case (Some i)
    then have i: "i < length rs" "?P i" "\<forall>j < i. \<not> ?P j" using find_upt(2) [OF Some] by blast+
    have "worker_compare (snd (rs ! i)) q \<le> 0" if q: "q \<in> hits (map snd rs) url" for q
    proof -
      from q obtain j where j: "j < length rs" "q = snd (rs ! j)" by (auto simp: hits_def in_set_conv_nth)
      then have "?P j" using P [OF j(1)] q by simp
      then have "\<not> j < i" using i(3) by blast
      then show ?thesis using sorted_wrt_nth_less [OF assms(2), of i j] j by (cases "i = j") (auto simp: before_def)
    qed
    then show ?thesis using f Some i(1) P [OF i(1)] i(2) by (auto simp: most_specific_def)
  qed
qed

lemma bex_nth: "(\<exists>i \<in> set [0..<length xs]. P (xs ! i)) = (\<exists>x \<in> set xs. P x)"
  unfolding set_conv_nth [of xs] set_upt by fastforce

lemma is_nomatch_spec:
  assumes "records m (IND_THIS m) = Some rs" and "\<forall>r \<in> set rs. rule_ok (snd r)" and "i < length rs"
  shows "is_nomatch m url i = Some (denied (map snd rs) (ur_worker_name (snd (rs ! i))) url)"
proof -
  have n: "g_size (IND_THIS m) = length rs" and r: "\<forall>i \<in> set [0..<length rs]. record_at m (IND_THIS m) i = Some (rs ! i)"
    using records_nth [OF assms(1)] by auto
  have g: "rule_matches url (snd (rs ! j)) = glob False url (ur_context (snd (rs ! j)))" if "j < length rs" for j
    using assms(2) that rule_matches_glob by auto
  have "is_nomatch m url i = nomatch_loop m url (ur_worker_name (snd (rs ! i))) [0..<length rs]"
    using r assms(3) by (simp add: is_nomatch_def n case_prod_beta)
  also have "\<dots> = Some (denied (map snd rs) (ur_worker_name (snd (rs ! i))) url)"
    unfolding nomatch_loop_bex [OF r] denied_def set_map bex_simps
    by (subst bex_nth [symmetric]) (use g in \<open>auto intro!: bex_cong\<close>)
  finally show ?thesis .
qed

lemma no_unmounts: "filter (\<lambda>r. has (snd r) MATCH_TYPE_NO_MATCH) rs = [] \<Longrightarrow> \<not> denied (map snd rs) w url"
  by (auto simp: denied_def unmount_rule_def filter_empty_conv)

lemma copy_uri_ok: "length u \<le> n \<Longrightarrow> (rej \<longrightarrow> CHR ''%'' \<notin> set u \<and> CHR 0x5C \<notin> set u) \<Longrightarrow> copy_uri rej n u = Some u"
  by (induction rej n u rule: copy_uri.induct) auto

text \<open>The rule a URI is mapped to: the most specific one for the path with the host, or else for the path.\<close>

definition target :: "uri_worker_record list \<Rightarrow> string \<Rightarrow> string \<Rightarrow> uri_worker_record \<Rightarrow> bool" where
  "target rules pre uri r \<longleftrightarrow> most_specific r (hits rules (if hits rules (pre @ uri) \<noteq> {} then pre @ uri else uri))"


end
