(* ===== verification/Jk_Uwmap_Life.thy ===== *)
theory Jk_Uwmap_Life
  imports Jk_Uwmap
begin

text \<open>
  The life of a URI map: opening it from the configuration, building the next generation from the file,
  and switching. The invariant says that the generation in use is complete and in order; the rules of the
  next one are built beside it without touching it, up to the extensions of the rules both share. The
  theorems: what opening and reloading put into the map, and what happens when they fail.
\<close>

section \<open>Generations\<close>

lemma gen_set_gen [simp]: "gen (set_gen i g m) j = (if (i = 0) = (j = 0) then g else gen m j)"
  by (simp add: gen_def set_gen_def)

lemma set_gen_fields [simp]:
  "um_p (set_gen i g m) = um_p m" "um_index (set_gen i g m) = um_index m" "um_recs (set_gen i g m) = um_recs m"
  "um_fresh (set_gen i g m) = um_fresh m" "um_fname (set_gen i g m) = um_fname m"
  by (simp_all add: set_gen_def)

lemma gen_update [simp]:
  "gen (m\<lparr>um_p := p\<rparr>) i = gen m i" "gen (m\<lparr>um_recs := rec\<rparr>) i = gen m i" "gen (m\<lparr>um_fresh := f\<rparr>) i = gen m i"
  "gen (m\<lparr>um_index := k\<rparr>) i = gen m i" "gen (m\<lparr>um_checked := c\<rparr>) i = gen m i" "gen (m\<lparr>um_modified := c\<rparr>) i = gen m i"
  "gen (m\<lparr>um_id := d\<rparr>) i = gen m i"
  by (simp_all add: gen_def)

lemma IND_SWITCH_less [simp]: "IND_SWITCH x < 2"
  by (simp add: IND_SWITCH_def)

lemma IND_SWITCH_simps [simp]: "IND_SWITCH 0 = 1" "IND_SWITCH (Suc 0) = 0"
  by (simp_all add: IND_SWITCH_def)

lemma index_cases: "i < 2 \<Longrightarrow> (i = 0 \<Longrightarrow> P) \<Longrightarrow> (i = 1 \<Longrightarrow> P) \<Longrightarrow> P" for i :: nat
  by linarith

lemma gen_put_next: "i < 2 \<Longrightarrow> gen (put_next g m) i = (if i = IND_SWITCH (um_index m) then g else gen m i)"
proof -
  assume "i < 2"
  then have "(IND_SWITCH (um_index m) = 0) = (i = 0) \<longleftrightarrow> i = IND_SWITCH (um_index m)" using IND_SWITCH_less [of "um_index m"] by linarith
  then show ?thesis by (simp add: put_next_def)
qed

lemma put_next_fields [simp]:
  "um_p (put_next g m) = um_p m" "um_index (put_next g m) = um_index m" "um_recs (put_next g m) = um_recs m"
  "um_fresh (put_next g m) = um_fresh m" "um_fname (put_next g m) = um_fname m"
  by (simp_all add: put_next_def)

lemma IND_NEXT_put_next [simp]: "IND_NEXT (put_next g m) = g"
  by (simp add: IND_NEXT_def gen_put_next)

lemma IND_THIS_put_next [simp]: "um_index m < 2 \<Longrightarrow> IND_THIS (put_next g m) = IND_THIS m"
  by (auto simp: IND_THIS_def gen_put_next elim!: index_cases)

text \<open>Two maps with the same rules, up to their pools.\<close>

definition same_gen :: "uw_gen \<Rightarrow> uw_gen \<Rightarrow> bool" where
  "same_gen g g' \<longleftrightarrow> g_maps g' = g_maps g \<and> g_size g' = g_size g \<and> g_capacity g' = g_capacity g \<and> g_nosize g' = g_nosize g"

definition same_rules :: "jk_uri_worker_map \<Rightarrow> jk_uri_worker_map \<Rightarrow> bool" where
  "same_rules m m' \<longleftrightarrow> um_index m' = um_index m \<and> um_recs m' = um_recs m \<and> um_fresh m' = um_fresh m \<and> um_fname m' = um_fname m \<and>
     (\<forall>i < 2. same_gen (gen m i) (gen m' i))"

lemma same_gen_refl [simp]: "same_gen g g" "same_gen g (g\<lparr>g_pool := p\<rparr>)"
  by (simp_all add: same_gen_def)

lemma same_rules_refl [simp]: "same_rules m m"
  by (simp add: same_rules_def)

lemma same_rules_trans: "same_rules a b \<Longrightarrow> same_rules b c \<Longrightarrow> same_rules a c"
  by (auto simp: same_rules_def same_gen_def)

lemma with_pool_same: "with_pool dyn f (m, h) = Some (r, m', h') \<Longrightarrow> same_rules m m'"
  by (auto simp: with_pool_def ub_simps same_rules_def gen_put_next IND_NEXT_def split: if_splits)

lemma same_rules_next: "same_rules m m' \<Longrightarrow> same_gen (IND_NEXT m) (IND_NEXT m')"
  by (simp add: same_rules_def IND_NEXT_def)

section \<open>The records of a generation\<close>

lemma record_at_cong: "same_gen g g' \<Longrightarrow> um_recs m' = um_recs m \<Longrightarrow> record_at m' g' i = record_at m g i"
  by (simp add: record_at_def same_gen_def)

lemma records_same: "same_gen g g' \<Longrightarrow> um_recs m' = um_recs m \<Longrightarrow> records m' g' = records m g"
  using record_at_cong [of g g' m' m] unfolding records_def by (metis same_gen_def ext)

lemma record_at_Some: "record_at m g i = Some (a, r) \<Longrightarrow> um_recs m a = Some r"
  by (auto simp: record_at_def ub_simps)

lemma record_at_entry: "record_at m g i = Some x \<Longrightarrow> entry_at (g_maps g) i = Some (fst x)"
  by (auto simp: record_at_def ub_simps)

lemma records_store: "records m g = Some rs \<Longrightarrow> x \<in> set rs \<Longrightarrow> um_recs m (fst x) = Some (snd x)"
  using records_nth [of m g rs] by (cases x) (auto simp: in_set_conv_nth dest!: record_at_Some)

text \<open>A store that changes the rules of a generation changes its records.\<close>

lemma records_map:
  assumes "records m g = Some rs" and "\<forall>x \<in> set rs. um_recs m' (fst x) = Some (f x)"
  shows "records m' g = Some (map (\<lambda>x. (fst x, f x)) rs)"
proof -
  have n: "length rs = g_size g" "\<forall>i < g_size g. record_at m g i = Some (rs ! i)" using records_nth [OF assms(1)] by auto
  have "record_at m' g i = Some (fst (rs ! i), f (rs ! i))" if i: "i < g_size g" for i
  proof -
    have "entry_at (g_maps g) i = Some (fst (rs ! i))" using n(2) i by (intro record_at_entry [of m]) simp
    moreover have "um_recs m' (fst (rs ! i)) = Some (f (rs ! i))" using assms(2) i n(1) by simp
    ultimately show ?thesis by (simp add: record_at_def)
  qed
  then show ?thesis unfolding records_def those_Some using n(1) by (auto intro!: nth_equalityI)
qed

lemma records_keep:
  assumes "records m g = Some rs" and "\<forall>x \<in> set rs. um_recs m' (fst x) = Some (snd x)"
  shows "records m' g = Some rs"
  using records_map [OF assms(1), of m' snd] assms(2) by simp

lemma records_entries: "records m g = Some rs \<Longrightarrow> i < g_size g \<Longrightarrow> entry_at (g_maps g) i = Some (fst (rs ! i))"
  using records_nth [of m g rs] by (intro record_at_entry [of m]) simp

text \<open>Conversely, an array whose entries are in the store has records.\<close>

lemma records_intro:
  assumes "length rs = g_size g" and "\<And>i. i < length rs \<Longrightarrow> entry_at (g_maps g) i = Some (fst (rs ! i))"
    and "\<And>x. x \<in> set rs \<Longrightarrow> um_recs m (fst x) = Some (snd x)"
  shows "records m g = Some rs"
proof -
  have "record_at m g i = Some (rs ! i)" if "i < length rs" for i
    using assms(2) [OF that] assms(3) [of "rs ! i"] that by (simp add: record_at_def)
  then show ?thesis unfolding records_def those_Some using assms(1) by (auto intro!: nth_equalityI)
qed

lemma entry_at_Entries [simp]: "entry_at (Entries xs) i = (if i < length xs then xs ! i else None)"
  by (simp add: entry_at_def rd_def)

section \<open>The invariant\<close>

definition addr_id :: "uw_ptr \<Rightarrow> nat" where
  "addr_id a = (case a of In_Pool k \<Rightarrow> k | In_Dyn _ k \<Rightarrow> k)"

definition in_dyn :: "uw_ptr \<Rightarrow> bool" where
  "in_dyn a = (case a of In_Pool _ \<Rightarrow> False | In_Dyn _ _ \<Rightarrow> True)"

definition addr_ok :: "nat \<Rightarrow> uw_ptr \<Rightarrow> bool" where
  "addr_ok i a = (case a of In_Pool _ \<Rightarrow> True | In_Dyn j _ \<Rightarrow> j = i)"

text \<open>Rules of the file, and only these, are in the pool of a generation.\<close>

definition store_ok :: "jk_uri_worker_map \<Rightarrow> bool" where
  "store_ok m \<longleftrightarrow> um_index m < 2 \<and>
     (\<forall>a r. um_recs m a = Some r \<longrightarrow> addr_id a < um_fresh m \<and> rule_ok r \<and> (ur_source_type r = SOURCE_TYPE_URIMAP \<longleftrightarrow> in_dyn a))"

definition array_ok :: "uw_gen \<Rightarrow> bool" where
  "array_ok g \<longleftrightarrow> (case g_maps g of Null \<Rightarrow> g_size g = 0 | Released \<Rightarrow> False | Entries xs \<Rightarrow> length xs = g_capacity g) \<and> g_size g \<le> g_capacity g"

definition gen_inv :: "jk_uri_worker_map \<Rightarrow> nat \<Rightarrow> bool" where
  "gen_inv m i \<longleftrightarrow> array_ok (gen m i) \<and>
     (\<exists>rs. records m (gen m i) = Some rs \<and> sorted_wrt before rs \<and> (\<forall>x \<in> set rs. addr_ok i (fst x)) \<and>
       g_nosize (gen m i) = length (filter (\<lambda>r. has (snd r) MATCH_TYPE_NO_MATCH) rs))"

lemma gen_inv_ok: "store_ok m \<Longrightarrow> gen_inv m i \<Longrightarrow> gen_ok m (gen m i)"
  using records_store unfolding gen_inv_def gen_ok_def store_ok_def by blast

lemma gen_inv_same: "same_rules m m' \<Longrightarrow> i < 2 \<Longrightarrow> gen_inv m i \<Longrightarrow> gen_inv m' i"
proof -
  assume s: "same_rules m m'" "i < 2" and g: "gen_inv m i"
  then have e: "same_gen (gen m i) (gen m' i)" "um_recs m' = um_recs m" by (simp_all add: same_rules_def)
  then have "array_ok (gen m' i) = array_ok (gen m i)" "g_nosize (gen m' i) = g_nosize (gen m i)"
    by (simp_all add: array_ok_def same_gen_def split: uw_array.split)
  then show ?thesis using g unfolding gen_inv_def records_same [OF e] by simp
qed

lemma store_ok_same: "same_rules m m' \<Longrightarrow> store_ok m \<Longrightarrow> store_ok m'"
  by (simp add: same_rules_def store_ok_def)

section \<open>Sorting\<close>

text \<open>The contract of \<open>qsort\<close>: a permutation, in the order of a comparison that is a total preorder.\<close>

locale comparison_sort =
  fixes srt :: "('a \<Rightarrow> 'a \<Rightarrow> int) \<Rightarrow> 'a list \<Rightarrow> 'a list"
  assumes srt_mset: "mset (srt cmp xs) = mset xs"
    and srt_sorted: "(\<And>x y. cmp x y \<le> 0 \<or> cmp y x \<le> 0) \<Longrightarrow> (\<And>x y z. cmp x y \<le> 0 \<Longrightarrow> cmp y z \<le> 0 \<Longrightarrow> cmp x z \<le> 0) \<Longrightarrow>
      sorted_wrt (\<lambda>x y. cmp x y \<le> 0) (srt cmp xs)"
begin

lemma srt_set: "set (srt cmp xs) = set xs"
  using srt_mset by (metis set_mset_mset)

lemma srt_length: "length (srt cmp xs) = length xs"
  using srt_mset by (metis size_mset)

lemma srt_filter: "length (filter P (srt cmp xs)) = length (filter P xs)"
  using srt_mset by (metis mset_filter size_mset)

end

lemma mset_qsort_insert: "mset (qsort_insert cmp x xs) = add_mset x (mset xs)"
  by (induction xs) auto

lemma sorted_qsort_insert:
  assumes total: "\<And>x y. cmp x y \<le> 0 \<or> cmp y x \<le> (0::int)" and trans: "\<And>x y z. cmp x y \<le> 0 \<Longrightarrow> cmp y z \<le> 0 \<Longrightarrow> cmp x z \<le> 0"
  shows "sorted_wrt (\<lambda>x y. cmp x y \<le> 0) xs \<Longrightarrow> sorted_wrt (\<lambda>x y. cmp x y \<le> 0) (qsort_insert cmp x xs)"
proof (induction xs)
  case (Cons y ys)
  have s: "set (qsort_insert cmp x ys) = insert x (set ys)" using mset_qsort_insert [of cmp x ys] by (metis set_mset_add_mset_insert set_mset_mset)
  show ?case
  proof (cases "cmp x y \<le> 0")
    case True
    then show ?thesis using Cons.prems trans [of x y] by auto
  next
    case False
    then show ?thesis using Cons s total [of x y] by auto
  qed
qed simp

interpretation qs: comparison_sort qsort
proof
  show "mset (qsort cmp xs) = mset xs" for cmp and xs :: "'b list"
    unfolding qsort_def by (induction xs) (simp_all add: mset_qsort_insert)
  show "sorted_wrt (\<lambda>x y. cmp x y \<le> 0) (qsort cmp xs)"
    if "\<And>x y. cmp x y \<le> 0 \<or> cmp y x \<le> 0" "\<And>x y z. cmp x y \<le> 0 \<Longrightarrow> cmp y z \<le> 0 \<Longrightarrow> cmp x z \<le> 0" for cmp and xs :: "'b list"
    unfolding qsort_def by (induction xs) (simp_all add: sorted_qsort_insert that)
qed

lemma before_total: "before a b \<or> before b a"
  by (auto simp: before_def worker_compare_def Let_def)

lemma before_trans: "before a b \<Longrightarrow> before b c \<Longrightarrow> before a c"
  by (auto simp: before_def worker_compare_def Let_def split: if_splits)

lemma qsort_before: "sorted_wrt before (qsort (\<lambda>x y. worker_compare (snd x) (snd y)) rs)"
proof -
  let ?cmp = "\<lambda>x y. worker_compare (snd x) (snd y)"
  have b: "(?cmp x y \<le> 0) = before x y" for x y :: "uw_ptr \<times> uri_worker_record" by (simp add: before_def)
  have "sorted_wrt (\<lambda>x y. ?cmp x y \<le> 0) (qsort ?cmp rs)"
    by (rule qs.srt_sorted) (unfold b, rule before_total, rule before_trans)
  then show ?thesis unfolding b .
qed

section \<open>Adding a rule\<close>

text \<open>What an operation on the next generation keeps of the one in use.\<close>

definition kept :: "jk_uri_worker_map \<Rightarrow> jk_uri_worker_map \<Rightarrow> bool" where
  "kept m m' \<longleftrightarrow> um_index m' = um_index m \<and> um_fname m' = um_fname m \<and> um_recs m \<subseteq>\<^sub>m um_recs m' \<and> same_gen (IND_THIS m) (IND_THIS m')"

lemma kept_refl [simp]: "kept m m"
  by (simp add: kept_def)

lemma kept_trans: "kept a b \<Longrightarrow> kept b c \<Longrightarrow> kept a c"
  by (auto simp: kept_def same_gen_def intro: map_le_trans)

lemma same_rules_kept: "um_index m < 2 \<Longrightarrow> same_rules m m' \<Longrightarrow> kept m m'"
  by (simp add: kept_def same_rules_def IND_THIS_def)

lemma records_le:
  assumes "records m g = Some rs" and "um_recs m \<subseteq>\<^sub>m um_recs m'"
  shows "records m' g = Some rs"
proof (rule records_keep [OF assms(1)], rule ballI)
  fix x assume "x \<in> set rs"
  then have "um_recs m (fst x) = Some (snd x)" by (rule records_store [OF assms(1)])
  then show "um_recs m' (fst x) = Some (snd x)" using assms(2) by (metis domI map_le_def)
qed

lemma gen_inv_kept:
  assumes "kept m m'" and "gen_inv m (um_index m)"
  shows "gen_inv m' (um_index m')"
proof -
  let ?i = "um_index m"
  obtain rs where rs: "records m (gen m ?i) = Some rs" "sorted_wrt before rs" "\<forall>x \<in> set rs. addr_ok ?i (fst x)"
      "g_nosize (gen m ?i) = length (filter (\<lambda>r. has (snd r) MATCH_TYPE_NO_MATCH) rs)" and a: "array_ok (gen m ?i)"
    using assms(2) by (auto simp: gen_inv_def)
  have s: "same_gen (gen m ?i) (gen m' ?i)" "um_index m' = ?i" using assms(1) by (auto simp: kept_def IND_THIS_def)
  have "records m' (gen m' ?i) = Some rs"
    using records_same [OF s(1) refl, of m'] records_le [OF rs(1)] assms(1) by (simp add: kept_def)
  moreover have "array_ok (gen m' ?i)" "g_nosize (gen m' ?i) = g_nosize (gen m ?i)"
    using s(1) a by (simp_all add: array_ok_def same_gen_def split: uw_array.splits)
  ultimately show ?thesis unfolding gen_inv_def s(2) using rs(2-4) by auto
qed

text \<open>The next generation and its records.\<close>

definition next_inv :: "jk_uri_worker_map \<Rightarrow> (uw_ptr \<times> uri_worker_record) list \<Rightarrow> bool" where
  "next_inv m rs \<longleftrightarrow> store_ok m \<and> array_ok (IND_NEXT m) \<and> records m (IND_NEXT m) = Some rs \<and> sorted_wrt before rs \<and>
     (\<forall>x \<in> set rs. addr_ok (IND_SWITCH (um_index m)) (fst x)) \<and>
     g_nosize (IND_NEXT m) = length (filter (\<lambda>r. has (snd r) MATCH_TYPE_NO_MATCH) rs)"

lemma next_inv_gen: "store_ok m \<and> gen_inv m (IND_SWITCH (um_index m)) \<longleftrightarrow> (\<exists>rs. next_inv m rs)"
  by (auto simp: next_inv_def gen_inv_def IND_NEXT_def)

lemma next_inv_same:
  assumes "same_rules m m'" and "next_inv m rs"
  shows "next_inv m' rs"
proof -
  have g: "same_gen (IND_NEXT m) (IND_NEXT m')" "um_recs m' = um_recs m" "um_index m' = um_index m"
    using assms(1) same_rules_next by (auto simp: same_rules_def)
  have "array_ok (IND_NEXT m')" "g_nosize (IND_NEXT m') = g_nosize (IND_NEXT m)"
    using g(1) assms(2) by (simp_all add: next_inv_def array_ok_def same_gen_def split: uw_array.splits)
  then show ?thesis using assms(2) store_ok_same [OF assms(1)] records_same [OF g(1,2)] g(3) by (simp add: next_inv_def)
qed

lemma grow_maps_ok:
  assumes "array_ok g" and "g_size g = g_capacity g" and "grow_maps (g_maps g) (g_capacity g) c = Some a" and "g_capacity g \<le> c"
  shows "\<exists>xs. a = Entries xs \<and> length xs = c \<and> (\<forall>i < g_size g. entry_at a i = entry_at (g_maps g) i)"
  using assms by (cases "g_maps g") (auto simp: grow_maps_def array_ok_def ub_simps nth_append split: if_splits)

lemma uw_realloc_ok:
  assumes "next_inv m rs" and "uri_worker_map_realloc (m, h) = Some (ok, m', h')"
  shows "next_inv m' rs \<and> kept m m' \<and> um_fresh m' = um_fresh m \<and> um_recs m' = um_recs m \<and> (ok \<longrightarrow> g_size (IND_NEXT m') < g_capacity (IND_NEXT m'))"
proof -
  let ?g = "IND_NEXT m" and ?c = "g_capacity (IND_NEXT m) + UW_INC_SIZE"
  have ix: "um_index m < 2" using assms(1) by (simp add: next_inv_def store_ok_def)
  show ?thesis
  proof (cases "g_size ?g = g_capacity ?g")
    case False
    then show ?thesis using assms by (auto simp: uri_worker_map_realloc_def next_inv_def array_ok_def)
  next
    case True
    obtain uwr m1 h1 where a: "with_pool True (\<lambda>p. jk_pool_alloc p (of_nat (8 * ?c))) (m, h) = Some (uwr, m1, h1)"
      using assms(2) True by (auto simp: uri_worker_map_realloc_def Let_def ub_simps)
    note sm = with_pool_same [OF a]
    have m1: "next_inv m1 rs" "kept m m1" "um_fresh m1 = um_fresh m" "um_recs m1 = um_recs m" "um_index m1 < 2"
      using next_inv_same [OF sm assms(1)] same_rules_kept [OF ix sm] sm ix by (auto simp: same_rules_def)
    have sg: "same_gen ?g (IND_NEXT m1)" by (rule same_rules_next [OF sm])
    show ?thesis
    proof (cases uwr)
      case None
      then show ?thesis using assms(2) True a m1 by (auto simp: uri_worker_map_realloc_def Let_def)
    next
      case (Some q)
      then obtain arr' where g: "grow_maps (g_maps ?g) (g_capacity ?g) ?c = Some arr'"
          "m' = put_next ((IND_NEXT m1)\<lparr>g_maps := arr', g_capacity := ?c\<rparr>) m1"
        using assms(2) True a by (auto simp: uri_worker_map_realloc_def Let_def ub_simps)
      obtain xs where xs: "arr' = Entries xs" "length xs = ?c" "\<forall>i < g_size ?g. entry_at arr' i = entry_at (g_maps ?g) i"
        using grow_maps_ok [OF _ True g(1)] assms(1) by (auto simp: next_inv_def)
      have f: "g_size (IND_NEXT m1) = g_size ?g" "g_nosize (IND_NEXT m1) = g_nosize ?g" using sg by (simp_all add: same_gen_def)
      have r0: "records m ?g = Some rs" using assms(1) by (simp add: next_inv_def)
      have "records m' (IND_NEXT m') = Some rs"
      proof (rule records_intro)
        show "length rs = g_size (IND_NEXT m')" using records_nth [OF r0] g(2) f by simp
        show "entry_at (g_maps (IND_NEXT m')) i = Some (fst (rs ! i))" if "i < length rs" for i
          using that records_nth [OF r0] records_entries [OF r0, of i] xs(3) g(2) by simp
        show "um_recs m' (fst x) = Some (snd x)" if "x \<in> set rs" for x using records_store [OF r0 that] m1(4) g(2) by simp
      qed
      moreover have "array_ok (IND_NEXT m')" using g(2) xs f True by (simp add: array_ok_def)
      moreover have "store_ok m'" using m1(1) g(2) by (simp add: next_inv_def store_ok_def)
      ultimately have "next_inv m' rs" using m1(1) g(2) by (simp add: next_inv_def)
      moreover have "kept m m'" using m1(2,5) g(2) by (simp add: kept_def)
      ultimately show ?thesis using m1 g(2) f True by (simp add: UW_INC_SIZE_def)
    qed
  qed
qed

abbreviation (input) by_rule :: "uw_ptr \<times> uri_worker_record \<Rightarrow> uw_ptr \<times> uri_worker_record \<Rightarrow> int" where
  "by_rule x y \<equiv> worker_compare (snd x) (snd y)"

lemma worker_qsort_ok:
  assumes "records m (IND_NEXT m) = Some rs" and "array_ok (IND_NEXT m)" and "g_maps (IND_NEXT m) = Entries xs"
  shows "worker_qsort m = Some (put_next ((IND_NEXT m)\<lparr>g_maps := Entries (map (\<lambda>(p, _). Some p) (qsort by_rule rs) @ drop (g_size (IND_NEXT m)) xs)\<rparr>) m)"
    and "records (put_next ((IND_NEXT m)\<lparr>g_maps := Entries (map (\<lambda>(p, _). Some p) (qsort by_rule rs) @ drop (g_size (IND_NEXT m)) xs)\<rparr>) m)
           ((IND_NEXT m)\<lparr>g_maps := Entries (map (\<lambda>(p, _). Some p) (qsort by_rule rs) @ drop (g_size (IND_NEXT m)) xs)\<rparr>) = Some (qsort by_rule rs)"
proof -
  show "worker_qsort m = Some (put_next ((IND_NEXT m)\<lparr>g_maps := Entries (map (\<lambda>(p, _). Some p) (qsort by_rule rs) @ drop (g_size (IND_NEXT m)) xs)\<rparr>) m)"
    using assms by (simp add: worker_qsort_def)
  show "records (put_next ((IND_NEXT m)\<lparr>g_maps := Entries (map (\<lambda>(p, _). Some p) (qsort by_rule rs) @ drop (g_size (IND_NEXT m)) xs)\<rparr>) m)
           ((IND_NEXT m)\<lparr>g_maps := Entries (map (\<lambda>(p, _). Some p) (qsort by_rule rs) @ drop (g_size (IND_NEXT m)) xs)\<rparr>) = Some (qsort by_rule rs)"
  proof (rule records_intro)
    show "um_recs (put_next G m) (fst x) = Some (snd x)" if "x \<in> set (qsort by_rule rs)" for x G
      using that records_store [OF assms(1)] by (simp add: qs.srt_set)
  qed (use records_nth [OF assms(1)] in \<open>simp_all add: qs.srt_length nth_append case_prod_beta\<close>)
qed

lemma store_ok_fresh: "store_ok m \<Longrightarrow> addr_id a = um_fresh m \<Longrightarrow> um_recs m a = None"
  unfolding store_ok_def by (metis less_irrefl option.exhaust)

lemma uw_push_ok:
  assumes inv: "next_inv m rs" and room: "g_size (IND_NEXT m) < g_capacity (IND_NEXT m)"
    and a: "addr_id a = um_fresh m" "addr_ok (IND_SWITCH (um_index m)) a" and r: "rule_ok r" "ur_source_type r = SOURCE_TYPE_URIMAP \<longleftrightarrow> in_dyn a"
    and ys: "set_entry (g_maps (IND_NEXT m)) (g_size (IND_NEXT m)) a = Some ys"
    and q: "worker_qsort (put_next ((IND_NEXT m)\<lparr>g_maps := ys, g_size := g_size (IND_NEXT m) + 1,
                g_nosize := (if has r MATCH_TYPE_NO_MATCH then g_nosize (IND_NEXT m) + 1 else g_nosize (IND_NEXT m))\<rparr>)
              (m\<lparr>um_recs := (um_recs m)(a \<mapsto> r), um_fresh := um_fresh m + 1\<rparr>)) = Some m'"
  shows "next_inv m' (qsort by_rule (rs @ [(a, r)])) \<and> kept m m'"
proof -
  let ?g = "IND_NEXT m"
  define g1 where "g1 = ?g\<lparr>g_maps := ys, g_size := g_size ?g + 1, g_nosize := (if has r MATCH_TYPE_NO_MATCH then g_nosize ?g + 1 else g_nosize ?g)\<rparr>"
  define m0 where "m0 = m\<lparr>um_recs := (um_recs m)(a \<mapsto> r), um_fresh := um_fresh m + 1\<rparr>"
  define m1 where "m1 = put_next g1 m0"
  have st: "store_ok m" "array_ok ?g" "records m ?g = Some rs" "um_index m < 2" using inv by (auto simp: next_inv_def store_ok_def)
  have fr: "um_recs m a = None" by (rule store_ok_fresh [OF st(1) a(1)])
  obtain xs where xs: "g_maps ?g = Entries xs" "ys = Entries (xs[g_size ?g := Some a])" "g_size ?g < length xs" "length xs = g_capacity ?g"
    using ys st(2) room by (cases "g_maps ?g") (auto simp: set_entry_def array_ok_def wr_def split: if_splits)
  note nth = records_nth [OF st(3)] and ent = records_entries [OF st(3)]
  have n1: "IND_NEXT m1 = g1" "um_recs m1 = (um_recs m)(a \<mapsto> r)" "um_index m1 = um_index m" "um_fresh m1 = um_fresh m + 1"
    by (simp_all add: m1_def m0_def)
  have r1: "records m1 g1 = Some (rs @ [(a, r)])"
  proof (rule records_intro)
    show "length (rs @ [(a, r)]) = g_size g1" using nth by (simp add: g1_def)
    show "entry_at (g_maps g1) i = Some (fst ((rs @ [(a, r)]) ! i))" if "i < length (rs @ [(a, r)])" for i
      using that nth ent [of i] xs by (auto simp: g1_def nth_append nth_list_update less_Suc_eq)
    show "um_recs m1 (fst x) = Some (snd x)" if "x \<in> set (rs @ [(a, r)])" for x
      using that records_store [OF st(3), of x] fr by (auto simp: n1)
  qed
  have a1: "array_ok g1" using xs room by (simp add: array_ok_def g1_def)
  note srt = worker_qsort_ok [of m1 "rs @ [(a, r)]", unfolded n1(1), OF r1 a1, of "xs[g_size ?g := Some a]"]
  have maps1: "g_maps g1 = Entries (xs[g_size ?g := Some a])" using xs(2) by (simp add: g1_def)
  define g2 where "g2 = g1\<lparr>g_maps := Entries (map (\<lambda>(p, _). Some p) (qsort by_rule (rs @ [(a, r)])) @ drop (g_size g1) (xs[g_size ?g := Some a]))\<rparr>"
  have m': "m' = put_next g2 m1" "records (put_next g2 m1) g2 = Some (qsort by_rule (rs @ [(a, r)]))"
    using q srt [OF maps1] by (simp_all add: m1_def m0_def g1_def g2_def)
  have "store_ok m'" using st(1) a r fr by (auto simp: store_ok_def m'(1) n1 addr_id_def less_Suc_eq split: if_splits)
  moreover have "array_ok g2" using xs room nth by (simp add: array_ok_def g2_def g1_def qs.srt_length)
  moreover have "g_nosize g2 = length (filter (\<lambda>r. has (snd r) MATCH_TYPE_NO_MATCH) (rs @ [(a, r)]))"
    using inv by (simp add: g2_def g1_def next_inv_def)
  ultimately have "next_inv m' (qsort by_rule (rs @ [(a, r)]))"
    using m' qsort_before [of "rs @ [(a, r)]"] inv a(2) by (auto simp: next_inv_def qs.srt_filter qs.srt_set n1)
  moreover have "kept m m'" using st(4) fr by (auto simp: kept_def m'(1) n1 m1_def m0_def IND_THIS_def gen_put_next map_le_def elim!: index_cases)
  ultimately show ?thesis by blast
qed

text \<open>The text of a rule without its marks, and the rule it stands for.\<close>

definition rule_uri :: "string \<Rightarrow> string" where
  "rule_uri u0 =
     (let u1 = (if u0 \<noteq> [] \<and> hd u0 = CHR ''-'' then tl u0 else u0) in if u1 \<noteq> [] \<and> hd u1 = CHR ''!'' then tl u1 else u1)"

definition rule_for :: "nat \<Rightarrow> string \<Rightarrow> string \<Rightarrow> uri_worker_record \<Rightarrow> bool" where
  "rule_for source_type u w r \<longleftrightarrow> ur_source_type r = source_type \<and> ur_context r = rule_uri u \<and> rule_ok r \<and>
     parse_rule_extensions (Some w) = Some (ur_worker_name r, ur_extensions r) \<and>
     (has r MATCH_TYPE_DISABLED \<longleftrightarrow> starts_with u ''-'') \<and>
     (has r MATCH_TYPE_NO_MATCH \<longleftrightarrow> starts_with u ''!'' \<or> starts_with u ''-!'')"

lemmas match_types = MATCH_TYPE_EXACT_def MATCH_TYPE_WILDCHAR_PATH_def MATCH_TYPE_NO_MATCH_def MATCH_TYPE_DISABLED_def

lemma pool_strdup_text: "with_pool dyn (\<lambda>p. jk_pool_strdup p (Some s)) st = Some (Some u, st') \<Longrightarrow> u = s"
  by (cases st) (auto simp: with_pool_def jk_pool_strdup_def ub_simps split: if_splits)

lemma add_ok:
  assumes inv: "next_inv m rs" and add: "uri_worker_map_add (m, h) u w s = Some (rc, m', h')"
  shows "kept m m' \<and> (if rc then \<exists>u0 w0 a r. u = Some u0 \<and> w = Some w0 \<and> rule_for s u0 w0 r \<and> next_inv m' (qsort by_rule (rs @ [(a, r)])) else next_inv m' rs)"
proof -
  obtain u0 where u0: "u = Some u0" using add by (cases u) (auto simp: uri_worker_map_add_def)
  define u2 where "u2 = rule_uri u0"
  define t0 :: u32 where "t0 = (if u0 \<noteq> [] \<and> hd u0 = CHR ''-'' then MATCH_TYPE_DISABLED else 0) OR
    (if (let u1 = (if u0 \<noteq> [] \<and> hd u0 = CHR ''-'' then tl u0 else u0) in u1 \<noteq> [] \<and> hd u1 = CHR ''!'') then MATCH_TYPE_NO_MATCH else 0)"
  obtain ok m1 h1 where re: "uri_worker_map_realloc (m, h) = Some (ok, m1, h1)"
    using add by (auto simp: uri_worker_map_add_def u0 Let_def ub_simps)
  note re_ok = uw_realloc_ok [OF inv re]
  then have m1: "next_inv m1 rs" "kept m m1" "um_index m1 < 2" by (auto simp: next_inv_def store_ok_def)
  have idle: "next_inv x rs" "kept m x" if "same_rules m1 x" for x
    using next_inv_same [OF that m1(1)] kept_trans [OF m1(2) same_rules_kept [OF m1(3) that]] by auto
  show ?thesis
  proof (cases ok)
    case False
    then show ?thesis using add re m1 by (auto simp: uri_worker_map_add_def u0 Let_def)
  next
    case True
    let ?dyn = "s = SOURCE_TYPE_URIMAP"
    obtain p m2 h2 where al: "with_pool ?dyn (\<lambda>p. jk_pool_alloc p sizeof_uri_worker_record) (m1, h1) = Some (p, m2, h2)"
      using add re True by (auto simp: uri_worker_map_add_def u0 Let_def ub_simps)
    note s2 = with_pool_same [OF al]
    show ?thesis
    proof (cases p)
      case None
      then show ?thesis using add re True al idle [OF s2] by (auto simp: uri_worker_map_add_def u0 Let_def)
    next
      case (Some q)
      obtain uri m3 h3 where sd: "with_pool ?dyn (\<lambda>p. jk_pool_strdup p (Some u2)) (m2, h2) = Some (uri, m3, h3)"
        using add re True al Some by (auto simp: uri_worker_map_add_def u0 Let_def ub_simps u2_def rule_uri_def)
      note s3 = same_rules_trans [OF s2 with_pool_same [OF sd]]
      show ?thesis
      proof (cases "\<exists>u w0. uri = Some u \<and> w = Some w0 \<and> u \<noteq> [] \<and> hd u = CHR ''/''")
        case False
        then show ?thesis using add re True al sd Some idle [OF s3]
          by (auto simp: uri_worker_map_add_def u0 Let_def u2_def rule_uri_def split: option.splits if_splits)
      next
        case uw: True
        then obtain w0 where w: "uri = Some u2" "w = Some w0" "u2 \<noteq> []" "hd u2 = CHR ''/''" using pool_strdup_text sd by metis
        obtain w' m4 h4 where sw: "with_pool ?dyn (\<lambda>p. jk_pool_strdup p w) (m3, h3) = Some (w', m4, h4)"
          using add re True al sd Some w by (auto simp: uri_worker_map_add_def u0 Let_def ub_simps u2_def rule_uri_def)
        note s4 = same_rules_trans [OF s3 with_pool_same [OF sw]]
        obtain name e where pe: "parse_rule_extensions w' = Some (name, e)"
          using add re True al sd Some w sw by (auto simp: uri_worker_map_add_def u0 Let_def ub_simps u2_def rule_uri_def)
        have w': "w' = Some w0" using pe sw w(2) pool_strdup_text [of ?dyn w0 "(m3, h3)"] by (cases w') (auto simp: parse_rule_extensions_def)
        define t where "t = t0 OR (if CHR ''*'' \<in> set u2 \<or> CHR ''?'' \<in> set u2 then MATCH_TYPE_WILDCHAR_PATH else MATCH_TYPE_EXACT)"
        define r where "r = \<lparr>ur_uri = u2, ur_worker_name = name, ur_context = u2, ur_match_type = t,
          ur_source_type = s, ur_context_len = length u2, ur_extensions = e\<rparr>"
        define a where "a = (if ?dyn then In_Dyn (IND_SWITCH (um_index m4)) (um_fresh m4) else In_Pool (um_fresh m4))"
        obtain ys where ys: "set_entry (g_maps (IND_NEXT m4)) (g_size (IND_NEXT m4)) a = Some ys" "rc"
            "worker_qsort (put_next ((IND_NEXT m4)\<lparr>g_maps := ys, g_size := g_size (IND_NEXT m4) + 1,
                g_nosize := (if has r MATCH_TYPE_NO_MATCH then g_nosize (IND_NEXT m4) + 1 else g_nosize (IND_NEXT m4))\<rparr>)
              (m4\<lparr>um_recs := (um_recs m4)(a \<mapsto> r), um_fresh := um_fresh m4 + 1\<rparr>)) = Some m'"
          using add re True al sd Some w sw pe
          by (auto simp: uri_worker_map_add_def u0 Let_def ub_simps u2_def rule_uri_def a_def r_def t_def t0_def has_def split del: if_split)
        have rf: "rule_for s u0 w0 r"
          using pe unfolding w'
          by (cases u0 rule: remdups_adj.cases)
            (auto simp: rule_for_def r_def t_def t0_def rule_ok_def has_def wild_def match_types u2_def Let_def)
        have room: "g_size (IND_NEXT m4) < g_capacity (IND_NEXT m4)"
          using same_rules_next [OF s4] re_ok True by (simp add: same_gen_def)
        have "next_inv m' (qsort by_rule (rs @ [(a, r)])) \<and> kept m4 m'"
          by (rule uw_push_ok [OF idle(1) [OF s4] room _ _ _ _ ys(1,3)])
            (use rf in \<open>auto simp: a_def addr_id_def addr_ok_def in_dyn_def rule_for_def\<close>)
        then show ?thesis using ys(2) rf u0 w(2) kept_trans [OF idle(2) [OF s4]] by auto
      qed
    qed
  qed
qed

text \<open>The texts of the rules a line stands for, and the rules added for a set of lines.\<close>

definition rule_texts :: "string \<Rightarrow> string set" where
  "rule_texts u = (if CHR ''|'' \<in> set u then {fst (split_bar u), snd (split_bar u)} else {u})"

definition rules_of :: "nat \<Rightarrow> (string option \<times> string option) set \<Rightarrow> uri_worker_record set" where
  "rules_of s L = {r. \<exists>u w v. (Some u, Some w) \<in> L \<and> v \<in> rule_texts u \<and> rule_for s v w r}"

definition grown :: "nat \<Rightarrow> (string option \<times> string option) set \<Rightarrow> (uw_ptr \<times> uri_worker_record) list \<Rightarrow> (uw_ptr \<times> uri_worker_record) list \<Rightarrow> bool" where
  "grown s L rs rs' \<longleftrightarrow> set rs \<subseteq> set rs' \<and> (\<forall>x \<in> set rs' - set rs. snd x \<in> rules_of s L)"

lemma grown_refl [simp]: "grown s L rs rs"
  by (simp add: grown_def)

lemma grown_trans: "grown s L a b \<Longrightarrow> grown s L b c \<Longrightarrow> grown s L a c"
  by (auto simp: grown_def)

lemma grown_mono: "grown s L a b \<Longrightarrow> L \<subseteq> L' \<Longrightarrow> grown s L' a b"
  by (fastforce simp: grown_def rules_of_def)

text \<open>Every line has its rules.\<close>

definition covered :: "nat \<Rightarrow> (string option \<times> string option) set \<Rightarrow> (uw_ptr \<times> uri_worker_record) list \<Rightarrow> bool" where
  "covered s L rs \<longleftrightarrow> (\<forall>u w v. (Some u, Some w) \<in> L \<and> v \<in> rule_texts u \<longrightarrow> (\<exists>x \<in> set rs. rule_for s v w (snd x)))"

lemma add_text:
  assumes "next_inv m rs" and "uri_worker_map_add (m, h) (Some v) w s = Some (rc, m', h')" and "v \<in> rule_texts u"
  shows "\<exists>rs'. next_inv m' rs' \<and> kept m m' \<and> grown s {(Some u, w)} rs rs' \<and>
    (rc \<longrightarrow> (\<exists>w0. w = Some w0 \<and> (\<exists>x \<in> set rs'. rule_for s v w0 (snd x))))"
proof (cases rc)
  case False
  then show ?thesis using add_ok [OF assms(1,2)] by auto
next
  case True
  then obtain w0 a r where r: "w = Some w0" "rule_for s v w0 r" "next_inv m' (qsort by_rule (rs @ [(a, r)]))" "kept m m'"
    using add_ok [OF assms(1,2)] by auto
  then have "grown s {(Some u, w)} rs (qsort by_rule (rs @ [(a, r)]))"
    using assms(3) by (auto simp: grown_def qs.srt_set rules_of_def)
  then show ?thesis using r by (intro exI [of _ "qsort by_rule (rs @ [(a, r)])"]) (auto simp: qs.srt_set)
qed

lemma covered_one: "(\<And>v w0. v \<in> rule_texts u \<Longrightarrow> w = Some w0 \<Longrightarrow> \<exists>x \<in> set rs. rule_for s v w0 (snd x)) \<Longrightarrow> covered s {(Some u, w)} rs"
  by (auto simp: covered_def)

lemma add_rule_ok:
  assumes "next_inv m rs" and "add_rule s (m, h) u w = Some (rc, m', h')"
  shows "\<exists>rs'. next_inv m' rs' \<and> kept m m' \<and> grown s {(u, w)} rs rs' \<and> (rc \<longrightarrow> covered s {(u, w)} rs')"
proof -
  obtain u0 where u: "u = Some u0" using assms(2) by (cases u) (auto simp: add_rule_def)
  show ?thesis
  proof (cases "CHR ''|'' \<in> set u0")
    case False
    then have t: "rule_texts u0 = {u0}" by (simp add: rule_texts_def)
    then show ?thesis using add_text [OF assms(1), of h u0 w s rc m' h' u0] assms(2) False u by (fastforce simp: add_rule_def covered_def)
  next
    case True
    then have t: "rule_texts u0 = {fst (split_bar u0), snd (split_bar u0)}" by (simp add: rule_texts_def)
    obtain h0 ok1 m1 h1 ok2 h2 where a: "uri_worker_map_add (m, h0) (Some (fst (split_bar u0))) w s = Some (ok1, m1, h1)"
        "uri_worker_map_add (m1, h1) (Some (snd (split_bar u0))) w s = Some (ok2, m', h2)" "rc \<longrightarrow> ok1 \<and> ok2"
      using assms(2) True u by (clarsimp simp: add_rule_def ub_simps split: prod.splits option.splits)
    obtain r1 where r1: "next_inv m1 r1" "kept m m1" "grown s {(u, w)} rs r1"
        "ok1 \<longrightarrow> (\<exists>w0. w = Some w0 \<and> (\<exists>x \<in> set r1. rule_for s (fst (split_bar u0)) w0 (snd x)))"
      using add_text [OF assms(1) a(1), of u0] t u by auto
    obtain r2 where r2: "next_inv m' r2" "kept m1 m'" "grown s {(u, w)} r1 r2"
        "ok2 \<longrightarrow> (\<exists>w0. w = Some w0 \<and> (\<exists>x \<in> set r2. rule_for s (snd (split_bar u0)) w0 (snd x)))"
      using add_text [OF r1(1) a(2), of u0] t u by auto
    have "set r1 \<subseteq> set r2" using r2(3) by (simp add: grown_def)
    then have "rc \<longrightarrow> covered s {(u, w)} r2" unfolding u using a(3) r1(4) r2(4) by (intro impI covered_one) (unfold t, blast)
    then show ?thesis using r2(1) kept_trans [OF r1(2) r2(2)] grown_trans [OF r1(3) r2(3)] by blast
  qed
qed

lemma covered_grown: "covered s L a \<Longrightarrow> set a \<subseteq> set b \<Longrightarrow> covered s L b"
  by (fastforce simp: covered_def)

lemma covered_insert: "covered s {x} a \<Longrightarrow> covered s L a \<Longrightarrow> covered s (insert x L) a"
  unfolding covered_def by blast

definition lines :: "string jk_map \<Rightarrow> nat list \<Rightarrow> (string option \<times> string option) set" where
  "lines d is = {(u, w). \<exists>i \<in> set is. jk_map_name_at d (int i) = Some u \<and> jk_map_value_at d (int i) = Some w}"

lemma lines_Cons: "jk_map_name_at d (int i) = Some u \<Longrightarrow> jk_map_value_at d (int i) = Some w \<Longrightarrow> lines d (i # is) = insert (u, w) (lines d is)"
  by (auto simp: lines_def)

lemma open_loop_ok:
  "next_inv m rs \<Longrightarrow> open_loop d is (m, h) = Some (rc, m', h') \<Longrightarrow>
   \<exists>rs'. next_inv m' rs' \<and> kept m m' \<and> (rc \<longrightarrow> grown SOURCE_TYPE_JKMOUNT (lines d is) rs rs' \<and> covered SOURCE_TYPE_JKMOUNT (lines d is) rs')"
proof (induction "is" arbitrary: m h rs)
  case Nil
  then show ?case by (auto simp: lines_def covered_def)
next
  case (Cons i "is")
  obtain u w ok m1 h1 where s: "jk_map_name_at d (int i) = Some u" "jk_map_value_at d (int i) = Some w"
      "add_rule SOURCE_TYPE_JKMOUNT (m, h) u w = Some (ok, m1, h1)"
    using Cons.prems(2) by (auto simp: ub_simps)
  obtain r1 where r1: "next_inv m1 r1" "kept m m1" "grown SOURCE_TYPE_JKMOUNT {(u, w)} rs r1" "ok \<longrightarrow> covered SOURCE_TYPE_JKMOUNT {(u, w)} r1"
    using add_rule_ok [OF Cons.prems(1) s(3)] by blast
  show ?case
  proof (cases ok)
    case False
    then show ?thesis using Cons.prems(2) s r1 by auto
  next
    case True
    then obtain r2 where r2: "next_inv m' r2" "kept m1 m'"
        "rc \<longrightarrow> grown SOURCE_TYPE_JKMOUNT (lines d is) r1 r2 \<and> covered SOURCE_TYPE_JKMOUNT (lines d is) r2"
      using Cons.IH [OF r1(1)] Cons.prems(2) s by auto
    have "grown SOURCE_TYPE_JKMOUNT (lines d (i # is)) rs r2 \<and> covered SOURCE_TYPE_JKMOUNT (lines d (i # is)) r2" if rc
    proof -
      have g: "grown SOURCE_TYPE_JKMOUNT (lines d is) r1 r2" "covered SOURCE_TYPE_JKMOUNT (lines d is) r2" using r2(3) that by auto
      have "set r1 \<subseteq> set r2" using g(1) by (simp add: grown_def)
      then have "covered SOURCE_TYPE_JKMOUNT {(u, w)} r2" using r1(4) True covered_grown by blast
      moreover have "grown SOURCE_TYPE_JKMOUNT (insert (u, w) (lines d is)) rs r2"
        by (rule grown_trans [OF grown_mono [OF r1(3)] grown_mono [OF g(1)]]) auto
      ultimately show ?thesis using g(2) unfolding lines_Cons [OF s(1,2)] by (blast intro: covered_insert)
    qed
    then show ?thesis using r2(1) kept_trans [OF r1(2) r2(2)] by blast
  qed
qed

lemma load_loop_ok:
  "next_inv m rs \<Longrightarrow> load_loop d is (m, h) = Some (m', h') \<Longrightarrow>
   \<exists>rs'. next_inv m' rs' \<and> kept m m' \<and> grown SOURCE_TYPE_URIMAP (lines d is) rs rs'"
proof (induction "is" arbitrary: m h rs)
  case (Cons i "is")
  obtain u w ok m1 h1 where s: "jk_map_name_at d (int i) = Some u" "jk_map_value_at d (int i) = Some w"
      "add_rule SOURCE_TYPE_URIMAP (m, h) u w = Some (ok, m1, h1)" "load_loop d is (m1, h1) = Some (m', h')"
    using Cons.prems(2) by (auto simp: ub_simps)
  obtain r1 where r1: "next_inv m1 r1" "kept m m1" "grown SOURCE_TYPE_URIMAP {(u, w)} rs r1"
    using add_rule_ok [OF Cons.prems(1) s(3)] by blast
  obtain r2 where r2: "next_inv m' r2" "kept m1 m'" "grown SOURCE_TYPE_URIMAP (lines d is) r1 r2"
    using Cons.IH [OF r1(1) s(4)] by blast
  have "grown SOURCE_TYPE_URIMAP (insert (u, w) (lines d is)) rs r2"
    by (rule grown_trans [OF grown_mono [OF r1(3)] grown_mono [OF r2(3)]]) auto
  then show ?case using r2(1) kept_trans [OF r1(2) r2(2)] unfolding lines_Cons [OF s(1,2)] by blast
qed (auto simp: lines_def)

section \<open>Reloading keeps the invariant\<close>

text \<open>The copy of the rules that stay.\<close>

definition from_file :: "uw_ptr \<times> uri_worker_record \<Rightarrow> bool" where
  "from_file x \<longleftrightarrow> ur_source_type (snd x) = SOURCE_TYPE_URIMAP"

lemma clear_loop_ok:
  assumes "\<forall>i \<in> set is. record_at m (IND_THIS m) i = Some (rs ! i)" and "clear_loop m is ys k c = Some (ys', k', c')"
  shows "let fs = filter (\<lambda>x. \<not> from_file x) (map ((!) rs) is) in
    k' = k + length fs \<and> c' = c + length (filter (\<lambda>x. has (snd x) MATCH_TYPE_NO_MATCH) fs) \<and>
    (fs = [] \<and> ys' = ys \<or>
     (\<exists>xs xs'. ys = Entries xs \<and> ys' = Entries xs' \<and> length xs' = length xs \<and> k' \<le> length xs \<and> (\<forall>j < k. xs' ! j = xs ! j) \<and>
        (\<forall>j < length fs. xs' ! (k + j) = Some (fst (fs ! j)))))"
  using assms
proof (induction "is" arbitrary: ys k c)
  case (Cons i "is")
  let ?fs = "filter (\<lambda>x. \<not> from_file x) (map ((!) rs) is)"
  have r: "record_at m (IND_THIS m) i = Some (fst (rs ! i), snd (rs ! i))" using Cons.prems(1) by simp
  show ?case
  proof (cases "from_file (rs ! i)")
    case True
    then have "clear_loop m is ys k c = Some (ys', k', c')" using Cons.prems(2) r by (simp add: from_file_def case_prod_beta)
    then show ?thesis using Cons.IH [of ys k c] Cons.prems(1) True by simp
  next
    case False
    let ?c = "if has (snd (rs ! i)) MATCH_TYPE_NO_MATCH then c + 1 else c"
    obtain xs where e: "ys = Entries xs" "k < length xs" "clear_loop m is (Entries (xs[k := Some (fst (rs ! i))])) (k + 1) ?c = Some (ys', k', c')"
      using Cons.prems(2) r False by (cases ys) (auto simp: from_file_def set_entry_def wr_def ub_simps case_prod_beta split: if_splits)
    have ih: "k' = k + 1 + length ?fs" "c' = ?c + length (filter (\<lambda>x. has (snd x) MATCH_TYPE_NO_MATCH) ?fs)"
      "?fs = [] \<and> ys' = Entries (xs[k := Some (fst (rs ! i))]) \<or>
       (\<exists>xs'. ys' = Entries xs' \<and> length xs' = length xs \<and> k' \<le> length xs \<and> (\<forall>j < k + 1. xs' ! j = xs[k := Some (fst (rs ! i))] ! j) \<and>
        (\<forall>j < length ?fs. xs' ! (k + 1 + j) = Some (fst (?fs ! j))))"
      using Cons.IH [OF _ e(3)] Cons.prems(1) by (auto simp: Let_def)
    have "\<exists>xs'. ys' = Entries xs' \<and> length xs' = length xs \<and> k' \<le> length xs \<and> (\<forall>j < k. xs' ! j = xs ! j) \<and>
        (\<forall>j < length (rs ! i # ?fs). xs' ! (k + j) = Some (fst ((rs ! i # ?fs) ! j)))"
      using ih(3)
    proof
      assume "?fs = [] \<and> ys' = Entries (xs[k := Some (fst (rs ! i))])"
      then show ?thesis using e(2) ih(1) by auto
    next
      assume "\<exists>xs'. ys' = Entries xs' \<and> length xs' = length xs \<and> k' \<le> length xs \<and> (\<forall>j < k + 1. xs' ! j = xs[k := Some (fst (rs ! i))] ! j) \<and>
        (\<forall>j < length ?fs. xs' ! (k + 1 + j) = Some (fst (?fs ! j)))"
      then obtain xs' where x: "ys' = Entries xs'" "length xs' = length xs" "k' \<le> length xs" "\<forall>j < k + 1. xs' ! j = xs[k := Some (fst (rs ! i))] ! j"
        "\<forall>j < length ?fs. xs' ! (k + 1 + j) = Some (fst (?fs ! j))" by blast
      have "xs' ! (k + j) = Some (fst ((rs ! i # ?fs) ! j))" if "j < length (rs ! i # ?fs)" for j
        using that x(4,5) e(2) by (cases j) auto
      moreover have "\<forall>j < k. xs' ! j = xs ! j" using x(4) by simp
      ultimately show ?thesis using x(1-3) by blast
    qed
    then show ?thesis using False e(1) ih(1,2) by (auto simp: Let_def)
  qed
qed simp

lemma clear_ok:
  assumes st: "store_ok m" and rs: "records m (IND_THIS m) = Some rs" and srt: "sorted_wrt before rs"
    and cl: "uri_worker_map_clear (m, h) = Some (m', h')"
  shows "next_inv m' (filter (\<lambda>x. \<not> from_file x) rs) \<and> kept m m'"
proof -
  let ?n = "g_size (IND_THIS m)" and ?fs = "filter (\<lambda>x. \<not> from_file x) rs"
  have ix: "um_index m < 2" using st by (simp add: store_ok_def)
  obtain a m1 h1 ys k c where s: "with_pool True (\<lambda>p. jk_pool_alloc p (of_nat (8 * ?n))) (m, h) = Some (a, m1, h1)"
      "clear_loop m1 [0..<?n] (if a = None then Null else Entries (replicate ?n None)) 0 0 = Some (ys, k, c)"
      "m' = put_next ((IND_NEXT m1)\<lparr>g_maps := ys, g_capacity := ?n, g_size := k, g_nosize := c\<rparr>) m1"
    using cl by (auto simp: uri_worker_map_clear_def Let_def ub_simps)
  note sm = with_pool_same [OF s(1)]
  have th: "same_gen (IND_THIS m) (IND_THIS m1)" using sm ix by (simp add: same_rules_def IND_THIS_def)
  have r1: "records m1 (IND_THIS m1) = Some rs" using records_same [OF th] sm rs by (simp add: same_rules_def)
  have n: "length rs = ?n" "\<forall>i \<in> set [0..<?n]. record_at m1 (IND_THIS m1) i = Some (rs ! i)"
    using records_nth [OF r1] th by (auto simp: same_gen_def)
  have "map ((!) rs) [0..<?n] = rs" using n(1) by (auto intro!: nth_equalityI)
  then have cl2: "k = length ?fs" "c = length (filter (\<lambda>x. has (snd x) MATCH_TYPE_NO_MATCH) ?fs)"
    "?fs = [] \<and> ys = (if a = None then Null else Entries (replicate ?n None)) \<or>
     (\<exists>xs'. ys = Entries xs' \<and> length xs' = ?n \<and> (\<forall>j < length ?fs. xs' ! j = Some (fst (?fs ! j))))"
    using clear_loop_ok [OF n(2) s(2)] by (auto simp: Let_def split: if_splits)
  have le: "length ?fs \<le> ?n" using n(1) length_filter_le by metis
  have "records m' (IND_NEXT m') = Some ?fs"
  proof (rule records_intro)
    show "length ?fs = g_size (IND_NEXT m')" using s(3) cl2(1) by simp
    show "entry_at (g_maps (IND_NEXT m')) i = Some (fst (?fs ! i))" if "i < length ?fs" for i
      using that cl2(3) s(3) le by (auto simp del: filter_empty_conv)
    show "um_recs m' (fst x) = Some (snd x)" if "x \<in> set ?fs" for x
      using that records_store [OF r1, of x] s(3) by simp
  qed
  moreover have "array_ok (IND_NEXT m')" using s(3) cl2 le by (auto simp: array_ok_def)
  moreover have "addr_ok i (fst x)" if x: "x \<in> set ?fs" for x i
  proof -
    have "um_recs m (fst x) = Some (snd x)" using x records_store [OF rs] by simp
    then have "\<not> in_dyn (fst x)" using st x by (auto simp: store_ok_def from_file_def)
    then show ?thesis by (auto simp: in_dyn_def addr_ok_def split: uw_ptr.splits)
  qed
  moreover have "store_ok m'" using store_ok_same [OF sm st] s(3) by (simp add: store_ok_def)
  ultimately have "next_inv m' ?fs" using s(3) cl2(2) sorted_wrt_filter [OF srt] by (simp add: next_inv_def)
  moreover have "kept m m'" using same_rules_kept [OF ix sm] s(3) ix sm by (simp add: kept_def same_rules_def)
  ultimately show ?thesis by blast
qed

text \<open>The post-processing changes extensions only.\<close>

definition same_text :: "uri_worker_record \<Rightarrow> uri_worker_record \<Rightarrow> bool" where
  "same_text r r' \<longleftrightarrow> (\<exists>e. r' = r\<lparr>ur_extensions := e\<rparr>)"

definition relaxed :: "jk_uri_worker_map \<Rightarrow> jk_uri_worker_map \<Rightarrow> bool" where
  "relaxed m m' \<longleftrightarrow> um_index m' = um_index m \<and> um_fname m' = um_fname m \<and> um_fresh m' = um_fresh m \<and>
     (\<forall>i < 2. same_gen (gen m i) (gen m' i)) \<and> (\<forall>a. rel_option same_text (um_recs m a) (um_recs m' a))"

lemma same_text_refl [simp]: "same_text r r"
  unfolding same_text_def by (rule exI [of _ "ur_extensions r"]) simp

lemma same_text_trans: "same_text a b \<Longrightarrow> same_text b c \<Longrightarrow> same_text a c"
  by (auto simp: same_text_def)

lemma same_text_fields: "same_text r r' \<Longrightarrow> ur_context r' = ur_context r \<and> ur_context_len r' = ur_context_len r \<and>
   ur_source_type r' = ur_source_type r \<and> ur_worker_name r' = ur_worker_name r \<and> has r' f = has r f \<and> rule_ok r' = rule_ok r"
  by (auto simp: same_text_def has_def rule_ok_def)

lemma same_text_compare: "same_text a c \<Longrightarrow> same_text b d \<Longrightarrow> worker_compare c d = worker_compare a b"
  by (auto simp: same_text_def worker_compare_def Let_def)

lemma relaxed_refl [simp]: "relaxed m m"
  by (auto simp: relaxed_def option.rel_refl)

lemma same_text_option_trans: "rel_option same_text x y \<Longrightarrow> rel_option same_text y z \<Longrightarrow> rel_option same_text x z"
  by (cases x; cases y; cases z) (auto dest: same_text_trans)

lemma relaxed_trans: "relaxed a b \<Longrightarrow> relaxed b c \<Longrightarrow> relaxed a c"
  unfolding relaxed_def same_gen_def by (auto intro: same_text_option_trans)

lemma same_rules_relaxed: "same_rules m m' \<Longrightarrow> relaxed m m'"
  by (auto simp: relaxed_def same_rules_def option.rel_refl)

lemma ext_loop_relaxed: "ext_loop W is (m, h) = Some (m', h') \<Longrightarrow> relaxed m m'"
proof (induction "is" arbitrary: m h)
  case (Cons i "is")
  obtain a uwr where r: "record_at m (IND_NEXT m) i = Some (a, uwr)" using Cons.prems by (auto simp: ub_simps)
  show ?case
  proof (cases "has uwr MATCH_TYPE_NO_MATCH")
    case True
    then show ?thesis using Cons.prems Cons.IH [of m h] r by simp
  next
    case False
    obtain e m1 h1 where s: "with_pool (ur_source_type uwr = SOURCE_TYPE_URIMAP) (\<lambda>p. extension_fix W p (ur_worker_name uwr) (ur_extensions uwr)) (m, h) = Some (e, m1, h1)"
        "ext_loop W is (m1\<lparr>um_recs := (um_recs m1)(a \<mapsto> uwr\<lparr>ur_extensions := e\<rparr>)\<rparr>, h1) = Some (m', h')"
      using Cons.prems r False by (auto simp: ub_simps)
    note sm = with_pool_same [OF s(1)]
    have "um_recs m1 a = Some uwr" using record_at_Some [OF r] sm by (simp add: same_rules_def)
    then have "relaxed m1 (m1\<lparr>um_recs := (um_recs m1)(a \<mapsto> uwr\<lparr>ur_extensions := e\<rparr>)\<rparr>)"
      by (auto simp: relaxed_def option.rel_refl same_text_def)
    then show ?thesis using same_rules_relaxed [OF sm] Cons.IH [OF s(2)] relaxed_trans by blast
  qed
qed simp

lemma relaxed_store: "relaxed m m' \<Longrightarrow> store_ok m \<Longrightarrow> store_ok m'"
  unfolding relaxed_def store_ok_def by (metis option.rel_sel option.collapse option.sel option.distinct(1) same_text_fields)

lemma relaxed_records:
  assumes "relaxed m m'" and "records m g = Some rs" and "same_gen g g'"
  shows "\<exists>rs'. records m' g' = Some rs' \<and> list_all2 (\<lambda>x y. fst y = fst x \<and> same_text (snd x) (snd y)) rs rs'"
proof -
  define f where "f x = the (um_recs m' (fst x))" for x :: "uw_ptr \<times> uri_worker_record"
  have f: "um_recs m' (fst x) = Some (f x) \<and> same_text (snd x) (f x)" if "x \<in> set rs" for x
  proof -
    have "um_recs m (fst x) = Some (snd x)" using records_store [OF assms(2) that] .
    moreover have "rel_option same_text (um_recs m (fst x)) (um_recs m' (fst x))" using assms(1) by (simp add: relaxed_def)
    ultimately show ?thesis by (cases "um_recs m' (fst x)") (auto simp: f_def)
  qed
  have "records m' g' = records m' g" by (rule records_same [OF assms(3) refl])
  also have "\<dots> = Some (map (\<lambda>x. (fst x, f x)) rs)" using records_map [OF assms(2), of m' f] f by blast
  finally show ?thesis using f by (auto simp: list_all2_conv_all_nth intro!: exI [of _ "map (\<lambda>x. (fst x, f x)) rs"])
qed

lemma list_all2_sorted: "list_all2 R xs ys \<Longrightarrow> sorted_wrt P xs \<Longrightarrow> (\<And>a b c d. R a c \<Longrightarrow> R b d \<Longrightarrow> P a b \<Longrightarrow> Q c d) \<Longrightarrow> sorted_wrt Q ys"
  unfolding sorted_wrt_iff_nth_less list_all2_conv_all_nth by (metis less_trans)

lemma list_all2_count: "list_all2 R xs ys \<Longrightarrow> (\<And>a b. R a b \<Longrightarrow> P a = Q b) \<Longrightarrow> length (filter P xs) = length (filter Q ys)"
  by (induction rule: list_all2_induct) auto

lemma relaxed_next:
  assumes "relaxed m m'" and "next_inv m rs"
  shows "\<exists>rs'. next_inv m' rs' \<and> list_all2 (\<lambda>x y. fst y = fst x \<and> same_text (snd x) (snd y)) rs rs'"
proof -
  have g: "same_gen (IND_NEXT m) (IND_NEXT m')" "um_index m' = um_index m" using assms(1) by (auto simp: relaxed_def IND_NEXT_def)
  obtain rs' where r: "records m' (IND_NEXT m') = Some rs'" "list_all2 (\<lambda>x y. fst y = fst x \<and> same_text (snd x) (snd y)) rs rs'"
    using relaxed_records [OF assms(1) _ g(1)] assms(2) by (auto simp: next_inv_def)
  have "sorted_wrt before rs" using assms(2) by (simp add: next_inv_def)
  then have "sorted_wrt before rs'"
    by (rule list_all2_sorted [OF r(2)]) (auto simp: before_def dest: same_text_compare)
  moreover have "length (filter (\<lambda>r. has (snd r) MATCH_TYPE_NO_MATCH) rs) = length (filter (\<lambda>r. has (snd r) MATCH_TYPE_NO_MATCH) rs')"
    by (intro list_all2_count [OF r(2)]) (auto dest!: same_text_fields)
  moreover have "\<forall>y \<in> set rs'. addr_ok (IND_SWITCH (um_index m)) (fst y)"
    using r(2) assms(2) by (fastforce simp: next_inv_def list_all2_conv_all_nth in_set_conv_nth)
  moreover have "array_ok (IND_NEXT m')" using assms(2) g(1) by (auto simp: next_inv_def array_ok_def same_gen_def split: uw_array.splits)
  moreover have "g_nosize (IND_NEXT m') = g_nosize (IND_NEXT m)" using g(1) by (simp add: same_gen_def)
  ultimately have "next_inv m' rs'" using assms(2) r(1) g(2) relaxed_store [OF assms(1)] by (simp add: next_inv_def)
  then show ?thesis using r(2) by blast
qed

text \<open>The map serves requests: the rules of the generation in use are there and in order.\<close>

definition serving :: "jk_uri_worker_map \<Rightarrow> (uw_ptr \<times> uri_worker_record) list \<Rightarrow> bool" where
  "serving m rs \<longleftrightarrow> store_ok m \<and> gen_inv m (um_index m) \<and> records m (IND_THIS m) = Some rs"

lemma serving_ok: "serving m rs \<Longrightarrow> gen_ok m (IND_THIS m) \<and> sorted_wrt before rs"
  using gen_inv_ok [of m "um_index m"] by (auto simp: serving_def gen_inv_def IND_THIS_def)

lemma switch_ok:
  assumes inv: "next_inv m rs" and sw: "uri_worker_map_switch (m, h) = Some (m', h')"
  shows "serving m' rs \<and> um_index m' = IND_SWITCH (um_index m) \<and> um_fname m' = um_fname m"
proof -
  let ?n = "IND_SWITCH (um_index m)"
  define m1 where "m1 = m\<lparr>um_index := ?n\<rparr>"
  have ix: "um_index m < 2" using inv by (simp add: next_inv_def store_ok_def)
  then have old: "IND_SWITCH ?n = um_index m" by (auto elim!: index_cases)
  obtain p where m': "m' = put_next ((IND_NEXT m1)\<lparr>g_pool := p, g_maps := Released\<rparr>) (m1\<lparr>um_recs := release_gen (um_index m) (um_recs m)\<rparr>)"
    using sw old by (auto simp: uri_worker_map_switch_def Let_def ub_simps m1_def)
  have i: "um_index m' = ?n" "um_recs m' = release_gen (um_index m) (um_recs m)" "um_fname m' = um_fname m" "um_fresh m' = um_fresh m"
    by (simp_all add: m' m1_def)
  have g: "gen m' ?n = IND_NEXT m" using ix by (auto simp: m' m1_def gen_put_next old IND_NEXT_def elim!: index_cases)
  have sub: "release_gen k rec a = Some r \<Longrightarrow> rec a = Some r" for k rec a r by (auto simp: release_gen_def split: uw_ptr.splits if_splits)
  have st: "store_ok m'" using inv i by (auto simp: next_inv_def store_ok_def dest!: sub)
  have keep: "release_gen (um_index m) (um_recs m) a = um_recs m a" if "addr_ok ?n a" for a
    using that ix by (auto simp: release_gen_def addr_ok_def split: uw_ptr.splits elim!: index_cases)
  have r: "records m (IND_NEXT m) = Some rs" "\<forall>x \<in> set rs. addr_ok ?n (fst x)" using inv by (auto simp: next_inv_def)
  have "records m' (IND_NEXT m) = Some rs"
    by (rule records_keep [OF r(1)]) (use r keep records_store [OF r(1)] i(2) in simp)
  then show ?thesis using inv st i g by (auto simp: serving_def gen_inv_def next_inv_def IND_THIS_def)
qed

lemma serving_same: "same_rules m m' \<Longrightarrow> serving m rs \<Longrightarrow> serving m' rs"
proof -
  assume s: "same_rules m m'" and v: "serving m rs"
  then have i: "um_index m < 2" "um_index m' = um_index m" by (auto simp: serving_def store_ok_def same_rules_def)
  then have "records m' (IND_THIS m') = records m (IND_THIS m)" using s by (intro records_same) (auto simp: same_rules_def IND_THIS_def)
  then show ?thesis using v store_ok_same [OF s] gen_inv_same [OF s i(1)] i(2) by (simp add: serving_def)
qed

text \<open>The properties in the file.\<close>

definition file_map :: "uw_env \<Rightarrow> heap \<Rightarrow> string jk_map \<Rightarrow> bool" where
  "file_map ev h d \<longleftrightarrow> (\<exists>b d0 h1 t h2. jk_map_alloc sizeof_jk_map h = (True, Some (b, d0), h1) \<and>
     jk_map_read_properties d0 h1 None (ue_getenv ev) (ue_file ev) JK_MAP_HANDLE_NORMAL = Some (True, t, d, h2))"

definition file_lines :: "string jk_map \<Rightarrow> (string option \<times> string option) set" where
  "file_lines d = lines d [0..<nat (jk_map_size d)]"

lemma load_ok:
  assumes sv: "serving m rs" and ld: "uri_worker_map_load ev (m, h) = Some (True, m', h')"
  shows "\<exists>d rs'. file_map ev h d \<and> next_inv m' rs' \<and> kept m m' \<and> grown SOURCE_TYPE_URIMAP (file_lines d) (filter (\<lambda>x. \<not> from_file x) rs) rs'"
proof -
  obtain ok b and d0 :: "string jk_map" and h1 where l1: "jk_map_alloc sizeof_jk_map h = (ok, Some (b, d0), h1)"
    using ld by (auto simp: uri_worker_map_load_def split: option.splits prod.splits)
  obtain t d h2 where l2: "jk_map_read_properties d0 h1 None (ue_getenv ev) (ue_file ev) JK_MAP_HANDLE_NORMAL = Some (True, t, d, h2)"
    using ld l1 by (auto simp: uri_worker_map_load_def Let_def ub_simps split del: if_split)
  define m1 where "m1 = (case t of None \<Rightarrow> m | Some t \<Rightarrow> m\<lparr>um_modified := t\<rparr>)"
  obtain m2 h3 m3 h4 where l3: "uri_worker_map_clear (m1, h2) = Some (m2, h3)"
      "load_loop d [0..<nat (jk_map_size d)] (m2, h3) = Some (m3, h4)" "m' = m3\<lparr>um_checked := ue_now ev\<rparr>"
    using ld l1 l2 by (auto simp: uri_worker_map_load_def m1_def ub_simps)
  note l = l1 l2 m1_def l3
  have ok: "ok" using l(1) by (auto simp: jk_map_alloc_def split: option.splits prod.splits)
  have s1: "same_rules m m1" using l(3) by (auto simp: same_rules_def split: option.splits)
  note v1 = serving_same [OF s1 sv]
  have ix: "um_index m < 2" using sv by (simp add: serving_def store_ok_def)
  have c: "next_inv m2 (filter (\<lambda>x. \<not> from_file x) rs)" "kept m1 m2"
    using clear_ok [OF _ _ _ l(4)] v1 serving_ok [OF v1] by (auto simp: serving_def)
  have m3: "load_loop d [0..<nat (jk_map_size d)] (m2, h3) = Some (m3, h4)" "same_rules m3 m'"
    using l3 by (auto simp: same_rules_def)
  obtain rs' where r: "next_inv m3 rs'" "kept m2 m3" "grown SOURCE_TYPE_URIMAP (file_lines d) (filter (\<lambda>x. \<not> from_file x) rs) rs'"
    using load_loop_ok [OF c(1) m3(1)] by (auto simp: file_lines_def)
  have k: "kept m m3" using kept_trans [OF same_rules_kept [OF ix s1] kept_trans [OF c(2) r(2)]] .
  then have "um_index m3 < 2" using ix by (simp add: kept_def)
  then have "kept m m'" using kept_trans [OF k same_rules_kept [OF _ m3(2)]] by blast
  moreover have "next_inv m' rs'" by (rule next_inv_same [OF m3(2) r(1)])
  moreover have "file_map ev h d" using l(1,2) ok by (auto simp: file_map_def)
  ultimately show ?thesis using r(3) by blast
qed

text \<open>The rules of a generation are those of another, up to extensions.\<close>

definition same_list :: "(uw_ptr \<times> uri_worker_record) list \<Rightarrow> (uw_ptr \<times> uri_worker_record) list \<Rightarrow> bool" where
  "same_list = list_all2 (\<lambda>x y. fst y = fst x \<and> same_text (snd x) (snd y))"

lemma reload_ok:
  assumes sv: "serving m rs" and ld: "uri_worker_map_load ev (m, h) = Some (True, m1, h1)"
    and ex: "uri_worker_map_ext W (m1, h1) = Some (m2, h2)" and sw: "uri_worker_map_switch (m2, h2) = Some (m', h')"
  shows "\<exists>d rs1 rs'. file_map ev h d \<and> grown SOURCE_TYPE_URIMAP (file_lines d) (filter (\<lambda>x. \<not> from_file x) rs) rs1 \<and>
    same_list rs1 rs' \<and> serving m' rs' \<and> um_index m' = IND_SWITCH (um_index m) \<and> um_fname m' = um_fname m"
proof -
  obtain d rs1 where l: "file_map ev h d" "next_inv m1 rs1" "kept m m1"
      "grown SOURCE_TYPE_URIMAP (file_lines d) (filter (\<lambda>x. \<not> from_file x) rs) rs1" using load_ok [OF sv ld] by blast
  have rx: "relaxed m1 m2" using ext_loop_relaxed ex by (auto simp: uri_worker_map_ext_def)
  obtain rs' where r: "next_inv m2 rs'" "same_list rs1 rs'" using relaxed_next [OF rx l(2)] by (auto simp: same_list_def)
  have "serving m' rs' \<and> um_index m' = IND_SWITCH (um_index m2) \<and> um_fname m' = um_fname m2" by (rule switch_ok [OF r(1) sw])
  then show ?thesis using l r(2) rx by (auto simp: kept_def relaxed_def)
qed

section \<open>The life of a map\<close>

definition load_good :: "uw_env \<Rightarrow> uw_state \<Rightarrow> bool" where
  "load_good ev st \<longleftrightarrow> (\<forall>st'. uri_worker_map_load ev ((fst st)\<lparr>um_checked := ue_now ev\<rparr>, snd st) \<noteq> Some (False, st'))"

text \<open>A map is opened from the configuration and put into use; then requests look up workers and reload the
  file, which can be read. The rest of the process uses the heap and sets the options of the map.\<close>

inductive uw_reach :: "uw_state \<Rightarrow> bool" where
  opened: "uri_worker_map_alloc sz cs_ok h0 (Some d) n = Some (True, (b, m), n', h) \<Longrightarrow> uri_worker_map_ext W (m, h) = Some st1 \<Longrightarrow>
     uri_worker_map_switch st1 = Some st2 \<Longrightarrow> uw_reach st2"
| configured: "uw_reach (m, h) \<Longrightarrow> uw_reach (m\<lparr>um_fname := f, um_reload := t, um_reject_unsafe := u\<rparr>, h')"
| request: "uw_reach st \<Longrightarrow> load_good ev st \<Longrightarrow> map_uri_to_worker_ext ev st uri vhost = Some (r, st') \<Longrightarrow> uw_reach st'"

lemma update_serving:
  assumes "serving m rs" and "load_good ev (m, h)" and "uri_worker_map_update ev force (m, h) = Some (rc, m', h')"
  shows "\<exists>rs'. serving m' rs'"
proof -
  let ?m = "m\<lparr>um_checked := ue_now ev\<rparr>"
  have v: "serving ?m rs" by (rule serving_same [OF _ assms(1)]) (simp add: same_rules_def)
  consider "m' = m" | "m' = ?m" | ok m1 h1 m2 h2 where "uri_worker_map_load ev (?m, h) = Some (ok, m1, h1)"
      "uri_worker_map_ext (ue_workers ev) (m1, h1) = Some (m2, h2)" "uri_worker_map_switch (m2, h2) = Some (m', h')"
    using assms(3) by (auto simp: uri_worker_map_update_def Let_def ub_simps split: if_splits option.splits)
  then show ?thesis
  proof cases
    case 3
    then have "uri_worker_map_load ev (?m, h) = Some (True, m1, h1)" using assms(2) by (cases ok) (auto simp: load_good_def)
    from reload_ok [OF v this 3(2,3)] show ?thesis by blast
  qed (use assms(1) v in blast)+
qed

lemma new_map_inv: "next_inv new_uri_worker_map []"
  by (simp add: next_inv_def store_ok_def new_uri_worker_map_def array_ok_def records_def IND_NEXT_def gen_def Let_def)

lemma uw_alloc_inv:
  assumes "uri_worker_map_alloc sz cs_ok h0 (Some d) n = Some (True, (b, m), n', h)"
  shows "\<exists>rs. next_inv m rs \<and> grown SOURCE_TYPE_JKMOUNT (file_lines d) [] rs \<and> covered SOURCE_TYPE_JKMOUNT (file_lines d) rs"
proof -
  obtain h1 m1 where o: "uri_worker_map_open (new_uri_worker_map, h1) d = Some (True, m1, h)" "m = m1\<lparr>um_id := n + 1\<rparr>"
    using assms by (auto simp: uri_worker_map_alloc_def ub_simps split: prod.splits option.splits if_splits)
  then have "open_loop d [0..<nat (jk_map_size d)] (new_uri_worker_map, h1) = Some (True, m1, h)"
    by (auto simp: uri_worker_map_open_def ub_simps split: if_splits)
  then obtain rs where rs: "next_inv m1 rs" "grown SOURCE_TYPE_JKMOUNT (file_lines d) [] rs" "covered SOURCE_TYPE_JKMOUNT (file_lines d) rs"
    using open_loop_ok [OF new_map_inv] by (fastforce simp: file_lines_def)
  have "same_rules m1 m" using o(2) by (simp add: same_rules_def)
  then show ?thesis using rs next_inv_same by blast
qed

lemma reach_serving: "uw_reach st \<Longrightarrow> \<exists>rs. serving (fst st) rs"
proof (induction rule: uw_reach.induct)
  case (opened sz cs_ok h0 d n b m n' h W st1 st2)
  obtain rs where rs: "next_inv m rs" using uw_alloc_inv [OF opened(1)] by blast
  have "relaxed m (fst st1)" using ext_loop_relaxed [of W _ m h "fst st1" "snd st1"] opened(2) by (simp add: uri_worker_map_ext_def)
  then obtain rs' where "next_inv (fst st1) rs'" using relaxed_next rs by blast
  then show ?case using switch_ok [of "fst st1" rs' "snd st1" "fst st2" "snd st2"] opened(3) by auto
next
  case (configured m h u t f h')
  then obtain rs where v: "serving m rs" by auto
  let ?m = "m\<lparr>um_fname := f, um_reload := t, um_reject_unsafe := u\<rparr>"
  have g: "gen ?m i = gen m i" for i by (simp add: gen_def)
  have r: "records ?m (gen m i) = records m (gen m i)" for i by (rule records_same) simp_all
  show ?case using v by (auto simp: serving_def store_ok_def gen_inv_def g r IND_THIS_def)
next
  case (request st ev uri vhost r st')
  obtain m h where st: "st = (m, h)" by (cases st)
  obtain rs where v: "serving m rs" using request.IH st by auto
  have "st' = st \<or> (\<exists>rc. uri_worker_map_update ev False st = Some (rc, st'))"
    using request.hyps(3) by (auto simp: map_uri_to_worker_ext_def ub_simps split: if_splits)
  then show ?case using update_serving [OF v, of ev h False _ "fst st'" "snd st'"] request.hyps(2) v st by auto
qed

section \<open>The theorems\<close>

text \<open>Claim C2: in every state a map can reach, as long as the file can be read when it is reloaded, the generation in use is
  intact: its rules are all alive, in the order of the search, with their context lengths and wildcard marks right, the
  counter of unmount rules is exact, and exactly the rules of the file live in the pool that goes with the generation.\<close>

theorem uw_invariant:
  assumes "uw_reach (m, h)"
  shows "\<exists>rs. records m (IND_THIS m) = Some rs \<and> sorted_wrt before rs \<and> (\<forall>x \<in> set rs. rule_ok (snd x)) \<and>
    g_nosize (IND_THIS m) = length (filter (\<lambda>r. has (snd r) MATCH_TYPE_NO_MATCH) rs) \<and>
    (\<forall>x \<in> set rs. (from_file x \<longleftrightarrow> in_dyn (fst x)) \<and> addr_ok (um_index m) (fst x))"
proof -
  obtain rs where v: "serving m rs" using reach_serving [OF assms] by auto
  then have r: "records m (IND_THIS m) = Some rs" "store_ok m" by (simp_all add: serving_def)
  have "from_file x \<longleftrightarrow> in_dyn (fst x)" if "x \<in> set rs" for x
    using records_store [OF r(1) that] r(2) unfolding store_ok_def from_file_def by blast
  then show ?thesis using r(1) serving_ok [OF v] v by (auto simp: gen_ok_def serving_def gen_inv_def IND_THIS_def)
qed


lemma same_listD: "same_list a b \<Longrightarrow> y \<in> set b \<Longrightarrow> \<exists>x \<in> set a. fst y = fst x \<and> same_text (snd x) (snd y)"
  "same_list a b \<Longrightarrow> x \<in> set a \<Longrightarrow> \<exists>y \<in> set b. fst y = fst x \<and> same_text (snd x) (snd y)"
  by (auto simp: same_list_def list_all2_conv_all_nth in_set_conv_nth) (metis fst_conv snd_conv nth_mem prod.collapse)+

text \<open>Claim C37: a reload replaces the rules of the file and nothing else: every rule of another source is kept, at its address
  and with its text, and every other rule of the new generation is one that the file stands for.\<close>

theorem uw_reload:
  assumes "serving m rs" and "uri_worker_map_load ev (m\<lparr>um_checked := ue_now ev\<rparr>, h) = Some (True, m1, h1)"
    and "ue_mtime ev = Some t" and "t \<noteq> um_modified m" and "uri_worker_map_update ev True (m, h) = Some (rc, m', h')"
  shows "\<exists>d rs'. file_map ev h d \<and> serving m' rs' \<and> um_index m' = IND_SWITCH (um_index m) \<and>
    (\<forall>x \<in> set rs. \<not> from_file x \<longrightarrow> (\<exists>y \<in> set rs'. fst y = fst x \<and> same_text (snd x) (snd y))) \<and>
    (\<forall>y \<in> set rs'. (\<exists>x \<in> set rs. \<not> from_file x \<and> fst y = fst x \<and> same_text (snd x) (snd y)) \<or>
       (\<exists>r \<in> rules_of SOURCE_TYPE_URIMAP (file_lines d). same_text r (snd y)))"
proof -
  let ?m = "m\<lparr>um_checked := ue_now ev\<rparr>"
  have v: "serving ?m rs" by (rule serving_same [OF _ assms(1)]) (simp add: same_rules_def)
  obtain m2 h2 where s: "uri_worker_map_ext (ue_workers ev) (m1, h1) = Some (m2, h2)" "uri_worker_map_switch (m2, h2) = Some (m', h')"
    using assms(2-5) by (auto simp: uri_worker_map_update_def Let_def ub_simps)
  obtain d rs1 rs' where r: "file_map ev h d" "grown SOURCE_TYPE_URIMAP (file_lines d) (filter (\<lambda>x. \<not> from_file x) rs) rs1"
      "same_list rs1 rs'" "serving m' rs'" "um_index m' = IND_SWITCH (um_index m)"
    using reload_ok [OF v assms(2) s] by auto
  have "\<exists>y \<in> set rs'. fst y = fst x \<and> same_text (snd x) (snd y)" if "x \<in> set rs" "\<not> from_file x" for x
    using that r(2) same_listD(2) [OF r(3), of x] by (auto simp: grown_def)
  moreover have "(\<exists>x \<in> set rs. \<not> from_file x \<and> fst y = fst x \<and> same_text (snd x) (snd y)) \<or>
       (\<exists>r \<in> rules_of SOURCE_TYPE_URIMAP (file_lines d). same_text r (snd y))" if "y \<in> set rs'" for y
  proof -
    obtain x where x: "x \<in> set rs1" "fst y = fst x" "same_text (snd x) (snd y)" using same_listD(1) [OF r(3)] \<open>y \<in> set rs'\<close> by blast
    then show ?thesis using r(2) by (cases "x \<in> set rs \<and> \<not> from_file x") (auto simp: grown_def)
  qed
  ultimately show ?thesis using r(1,4,5) by blast
qed

section \<open>Failures\<close>

lemma load_unreadable:
  assumes "ue_file ev = None"
  shows "\<exists>h'. uri_worker_map_load ev (m, h) = Some (False, m, h')"
proof (cases "c_malloc h sizeof_jk_map")
  case (Pair r h1)
  show ?thesis
  proof (cases r)
    case None
    then show ?thesis using Pair by (simp add: uri_worker_map_load_def jk_map_alloc_def)
  next
    case (Some b)
    then have "b \<in> live_ids h1" using live_ids_malloc Pair by auto
    then obtain h2 where "c_free h1 b = Some h2" using free_live by blast
    then show ?thesis using Pair Some assms
      by (simp add: uri_worker_map_load_def jk_map_alloc_def jk_map_read_properties_def jk_map_free_def jk_map_close_def
          jk_map_open_def jk_close_pool_def jk_reset_pool_def jk_open_pool_def Let_def)
  qed
qed

lemma switch_releases:
  assumes "um_index m < 2" and "uri_worker_map_switch (m, h) = Some (m', h')"
  shows "g_maps (IND_NEXT m') = Released \<and> g_size (IND_NEXT m') = g_size (IND_THIS m)"
  using assms by (auto simp: uri_worker_map_switch_def Let_def ub_simps IND_NEXT_def gen_put_next IND_THIS_def elim!: index_cases)

lemma ext_released:
  assumes "g_maps (IND_NEXT m) = Released" and "g_size (IND_NEXT m) \<noteq> 0"
  shows "uri_worker_map_ext W (m, h) = None"
  using assms by (cases "g_size (IND_NEXT m)") (simp_all add: uri_worker_map_ext_def upt_rec record_at_def entry_at_def)


text \<open>Closing a pool only removes blocks.\<close>

lemma free_entries_live: "free_entries h es = Some h' \<Longrightarrow> live_ids h' \<subseteq> live_ids h"
proof (induction h es rule: free_entries.induct)
  case (3 h b es)
  then show ?case using live_ids_free by (fastforce simp: ub_simps)
qed auto

lemma reset_pool_live:
  assumes "jk_reset_pool (p, h) = Some (p', h')"
  shows "live_ids h' \<subseteq> live_ids h \<and> p' = p\<lparr>dyn_pos := 0, pool_pos := 0\<rparr>"
proof (cases "dynamic p")
  case None
  then show ?thesis using assms by (auto simp: jk_reset_pool_def)
next
  case (Some be)
  obtain b es where be: "be = (b, es)" by (cases be)
  show ?thesis using assms Some be free_entries_live [of h "take (unat (dyn_pos p)) es" h']
    by (auto simp: jk_reset_pool_def ub_simps split: if_splits)
qed

lemma close_pool_live:
  assumes "jk_close_pool (p, h) = Some (p', h')"
  shows "live_ids h' \<subseteq> live_ids h \<and> dynamic p' = dynamic p \<and> (\<forall>b es. dynamic p = Some (b, es) \<longrightarrow> b \<in> live_ids h \<and> b \<notin> live_ids h')"
proof -
  obtain p1 h1 where r: "jk_reset_pool (p, h) = Some (p1, h1)" using assms by (auto simp: jk_close_pool_def ub_simps)
  have l: "live_ids h1 \<subseteq> live_ids h" "dynamic p1 = dynamic p" using reset_pool_live [OF r] by auto
  show ?thesis
  proof (cases "dynamic p")
    case None
    then show ?thesis using assms r l by (auto simp: jk_close_pool_def)
  next
    case (Some be)
    obtain b es where be: "be = (b, es)" by (cases be)
    have f: "c_free h1 b = Some h'" "p' = p1" using assms r l Some be by (auto simp: jk_close_pool_def ub_simps)
    have "b \<in> live_ids h1" using f(1) by (simp add: c_free_def split: if_splits)
    then show ?thesis using live_ids_free [OF f(1)] f(2) l Some be by auto
  qed
qed

lemma close_pool_stale: "dynamic p = Some (b, es) \<Longrightarrow> b \<notin> live_ids h \<Longrightarrow> jk_close_pool (p, h) = None"
  using close_pool_live [of p h] by (cases "jk_close_pool (p, h)") auto

text \<open>When the mounts of the configuration cannot all be added, the pools are closed, but the map is handed back. Freeing it,
  as its owner must, releases the array of a pool that had grown a second time.\<close>

theorem open_failure_double_free:
  assumes "uri_worker_map_alloc sz True h0 (Some d) n = Some (False, (b, m), n', h)" and "dynamic (um_p m) \<noteq> None"
  shows "uri_worker_map_free (b, m) h = None"
proof -
  obtain m1 h1 where c: "close_pools (m1, h1) = Some (m, h)"
    using assms(1) by (auto simp: uri_worker_map_alloc_def uri_worker_map_open_def ub_simps split: prod.splits option.splits if_splits)
  obtain p h2 where p: "jk_close_pool (um_p m1, h2) = Some (p, h)" "um_p m = p"
    using c by (auto simp: close_pools_def ub_simps)
  obtain c es where d: "dynamic p = Some (c, es)" "c \<notin> live_ids h" using close_pool_live [OF p(1)] assms(2) p(2) by auto
  have "close_pools (m, h) = None"
  proof (cases "jk_close_pool (g_pool (gen m 0), h)")
    case (Some x)
    obtain p0 k0 where x: "x = (p0, k0)" by (cases x)
    have n0: "c \<notin> live_ids k0" using close_pool_live [of "g_pool (gen m 0)" h p0 k0] Some x d(2) by auto
    show ?thesis
    proof (cases "jk_close_pool (g_pool (gen m 1), k0)")
      case (Some y)
      obtain p1 k1 where y: "y = (p1, k1)" by (cases y)
      have "c \<notin> live_ids k1" using close_pool_live [of "g_pool (gen m 1)" k0 p1 k1] Some y n0 by auto
      then have "jk_close_pool (um_p m, k1) = None" using close_pool_stale d(1) p(2) by simp
      then show ?thesis using \<open>jk_close_pool (g_pool (gen m 0), h) = Some x\<close> Some x y by (simp add: close_pools_def)
    qed (use \<open>jk_close_pool (g_pool (gen m 0), h) = Some x\<close> x in \<open>simp add: close_pools_def\<close>)
  qed (simp add: close_pools_def)
  then show ?thesis by (simp add: uri_worker_map_free_def)
qed

section \<open>Status lists\<close>

lemma tokens_count: "length (tokens sep s) \<le> (if s = [] \<or> sep (hd s) then length (filter sep s) else 1 + length (filter sep s))"
proof (induction sep s rule: tokens.induct)
  case (1 sep s)
  let ?t = "dropWhile sep s" and ?l = "takeWhile sep s"
  let ?r = "dropWhile (\<lambda>c. \<not> sep c) ?t"
  show ?case
  proof (cases "?t = []")
    case True
    then have "tokens sep s = []" by (subst tokens.simps) (simp only: Let_def if_P)
    then show ?thesis by simp
  next
    case False
    have r: "?r = [] \<or> sep (hd ?r)" using hd_dropWhile [of "\<lambda>c. \<not> sep c" ?t] by blast
    have "tokens sep s = takeWhile (\<lambda>c. \<not> sep c) ?t # tokens sep ?r" using False by (subst tokens.simps) (simp only: Let_def if_False)
    moreover have "length (tokens sep ?r) \<le> length (filter sep ?r)" using 1 [OF refl False] r by auto
    moreover have "filter sep ?t = filter sep ?r"
      using takeWhile_dropWhile_id [of "\<lambda>c. \<not> sep c" ?t] by (metis (no_types, lifting) filter_append filter_False append_Nil set_takeWhileD)
    moreover have "filter sep s = ?l @ filter sep ?t"
      using takeWhile_dropWhile_id [of sep s] by (metis (no_types, lifting) filter_append filter_True set_takeWhileD)
    moreover have "?l \<noteq> [] \<longleftrightarrow> s \<noteq> [] \<and> sep (hd s)" by (cases s) auto
    ultimately show ?thesis by (cases ?l) auto
  qed
qed

lemma set_statuses_ok:
  assumes "\<forall>s \<in> set ss. c_atoi s = Some (f s)" and "cnt + length ss \<le> length xs"
  shows "set_statuses cnt ss xs = Some (take cnt xs @ map f ss @ drop (cnt + length ss) xs)"
  using assms
proof (induction ss arbitrary: cnt xs)
  case (Cons s ss)
  have "set_statuses (cnt + 1) ss (xs[cnt := f s]) = Some (take (cnt + 1) (xs[cnt := f s]) @ map f ss @ drop (cnt + 1 + length ss) (xs[cnt := f s]))"
    using Cons.prems by (intro Cons.IH) auto
  then show ?case using Cons.prems by (simp add: wr_def take_Suc_conv_app_nth take_update_cancel drop_update_cancel)
qed simp

text \<open>The list of status codes of a rule fits in its array: the array has one place more than the text has separators, the codes are
  stored in order from its start, and the places that repeated separators leave over are zero.\<close>

theorem fail_on_status_fits:
  assumes "jk_pool_strdup p (Some str) = Some (Some str, p1)"
    and "jk_pool_alloc p1 (of_nat ((1 + length (filter rule_list_sep str)) * 4)) = Some (Some a, p2)"
    and "\<forall>s \<in> set (tokens rule_list_sep str). c_atoi s = Some (f s)"
  shows "extension_fix_fail_on_status p e str =
    Some (e\<lparr>re_fail_on_status_size := int (1 + length (filter rule_list_sep str)),
            re_fail_on_status := Some (map f (tokens rule_list_sep str) @ replicate (1 + length (filter rule_list_sep str) - length (tokens rule_list_sep str)) 0)\<rparr>, p2)"
proof -
  define n where "n = 1 + length (filter rule_list_sep str)"
  have "length (tokens rule_list_sep str) \<le> n" using tokens_count [of rule_list_sep str] by (simp add: n_def split: if_splits)
  then have "set_statuses 0 (tokens rule_list_sep str) (replicate n 0) = Some (map f (tokens rule_list_sep str) @ replicate (n - length (tokens rule_list_sep str)) 0)"
    using set_statuses_ok [OF assms(3), of 0 "replicate n 0"] by simp
  then show ?thesis using assms(1,2) unfolding extension_fix_fail_on_status_def n_def [symmetric] Let_def by simp
qed

section \<open>Examples\<close>

definition demo_rule :: "string \<Rightarrow> string \<Rightarrow> u32 \<Rightarrow> uri_worker_record" where
  "demo_rule u w t = \<lparr>ur_uri = u, ur_worker_name = w, ur_context = u, ur_match_type = t, ur_source_type = SOURCE_TYPE_JKMOUNT,
     ur_context_len = length u, ur_extensions = no_extensions\<rparr>"

definition demo_uw :: jk_uri_worker_map where
  "demo_uw = new_uri_worker_map\<lparr>um_gens :=
       (\<lparr>g_pool = jk_open_pool 8192, g_maps = Entries [Some (In_Pool 0), Some (In_Pool 1)], g_size = 2, g_capacity = 2, g_nosize = 1\<rparr>,
        \<lparr>g_pool = jk_open_pool 8192, g_maps = Null, g_size = 0, g_capacity = 0, g_nosize = 0\<rparr>),
     um_recs := [In_Pool 0 \<mapsto> demo_rule ''/app/x'' ''w1'' 0x1001, In_Pool 1 \<mapsto> demo_rule ''/app/*'' ''w1'' 0x0040], um_fresh := 2\<rparr>"

definition demo_env :: "(string \<times> int) option \<Rightarrow> int \<Rightarrow> uw_env" where
  "demo_env f t = \<lparr>ue_now = 100, ue_mtime = Some t, ue_file = f, ue_getenv = (\<lambda>_. None), ue_workers = jk_map_open, ue_warns = True\<rparr>"

lemmas demo_uw_defs = demo_uw_def new_uri_worker_map_def Let_def IND_THIS_def IND_NEXT_def gen_def

lemma demo_records: "records demo_uw (IND_THIS demo_uw) = Some [(In_Pool 0, demo_rule ''/app/x'' ''w1'' 0x1001), (In_Pool 1, demo_rule ''/app/*'' ''w1'' 0x0040)]"
  by (simp add: records_def demo_uw_defs record_at_def upt_rec numeral_2_eq_2)

lemma demo_rules_ok: "rule_ok (demo_rule ''/app/x'' ''w1'' 0x1001)" "rule_ok (demo_rule ''/app/*'' ''w1'' 0x0040)"
  "has (demo_rule ''/app/x'' ''w1'' 0x1001) MATCH_TYPE_NO_MATCH" "\<not> has (demo_rule ''/app/*'' ''w1'' 0x0040) MATCH_TYPE_NO_MATCH"
  by (simp_all add: rule_ok_def demo_rule_def has_def match_types wild_def)

lemma demo_store: "store_ok demo_uw"
  using demo_rules_ok(1,2) by (auto simp: store_ok_def demo_uw_defs addr_id_def in_dyn_def demo_rule_def split: if_splits)

lemma demo_serving: "serving demo_uw [(In_Pool 0, demo_rule ''/app/x'' ''w1'' 0x1001), (In_Pool 1, demo_rule ''/app/*'' ''w1'' 0x0040)]"
proof -
  have "array_ok (gen demo_uw 0)" "g_nosize (gen demo_uw 0) = 1" "um_index demo_uw = 0" by (simp_all add: array_ok_def demo_uw_defs)
  moreover have "before (In_Pool 0, demo_rule ''/app/x'' ''w1'' 0x1001) (In_Pool 1, demo_rule ''/app/*'' ''w1'' 0x0040)"
    by (simp add: before_def worker_compare_def demo_rule_def)
  ultimately show ?thesis using demo_store demo_records demo_rules_ok(3,4)
    by (simp add: serving_def gen_inv_def IND_THIS_def addr_ok_def)
qed


text \<open>A reload of an empty file.\<close>

definition demo_7 :: jk_uri_worker_map where
  "demo_7 = demo_uw\<lparr>um_checked := 100, um_modified := 7\<rparr>"

definition demo_gen :: uw_gen where
  "demo_gen = \<lparr>g_pool = jk_open_pool 8192, g_maps = Entries [Some (In_Pool 0), Some (In_Pool 1)], g_size = 2, g_capacity = 2, g_nosize = 1\<rparr>"

lemma demo_7_simps [simp]: "um_index demo_7 = 0" "IND_THIS demo_7 = demo_gen" "um_modified demo_7 = 7"
  "IND_NEXT demo_7 = \<lparr>g_pool = jk_open_pool 8192, g_maps = Null, g_size = 0, g_capacity = 0, g_nosize = 0\<rparr>"
  "um_recs demo_7 (In_Pool 0) = Some (demo_rule ''/app/x'' ''w1'' 0x1001)" "um_recs demo_7 (In_Pool (Suc 0)) = Some (demo_rule ''/app/*'' ''w1'' 0x0040)"
  "g_size demo_gen = 2" "um_p demo_7 = jk_open_pool 8192"
  by (simp_all add: demo_7_def demo_gen_def demo_uw_defs BIG_POOL_SIZE_def)

lemma demo_alloc: "jk_pool_alloc (jk_open_pool 8192, h) 16 = Some (Some (Static 0), (jk_open_pool 8192)\<lparr>pool_pos := 16\<rparr>, h)"
  by (simp add: jk_pool_alloc_def jk_open_pool_def JK_ALIGN_DEFAULT_def JK_ALIGN_def)

lemma demo_clear: "\<exists>m1. uri_worker_map_clear (demo_7, h) = Some (m1, h) \<and> um_modified m1 = 7 \<and> um_index m1 = 0 \<and> um_recs m1 = um_recs demo_7 \<and>
    g_maps (IND_NEXT m1) = Entries [Some (In_Pool 0), Some (In_Pool 1)] \<and> g_size (IND_NEXT m1) = 2 \<and> IND_THIS m1 = demo_gen \<and> um_p m1 = jk_open_pool 8192"
proof -
  have r: "record_at (put_next g demo_7) demo_gen 0 = Some (In_Pool 0, demo_rule ''/app/x'' ''w1'' 0x1001)"
    "record_at (put_next g demo_7) demo_gen (Suc 0) = Some (In_Pool (Suc 0), demo_rule ''/app/*'' ''w1'' 0x0040)" for g
    by (simp_all add: record_at_def demo_gen_def)
  have s: "ur_source_type (demo_rule u w t) = 2" for u w t by (simp add: demo_rule_def)
  have m: "um_modified (put_next g m) = um_modified m" for g m by (simp add: put_next_def set_gen_def)
  show ?thesis
    by (simp add: uri_worker_map_clear_def with_pool_def demo_alloc r s m set_entry_def wr_def upt_rec numeral_2_eq_2 demo_rules_ok(3,4))
qed

lemma demo_ext:
  assumes "um_index m = 0" "um_recs m = um_recs demo_7" "g_maps (IND_NEXT m) = Entries [Some (In_Pool 0), Some (In_Pool 1)]" "g_size (IND_NEXT m) = 2"
  shows "\<exists>m1. uri_worker_map_ext jk_map_open (m, h) = Some (m1, h) \<and> um_modified m1 = um_modified m \<and> um_index m1 = 0 \<and> IND_THIS m1 = IND_THIS m"
proof -
  have r: "record_at m (IND_NEXT m) 0 = Some (In_Pool 0, demo_rule ''/app/x'' ''w1'' 0x1001)"
    "record_at m (IND_NEXT m) (Suc 0) = Some (In_Pool (Suc 0), demo_rule ''/app/*'' ''w1'' 0x0040)"
    using assms by (simp_all add: record_at_def)
  have x: "extension_fix jk_map_open p n e = Some (e, p)" for p n e
    by (simp add: extension_fix_def wc_get_worker_for_name_def jk_map_get_def map_find_def jk_map_open_def)
  have "\<not> ur_source_type (demo_rule u w t) = 3" for u w t by (simp add: demo_rule_def)
  then show ?thesis using assms r x
    by (simp add: uri_worker_map_ext_def upt_rec numeral_2_eq_2 demo_rules_ok(3,4) with_pool_def IND_THIS_def IND_NEXT_def)
qed

lemma demo_load:
  obtains m1 h1 where "uri_worker_map_load (demo_env (Some ([], 7)) 7) (demo_uw\<lparr>um_checked := 100\<rparr>, big_heap) = Some (True, m1, h1)"
    "um_modified m1 = 7" "um_index m1 = 0" "um_recs m1 = um_recs demo_7" "g_maps (IND_NEXT m1) = Entries [Some (In_Pool 0), Some (In_Pool 1)]"
    "g_size (IND_NEXT m1) = 2" "IND_THIS m1 = demo_gen"
proof -
  let ?h = "\<lparr>live = [(0, 4176)], next_id = 1, limit = 1048576\<rparr>"
  obtain m1 where m1: "uri_worker_map_clear (demo_7, ?h) = Some (m1, ?h)" "um_modified m1 = 7" "um_index m1 = 0" "um_recs m1 = um_recs demo_7"
      "g_maps (IND_NEXT m1) = Entries [Some (In_Pool 0), Some (In_Pool 1)]" "g_size (IND_NEXT m1) = 2" "IND_THIS m1 = demo_gen"
    using demo_clear by blast
  have "uri_worker_map_load (demo_env (Some ([], 7)) 7) (demo_uw\<lparr>um_checked := 100\<rparr>, big_heap) =
      Some (True, m1\<lparr>um_checked := 100\<rparr>, \<lparr>live = [], next_id = 1, limit = 1048576\<rparr>)"
    using m1(1) by (simp add: uri_worker_map_load_def demo_env_def jk_map_alloc_def c_malloc_def big_heap_def heap_used_def sizeof_jk_map_def
      jk_map_read_properties_def read_lines.simps jk_map_size_def jk_map_open_def demo_7_def jk_map_free_def jk_map_close_def
      jk_close_pool_def jk_reset_pool_def jk_open_pool_def c_free_def live_ids_def)
  then show ?thesis using m1 by (intro that [of "m1\<lparr>um_checked := 100\<rparr>"]) (simp_all add: IND_NEXT_def IND_THIS_def)
qed

lemma demo_update:
  obtains m1 h1 m3 h3 where "uri_worker_map_load (demo_env (Some ([], 7)) 7) (demo_uw\<lparr>um_checked := 100\<rparr>, big_heap) = Some (True, m1, h1)"
    "uri_worker_map_update (demo_env (Some ([], 7)) 7) True (demo_uw, big_heap) = Some (True, m3, h3)" "um_modified m3 = 7"
proof -
  obtain m1 h1 where l: "uri_worker_map_load (demo_env (Some ([], 7)) 7) (demo_uw\<lparr>um_checked := 100\<rparr>, big_heap) = Some (True, m1, h1)"
    "um_modified m1 = 7" "um_index m1 = 0" "um_recs m1 = um_recs demo_7" "g_maps (IND_NEXT m1) = Entries [Some (In_Pool 0), Some (In_Pool 1)]"
    "g_size (IND_NEXT m1) = 2" "IND_THIS m1 = demo_gen" using demo_load by blast
  obtain m2 where e: "uri_worker_map_ext jk_map_open (m1, h1) = Some (m2, h1)" "um_modified m2 = 7" "um_index m2 = 0" "IND_THIS m2 = demo_gen"
    using demo_ext [OF l(3-6)] l(2,7) by auto
  have "gen m2 0 = demo_gen" using e(3,4) by (simp add: IND_THIS_def)
  then obtain m3 where s: "uri_worker_map_switch (m2, h1) = Some (m3, h1)" "um_modified m3 = 7" using e(2,3)
    by (simp add: uri_worker_map_switch_def Let_def IND_NEXT_def demo_gen_def jk_reset_pool_def jk_open_pool_def put_next_def set_gen_def)
  have "uri_worker_map_update (demo_env (Some ([], 7)) 7) True (demo_uw, big_heap) = Some (True, m3, h1)"
    using l(1) e(1) s(1) by (simp add: uri_worker_map_update_def demo_env_def demo_uw_def new_uri_worker_map_def Let_def)
  then show ?thesis using that l(1) s(2) by blast
qed

theorem uw_reload_witness:
  "\<exists>m' h'. uri_worker_map_update (demo_env (Some ([], 7)) 7) True (demo_uw, big_heap) = Some (True, m', h') \<and> um_index m' = 1 \<and>
     (\<exists>d. file_map (demo_env (Some ([], 7)) 7) big_heap d)"
proof -
  obtain m1 h1 m3 h3 where u: "uri_worker_map_load (demo_env (Some ([], 7)) 7) (demo_uw\<lparr>um_checked := 100\<rparr>, big_heap) = Some (True, m1, h1)"
    "uri_worker_map_update (demo_env (Some ([], 7)) 7) True (demo_uw, big_heap) = Some (True, m3, h3)" "um_modified m3 = 7" using demo_update by blast
  have f: "ue_mtime (demo_env (Some ([], 7)) 7) = Some 7" "7 \<noteq> um_modified demo_uw" "um_index demo_uw = 0" "ue_now (demo_env (Some ([], 7)) 7) = 100"
    by (simp_all add: demo_env_def demo_uw_def new_uri_worker_map_def Let_def)
  have l: "uri_worker_map_load (demo_env (Some ([], 7)) 7) (demo_uw\<lparr>um_checked := ue_now (demo_env (Some ([], 7)) 7)\<rparr>, big_heap) = Some (True, m1, h1)"
    unfolding f(4) by (rule u(1))
  from uw_reload [OF demo_serving l f(1,2) u(2)] have "\<exists>d. file_map (demo_env (Some ([], 7)) 7) big_heap d" "um_index m3 = IND_SWITCH (um_index demo_uw)"
    by blast+
  then show ?thesis using u(2) f(3) by simp
qed


theorem fail_on_status_fits_witness:
  "\<exists>p2. extension_fix_fail_on_status (jk_open_pool 8192, big_heap) no_extensions ''404, 503'' =
     Some (no_extensions\<lparr>re_fail_on_status_size := 3, re_fail_on_status := Some [404, 503, 0]\<rparr>, p2)"
proof -
  have t: "tokens rule_list_sep ''404, 503'' = [''404'', ''503'']" "length (filter rule_list_sep ''404, 503'') = 2"
    by (simp_all add: rule_list_sep_def tokens.simps Let_def)
  obtain p1 where a: "jk_pool_strdup (jk_open_pool 8192, big_heap) (Some ''404, 503'') = Some (Some ''404, 503'', p1)"
      "\<exists>a p2. jk_pool_alloc p1 (of_nat ((1 + length (filter rule_list_sep ''404, 503'')) * 4)) = Some (Some a, p2)"
    by (simp add: t jk_pool_strdup_def jk_pool_alloc_def jk_open_pool_def JK_ALIGN_DEFAULT_def JK_ALIGN_def)
  then obtain a p2 where b: "jk_pool_alloc p1 (of_nat ((1 + length (filter rule_list_sep ''404, 503'')) * 4)) = Some (Some a, p2)" by blast
  define f where "f s = (if s = ''404'' then 404 else 503 :: int)" for s :: string
  have c: "c_atoi ''404'' = Some 404" "c_atoi ''503'' = Some 503" by code_simp+
  have "\<forall>s \<in> set (tokens rule_list_sep ''404, 503''). c_atoi s = Some (f s)" using c by (simp add: t f_def)
  from fail_on_status_fits [OF a(1) b this, of no_extensions] show ?thesis by (simp add: t(1) f_def rule_list_sep_def numeral_2_eq_2)
qed

text \<open>A configuration with one mount.\<close>

definition demo_mounts :: "string \<Rightarrow> string jk_map" where
  "demo_mounts u = \<lparr>m_p = jk_open_pool 4096, m_names = Some [Some u], m_values = Some [Some ''w''], m_keys = Some [0], m_capacity = 1, m_size = 1\<rparr>"

lemma new_map_simps [simp]: "um_index new_uri_worker_map = 0" "um_recs new_uri_worker_map = Map.empty" "um_fresh new_uri_worker_map = 0"
  "gen new_uri_worker_map i = \<lparr>g_pool = jk_open_pool 8192, g_maps = Null, g_size = 0, g_capacity = 0, g_nosize = 0\<rparr>"
  "um_p new_uri_worker_map = jk_open_pool 8192"
  by (simp_all add: new_uri_worker_map_def Let_def gen_def BIG_POOL_SIZE_def)

lemma demo_pool_alloc:
  "jk_pool_alloc (jk_open_pool 8192, h) 32 = Some (Some (Static 0), (jk_open_pool 8192)\<lparr>pool_pos := 32\<rparr>, h)"
  "jk_pool_alloc (jk_open_pool 8192, h) 152 = Some (Some (Static 0), (jk_open_pool 8192)\<lparr>pool_pos := 152\<rparr>, h)"
  "jk_pool_alloc ((jk_open_pool 8192)\<lparr>pool_pos := 152\<rparr>, h) 3 = Some (Some (Static 152), (jk_open_pool 8192)\<lparr>pool_pos := 160\<rparr>, h)"
  "jk_pool_alloc ((jk_open_pool 8192)\<lparr>pool_pos := 160\<rparr>, h) 2 = Some (Some (Static 160), (jk_open_pool 8192)\<lparr>pool_pos := 168\<rparr>, h)"
  by (simp_all add: jk_pool_alloc_def jk_open_pool_def JK_ALIGN_DEFAULT_def JK_ALIGN_def)

lemma demo_parse: "parse_rule_extensions (Some ''w'') = Some (''w'', no_extensions)"
  by (simp add: parse_rule_extensions_def next_param_def ext_params.simps)

lemma demo_add:
  obtains m a where "uri_worker_map_add (new_uri_worker_map, h) (Some ''/a'') (Some ''w'') SOURCE_TYPE_JKMOUNT = Some (True, m, h)"
    "um_index m = 0" "g_maps (IND_NEXT m) = Entries (Some a # replicate 3 None)" "g_size (IND_NEXT m) = 1" "um_recs m a = Some (demo_rule ''/a'' ''w'' 1)"
    "g_pool (gen m 0) = jk_open_pool 8192"
proof -
  let ?g = "\<lparr>g_pool = (jk_open_pool 8192)\<lparr>pool_pos := 32\<rparr>, g_maps = Entries (replicate 4 None), g_size = 0, g_capacity = 4, g_nosize = 0\<rparr>"
  obtain m1 where r: "uri_worker_map_realloc (new_uri_worker_map, h) = Some (True, m1, h)" "IND_NEXT m1 = ?g" "um_index m1 = 0" "um_recs m1 = Map.empty"
      "um_fresh m1 = 0" "um_p m1 = jk_open_pool 8192" "g_pool (gen m1 0) = jk_open_pool 8192"
    by (simp add: uri_worker_map_realloc_def Let_def with_pool_def IND_NEXT_def [of new_uri_worker_map] UW_INC_SIZE_def demo_pool_alloc grow_maps_def gen_put_next)
  let ?m = "m1\<lparr>um_p := (jk_open_pool 8192)\<lparr>pool_pos := 168\<rparr>\<rparr>"
  have n: "IND_NEXT (m1\<lparr>um_p := p\<rparr>) = ?g" "IND_NEXT (m1\<lparr>um_p := p, um_recs := q, um_fresh := k\<rparr>) = ?g" for p q k
    using r(2) by (simp_all add: IND_NEXT_def)
  let ?g1 = "?g\<lparr>g_maps := Entries (Some (In_Pool 0) # replicate 3 None), g_size := 1\<rparr>"
  let ?m2 = "put_next ?g1 (?m\<lparr>um_recs := [In_Pool 0 \<mapsto> demo_rule ''/a'' ''w'' 1], um_fresh := 1\<rparr>)"
  have q: "worker_qsort ?m2 = Some (put_next ?g1 ?m2)"
    by (simp add: worker_qsort_def records_def record_at_def qsort_def)
  have "uri_worker_map_add (new_uri_worker_map, h) (Some ''/a'') (Some ''w'') SOURCE_TYPE_JKMOUNT = Some (True, put_next ?g1 ?m2, h)"
    using r q by (simp add: uri_worker_map_add_def with_pool_def sizeof_uri_worker_record_def jk_pool_strdup_def demo_pool_alloc demo_parse n set_entry_def wr_def
        match_types demo_rule_def eval_nat_numeral Let_def)
  then show ?thesis using r by (intro that [of "put_next ?g1 ?m2" "In_Pool 0"]) (simp_all add: gen_put_next)
qed

lemma demo_opened:
  obtains m a h where "uri_worker_map_alloc 32768 True big_heap (Some (demo_mounts ''/a'')) 0 = Some (True, (0, m), 1, h)"
    "um_index m = 0" "g_maps (IND_NEXT m) = Entries (Some a # replicate 3 None)" "g_size (IND_NEXT m) = 1" "um_recs m a = Some (demo_rule ''/a'' ''w'' 1)"
    "g_pool (gen m 0) = jk_open_pool 8192"
proof -
  let ?h = "\<lparr>live = [(0, 32768)], next_id = 1, limit = 1048576\<rparr>"
  obtain m a where m: "uri_worker_map_add (new_uri_worker_map, ?h) (Some ''/a'') (Some ''w'') SOURCE_TYPE_JKMOUNT = Some (True, m, ?h)"
    "um_index m = 0" "g_maps (IND_NEXT m) = Entries (Some a # replicate 3 None)" "g_size (IND_NEXT m) = 1" "um_recs m a = Some (demo_rule ''/a'' ''w'' 1)"
    "g_pool (gen m 0) = jk_open_pool 8192" by (rule demo_add)
  have "uri_worker_map_open (new_uri_worker_map, ?h) (demo_mounts ''/a'') = Some (True, m, ?h)"
    using m(1) by (simp add: uri_worker_map_open_def demo_mounts_def jk_map_size_def jk_map_name_at_def jk_map_value_at_def arr_def rd_def add_rule_def)
  then have "uri_worker_map_alloc 32768 True big_heap (Some (demo_mounts ''/a'')) 0 = Some (True, (0, m\<lparr>um_id := 1\<rparr>), 1, ?h)"
    by (simp add: uri_worker_map_alloc_def c_malloc_def big_heap_def heap_used_def)
  then show ?thesis using m by (intro that [of "m\<lparr>um_id := 1\<rparr>" ?h a]) (simp_all add: IND_NEXT_def)
qed


lemma demo_reached: "\<exists>m h. uw_reach (m, h) \<and> um_index m = 1"
proof -
  obtain m a h where m: "uri_worker_map_alloc 32768 True big_heap (Some (demo_mounts ''/a'')) 0 = Some (True, (0, m), 1, h)"
    "um_index m = 0" "g_maps (IND_NEXT m) = Entries (Some a # replicate 3 None)" "g_size (IND_NEXT m) = 1" "um_recs m a = Some (demo_rule ''/a'' ''w'' 1)"
    "g_pool (gen m 0) = jk_open_pool 8192" by (rule demo_opened)
  have r: "record_at m (IND_NEXT m) 0 = Some (a, demo_rule ''/a'' ''w'' 1)" using m by (simp add: record_at_def)
  have x: "extension_fix jk_map_open p n e = Some (e, p)" for p n e
    by (simp add: extension_fix_def wc_get_worker_for_name_def jk_map_get_def map_find_def jk_map_open_def)
  obtain m1 where e: "uri_worker_map_ext jk_map_open (m, h) = Some (m1, h)" "um_index m1 = 0" "g_pool (gen m1 0) = jk_open_pool 8192"
    using m r x by (simp add: uri_worker_map_ext_def with_pool_def has_def match_types demo_rule_def)
  obtain m2 where s: "uri_worker_map_switch (m1, h) = Some (m2, h)" "um_index m2 = 1"
    using e by (simp add: uri_worker_map_switch_def Let_def IND_NEXT_def jk_reset_pool_def jk_open_pool_def)
  show ?thesis using uw_reach.opened [OF m(1) e(1) s(1)] s(2) by blast
qed

theorem uw_invariant_witness:
  "\<exists>m h rs. uw_reach (m, h) \<and> records m (IND_THIS m) = Some rs \<and> sorted_wrt before rs"
proof -
  obtain m h where "uw_reach (m, h)" using demo_reached by blast
  then show ?thesis using uw_invariant [of m h] by blast
qed

text \<open>A mount that is no path and too long for the first block of the pool.\<close>

definition long_name :: string where
  "long_name = replicate 9000 CHR ''x''"

lemma long_name_simps [simp]: "length long_name = 9000" "long_name \<noteq> []" "hd long_name = CHR ''x''" "CHR ''|'' \<notin> set long_name"
  by (simp_all add: long_name_def)

lemma open_pool_fields: "dynamic (jk_open_pool n) = None" "dyn_pos (jk_open_pool n) = 0"
  by (simp_all add: jk_open_pool_def)

lemma replicate_10: "replicate 10 x = x # replicate 9 x"
  by (simp add: eval_nat_numeral)

theorem open_failure_double_free_witness:
  "\<exists>b m h. uri_worker_map_alloc 32768 True big_heap (Some (demo_mounts long_name)) 0 = Some (False, (b, m), 0, h) \<and> uri_worker_map_free (b, m) h = None"
proof -
  let ?h = "\<lparr>live = [(0, 32768)], next_id = 1, limit = 1048576\<rparr>"
  let ?g = "\<lparr>g_pool = (jk_open_pool 8192)\<lparr>pool_pos := 32\<rparr>, g_maps = Entries (replicate 4 None), g_size = 0, g_capacity = 4, g_nosize = 0\<rparr>"
  obtain m1 where r: "uri_worker_map_realloc (new_uri_worker_map, ?h) = Some (True, m1, ?h)" "um_index m1 = 0" "um_p m1 = jk_open_pool 8192"
      "g_pool (gen m1 0) = jk_open_pool 8192" "dynamic (g_pool (gen m1 (Suc 0))) = None" "dyn_pos (g_pool (gen m1 (Suc 0))) = 0"
    by (simp add: uri_worker_map_realloc_def Let_def with_pool_def IND_NEXT_def [of new_uri_worker_map] UW_INC_SIZE_def demo_pool_alloc grow_maps_def gen_put_next open_pool_fields)
  obtain p h2 where d: "jk_pool_strdup ((jk_open_pool 8192)\<lparr>pool_pos := 152\<rparr>, ?h) (Some long_name) = Some (Some long_name, p, h2)"
      "dynamic p = Some (1, Some 2 # replicate 9 None)" "dyn_pos p = 1" "live h2 = [(2, 9008), (1, 80), (0, 32768)]"
    by (simp add: jk_pool_strdup_def jk_pool_alloc_def jk_open_pool_def JK_ALIGN_DEFAULT_def JK_ALIGN_def jk_pool_grow_def DEFAULT_DYNAMIC_def c_realloc_def
        c_malloc_def heap_used_def wr_def replicate_10)
  have "uri_worker_map_add (new_uri_worker_map, ?h) (Some long_name) (Some ''w'') SOURCE_TYPE_JKMOUNT = Some (False, m1\<lparr>um_p := p\<rparr>, h2)"
    using r d by (simp add: uri_worker_map_add_def with_pool_def sizeof_uri_worker_record_def demo_pool_alloc Let_def)
  then have "open_loop (demo_mounts long_name) [0..<1] (new_uri_worker_map, ?h) = Some (False, m1\<lparr>um_p := p\<rparr>, h2)"
    by (simp add: demo_mounts_def jk_map_name_at_def jk_map_value_at_def arr_def rd_def add_rule_def)
  moreover obtain m h where c: "close_pools (m1\<lparr>um_p := p\<rparr>, h2) = Some (m, h)" "dynamic (um_p m) \<noteq> None"
    using r d by (simp add: close_pools_def jk_close_pool_def jk_reset_pool_def c_free_def live_ids_def jk_open_pool_def)
  moreover have "nat (jk_map_size (demo_mounts long_name)) = 1" by (simp add: jk_map_size_def demo_mounts_def)
  ultimately have "uri_worker_map_open (new_uri_worker_map, ?h) (demo_mounts long_name) = Some (False, m, h)" by (simp add: uri_worker_map_open_def del: upt_Suc)
  then have "uri_worker_map_alloc 32768 True big_heap (Some (demo_mounts long_name)) 0 = Some (False, (0, m), 0, h)"
    by (simp add: uri_worker_map_alloc_def c_malloc_def big_heap_def heap_used_def)
  then show ?thesis using open_failure_double_free [of 32768 big_heap "demo_mounts long_name" 0 0 m 0 h] c(2) by blast
qed

end
