(* ===== verification/Spec2Isabelle.thy ===== *)
theory Spec2Isabelle
  imports Jk_Msg Jk_Url Jk_Sockbuf Jk_Uri Jk_Map_File Jk_Ajp_Reply Jk_Uwmap_Life
begin

text \<open>
  Verification of the Tomcat connector \<open>mod_jk\<close>, the part of the repository that carries requests from
  the web server to the servlet containers:
  \<open>src/elba-tomcat-connectors-1.2.46-src/native/common/\<close>. The other parts of the repository are the two
  web servers it is loaded into, their libraries, the benchmark and its scripts.

  \<^bold>\<open>How the connector works.\<close> A configuration file is read into a property map (\<open>jk_map.c\<close>), from which
  the workers read their attributes (\<open>jk_util.c\<close>). Memory comes from pools (\<open>jk_pool.c\<close>). For a request the
  web server asks the URI map (\<open>jk_uri_worker_map.c\<close>) for the name of a worker. That is usually a load
  balancer (\<open>jk_lb_worker.c\<close>), which chooses one of its members and passes the request on; a member is an
  AJP worker (\<open>jk_ajp_common.c\<close>) with a pool of connections that the threads of a process share. On a
  connection, requests and replies are messages (\<open>jk_msg_buff.c\<close>) framed by magic and length, sent and
  received completely by \<open>jk_connect.c\<close>. A maintenance task closes idle connections, decays the load and
  recovers members that were in error.

  \<^bold>\<open>The theories.\<close>

  \<^item> \<open>Jk_Prelude\<close>: undefined behaviour (\<open>'a ub\<close>), the C heap, memory access, strings and words.
  \<^item> \<open>Jk_Pool\<close> (\<open>jk_pool.c\<close>): the pool as a record over a heap that can refuse memory and that detects a
    free of what is not allocated. Any sequence of allocations returns disjoint regions of existing memory;
    closing frees every block once; closing twice does not.
  \<^item> \<open>Jk_Msg\<close> (\<open>jk_msg_buff.c\<close>): marshalling. Every append refines the extension of a byte list; lists of
    strings are read back; the frame; where the readers leave the buffer.
  \<^item> \<open>Jk_Url\<close> (\<open>jk_url.c\<close>): encoding and decoding of URLs, exact bounds and the round trip.
  \<^item> \<open>Jk_Sockbuf\<close> (\<open>jk_sockbuf.c\<close>): buffered reading and writing against the stream of bytes.
  \<^item> \<open>Jk_Uri\<close> (\<open>jk_util.c\<close>): \<open>jk_servlet_normalize\<close> against a normal form by segments,
    \<open>jk_wildchar_match\<close> against globs, \<open>jk_strip_session_id\<close>.
  \<^item> \<open>Jk_Map\<close>, \<open>Jk_Map_File\<close>, \<open>Jk_Props\<close> (\<open>jk_map.c\<close>, \<open>jk_util.c\<close>): the property map, property
    files, references between properties, the tables of property names.
  \<^item> \<open>Jk_Config\<close>, \<open>Jk_Lb_Codes\<close> (\<open>jk_util.c\<close>, \<open>jk_lb_worker.h\<close>): the readers of worker attributes and
    the buffer of their keys; texts and codes of the balancer.
  \<^item> \<open>Jk_Connect\<close> (\<open>jk_connect.c\<close>): complete sends and receives, shutdown with its drain loop, over a model
    of the sockets of a process.
  \<^item> \<open>Jk_Ajp_Conn\<close> (\<open>jk_ajp_common.c\<close>): framed messages, CPING and CPONG, connecting and aborting an endpoint.
  \<^item> \<open>Jk_Ajp_Pool\<close> (\<open>jk_ajp_common.c\<close>): the connection pool. The step relation \<open>aw_step\<close> interleaves the
    operations of threads, maintenance and shutdown; its reachable states keep the counters exact, share no
    socket and leak none.
  \<^item> \<open>Jk_Lb\<close>, \<open>Jk_Lb_Service\<close> (\<open>jk_lb_worker.c\<close>): load values and multipliers, the choice of a member,
    sticky sessions, maintenance; then the service of a request with failover, whose loop ends, returns the
    busy counter to its value and avoids members that failed.
  \<^item> \<open>Jk_Ajp_Codec\<close> (\<open>jk_ajp_common.c\<close>): the codes of methods and headers against tables of keywords, marshalling of
    requests against a reader of the protocol, and the response headers.
  \<^item> \<open>Jk_Ajp_Reply\<close> (\<open>jk_ajp_common.c\<close>): reading parts of the request body, the dispatch on the messages of the
    container and the loop over the replies, with the web server's side as a record of what it reads, what it is
    told and which of its calls fail. The loop ends; a complete response reaches the client byte for byte; what
    is read of the body fits the packet; a chunk is written exactly when the message holds it, but
    for messages that end before the length.
  \<^item> \<open>Jk_Uwmap\<close>, \<open>Jk_Uwmap_Life\<close> (\<open>jk_uri_worker_map.c\<close>): rules in two generations. The search returns the
    most specific rule; the reachable maps (\<open>uw_reach\<close>) have a complete and sorted generation in use; what
    opening and reloading leave in the map, and what happens when they fail.

  \<^bold>\<open>Conventions.\<close> A function that C leaves undefined on some input has a result of type \<open>'a ub\<close>, where \<open>None\<close>
  stands for undefined behaviour; a theorem that such a function returns \<open>Some\<close> is a theorem about memory safety.
  C integers are words, or \<open>int\<close> where the width is not reached or is written out. Return codes keep
  their numbers. Pool memory is a pool with the heap behind it. The state of a component is a record with the
  fields of its struct; an operation returns it updated. Logging and tracing are left out.

  \<^bold>\<open>Interfaces.\<close> What one component relies on in another is a locale that is interpreted on the definitions
  of the provider: \<open>region_allocator\<close> on the pool, \<open>msg_codec\<close> on each pair of an append and a get operation
  of messages, \<open>byte_sink\<close> on the buffered socket, \<open>table\<close> on the property map, \<open>comparison_sort\<close> on the
  sort that stands for \<open>qsort\<close> of the C library, of which the search in the URI map uses only these laws.

  \<^bold>\<open>Loops.\<close> A loop is a recursive function whose termination is proved, or, where the code may run forever,
  a partial function into \<open>option\<close>: \<open>jk_sb_gets\<close>, whose inputs without a result are characterised;
  \<open>inherit_loop\<close> and \<open>resolve_loop\<close> over references between properties; \<open>service_loop\<close> of the balancer and
  \<open>reply_loop\<close>, both proved to return. No definition uses fuel. The outside world is finite data: a
  socket has a finite list of events and then reports the end of the stream.

  \<^bold>\<open>Not modelled.\<close> Sending a request with its retries (\<open>ajp_send_request\<close>, \<open>ajp_service\<close>) and the factories of the
  workers; \<open>jk_open_socket\<close> and name resolution, which are calls into the operating system: connecting is a
  parameter; the creation and locking of shared memory, whose records are part of the components; the status
  worker, which prints pages; the AJP12 worker and the login of AJP14 with its context tables and MD5, which
  no supported container uses; the modules of the web servers, whose callbacks are parameters.
\<close>

end
